(* ===== verification/Rivet_Prelude.thy ===== *)
theory Rivet_Prelude
  imports "HOL-Library.Word" "HOL-Library.AList" "HOL-Library.Multiset" "HOL-Library.List_Lexorder" "HOL-Library.Char_ord"
begin

text \<open>
  The vocabulary shared by every component: Rust's fixed-width integers and their saturating
  operations, \<open>std::io::Result\<close> threaded through explicit state, hash maps as association
  lists with distinct keys, little-endian byte encodings and UTF-8 strings.
\<close>

named_theorems io_simps \<open>rewriting of results threaded through state\<close>
named_theorems sat_simps \<open>saturating arithmetic read as natural numbers\<close>
named_theorems hm_simps \<open>hash maps as association lists\<close>

section \<open>Machine integers\<close>

type_synonym u8 = "8 word"
type_synonym u16 = "16 word"
type_synonym u32 = "32 word"
type_synonym u64 = "64 word"

text \<open>
  \<open>usize\<close> is the length and index type of a 64-bit target; it is a natural number here and
  its saturation is written out.
\<close>

definition usize_max :: nat where
  "usize_max = 2 ^ 64 - 1"

definition usize_sat_add :: "nat \<Rightarrow> nat \<Rightarrow> nat" where
  "usize_sat_add a b = min (a + b) usize_max"

definition usize_sat_mul :: "nat \<Rightarrow> nat \<Rightarrow> nat" where
  "usize_sat_mul a b = min (a * b) usize_max"

definition sat_add :: "'a::len word \<Rightarrow> 'a word \<Rightarrow> 'a word" where
  "sat_add a b = (if b \<le> - 1 - a then a + b else - 1)"

definition sat_sub :: "'a::len word \<Rightarrow> 'a word \<Rightarrow> 'a word" where
  "sat_sub a b = (if b \<le> a then a - b else 0)"

text \<open>\<open>v.len() as u64\<close>.\<close>

definition len64 :: "'b list \<Rightarrow> u64" where
  "len64 xs = of_nat (length xs)"

section \<open>Errors and results\<close>

text \<open>
  \<open>std::io::ErrorKind\<close>: the kinds the sources build or test, and \<open>OtherKind\<close> for the
  remaining kinds an injected backend may return.
\<close>

datatype io_error_kind =
    NotFound | PermissionDenied | AlreadyExists | WouldBlock | InvalidInput | InvalidData
  | TimedOut | UnexpectedEof | BrokenPipe | Unsupported | Other | OtherKind nat

text \<open>
  \<open>Panicked\<close> marks a call that unwinds instead of returning; it passes through \<open>?\<close> like an
  error and is matched by no error kind.
\<close>

datatype io_error = IoError io_error_kind string | Panicked string

fun has_kind :: "io_error \<Rightarrow> io_error_kind \<Rightarrow> bool" where
  "has_kind (IoError kind _) k = (kind = k)"
| "has_kind (Panicked _) k = False"

fun error_string :: "io_error \<Rightarrow> string" where
  "error_string (IoError _ msg) = msg"
| "error_string (Panicked msg) = msg"

type_synonym 'a io_result = "io_error + 'a"

text \<open>\<open>io::Error::other\<close>.\<close>

definition io_other :: "string \<Rightarrow> io_error" where
  "io_other msg = IoError Other msg"

text \<open>
  The \<open>?\<close> operator on a stateful call: the state reached by the call is kept when the
  call fails.
\<close>

definition and_then ::
  "'a io_result \<times> 's \<Rightarrow> ('a \<Rightarrow> 's \<Rightarrow> 'b io_result \<times> 's) \<Rightarrow> 'b io_result \<times> 's" where
  "and_then r k = (case r of (Inl e, s) \<Rightarrow> (Inl e, s) | (Inr a, s) \<Rightarrow> k a s)"

text \<open>The \<open>?\<close> operator on a pure check that comes before any effect.\<close>

definition check_then ::
  "'a io_result \<Rightarrow> 's \<Rightarrow> ('a \<Rightarrow> 'b io_result \<times> 's) \<Rightarrow> 'b io_result \<times> 's" where
  "check_then r s k = (case r of Inl e \<Rightarrow> (Inl e, s) | Inr a \<Rightarrow> k a)"

definition result_bind :: "'a io_result \<Rightarrow> ('a \<Rightarrow> 'b io_result) \<Rightarrow> 'b io_result" where
  "result_bind r k = (case r of Inl e \<Rightarrow> Inl e | Inr a \<Rightarrow> k a)"

section \<open>Strings and bytes\<close>

text \<open>A Rust string is the sequence of its UTF-8 bytes, kept as a list of characters.\<close>

definition as_bytes :: "string \<Rightarrow> u8 list" where
  "as_bytes s = map (\<lambda>c. of_nat (of_char c)) s"

definition from_bytes :: "u8 list \<Rightarrow> string" where
  "from_bytes bs = map (\<lambda>b. char_of (unat b)) bs"

text \<open>Decimal rendering of \<open>format!\<close> arguments.\<close>

fun show_nat :: "nat \<Rightarrow> string" where
  "show_nat n = (if n < 10 then [char_of (48 + n)]
                 else show_nat (n div 10) @ [char_of (48 + n mod 10)])"

definition show_int :: "int \<Rightarrow> string" where
  "show_int i = (if i < 0 then ''-'' @ show_nat (nat (- i)) else show_nat (nat i))"

declare show_nat.simps [simp del]

definition decimal_digit :: "char \<Rightarrow> bool" where
  "decimal_digit c = (let b = of_char c :: nat in 48 \<le> b \<and> b \<le> 57)"

definition digits_value :: "string \<Rightarrow> int" where
  "digits_value ds = fold (\<lambda>c n. 10 * n + (of_char c - 48)) ds 0"

text \<open>
  \<open>str::from_utf8\<close>: the well-formed byte sequences of the Unicode standard. A lead byte
  fixes the ranges of the bytes that follow it.
\<close>

definition utf8_lead :: "u8 \<Rightarrow> (nat \<times> nat) list option" where
  "utf8_lead b =
     (let n = unat b; cont = (0x80, 0xBF) in
      if n < 0x80 then Some []
      else if 0xC2 \<le> n \<and> n \<le> 0xDF then Some [cont]
      else if n = 0xE0 then Some [(0xA0, 0xBF), cont]
      else if n = 0xED then Some [(0x80, 0x9F), cont]
      else if 0xE1 \<le> n \<and> n \<le> 0xEF then Some [cont, cont]
      else if n = 0xF0 then Some [(0x90, 0xBF), cont, cont]
      else if 0xF1 \<le> n \<and> n \<le> 0xF3 then Some [cont, cont, cont]
      else if n = 0xF4 then Some [(0x80, 0x8F), cont, cont]
      else None)"

fun utf8_scan :: "(nat \<times> nat) list \<Rightarrow> u8 list \<Rightarrow> bool" where
  "utf8_scan pending [] = (pending = [])"
| "utf8_scan ((lo, hi) # pending) (b # bs) = (lo \<le> unat b \<and> unat b \<le> hi \<and> utf8_scan pending bs)"
| "utf8_scan [] (b # bs) =
     (case utf8_lead b of None \<Rightarrow> False | Some pending \<Rightarrow> utf8_scan pending bs)"

definition utf8_valid :: "u8 list \<Rightarrow> bool" where
  "utf8_valid bs = utf8_scan [] bs"

text \<open>
  \<open>s.trim().is_empty()\<close>: only Unicode white space, recognised on the UTF-8 bytes.
\<close>

fun blank_bytes :: "nat list \<Rightarrow> bool" where
  "blank_bytes [] = True"
| "blank_bytes (b # bs) =
     (if (9 \<le> b \<and> b \<le> 13) \<or> b = 32 then blank_bytes bs
      else (case bs of
          [] \<Rightarrow> False
        | c # cs \<Rightarrow>
            if b = 0xC2 \<and> (c = 0x85 \<or> c = 0xA0) then blank_bytes cs
            else (case cs of
                [] \<Rightarrow> False
              | d # ds \<Rightarrow>
                  if (b = 0xE1 \<and> c = 0x9A \<and> d = 0x80)
                   \<or> (b = 0xE2 \<and> c = 0x80 \<and> (0x80 \<le> d \<and> d \<le> 0x8A \<or> d = 0xA8 \<or> d = 0xA9 \<or> d = 0xAF))
                   \<or> (b = 0xE2 \<and> c = 0x81 \<and> d = 0x9F)
                   \<or> (b = 0xE3 \<and> c = 0x80 \<and> d = 0x80)
                  then blank_bytes ds else False)))"

definition blank :: "string \<Rightarrow> bool" where
  "blank s = blank_bytes (map of_char s)"

section \<open>Little-endian encodings\<close>

fun nat_to_le :: "nat \<Rightarrow> nat \<Rightarrow> u8 list" where
  "nat_to_le 0 x = []"
| "nat_to_le (Suc n) x = of_nat (x mod 256) # nat_to_le n (x div 256)"

fun le_to_nat :: "u8 list \<Rightarrow> nat" where
  "le_to_nat [] = 0"
| "le_to_nat (b # bs) = unat b + 256 * le_to_nat bs"

definition u16_le :: "u16 \<Rightarrow> u8 list" where
  "u16_le w = nat_to_le 2 (unat w)"

definition u32_le :: "u32 \<Rightarrow> u8 list" where
  "u32_le w = nat_to_le 4 (unat w)"

definition u64_le :: "u64 \<Rightarrow> u8 list" where
  "u64_le w = nat_to_le 8 (unat w)"

definition le_word :: "u8 list \<Rightarrow> 'a::len word" where
  "le_word bs = of_nat (le_to_nat bs)"

definition ascii_alphanumeric :: "char \<Rightarrow> bool" where
  "ascii_alphanumeric c = (let b = of_char c :: nat in (48 \<le> b \<and> b \<le> 57) \<or> (65 \<le> b \<and> b \<le> 90) \<or> (97 \<le> b \<and> b \<le> 122))"

text \<open>Insertion into an ordered map (\<open>BTreeMap\<close>), kept as the list of its entries in key order.\<close>

fun btree_insert :: "'k::linorder \<Rightarrow> 'v \<Rightarrow> ('k \<times> 'v) list \<Rightarrow> ('k \<times> 'v) list" where
  "btree_insert k v [] = [(k, v)]"
| "btree_insert k v ((k', v') # m) =
     (if k < k' then (k, v) # (k', v') # m
      else if k = k' then (k, v) # m
      else (k', v') # btree_insert k v m)"

definition bool_byte :: "bool \<Rightarrow> u8" where
  "bool_byte b = (if b then 1 else 0)"

text \<open>
  \<open>read_exact\<close> of \<open>n\<close> bytes from the unread rest of a stream; a short stream fails with
  \<open>UnexpectedEof\<close> and is consumed.
\<close>

definition read_exact :: "nat \<Rightarrow> u8 list \<Rightarrow> u8 list io_result \<times> u8 list" where
  "read_exact n bs =
     (if n \<le> length bs then (Inr (take n bs), drop n bs)
      else (Inl (IoError UnexpectedEof ''failed to fill whole buffer''), []))"

section \<open>Hash maps\<close>

text \<open>
  A \<open>HashMap\<close> is an association list with distinct keys; \<open>map_of\<close>, \<open>AList.update\<close> and
  \<open>AList.delete\<close> are its lookup, insert and remove. The iteration order of a hash map is
  unspecified, so code that iterates takes the order as a parameter of its own.
\<close>

type_synonym ('k, 'v) hmap = "('k \<times> 'v) list"

definition hm_ok :: "('k, 'v) hmap \<Rightarrow> bool" where
  "hm_ok m = distinct (map fst m)"

definition hm_sum :: "('v \<Rightarrow> nat) \<Rightarrow> ('k, 'v) hmap \<Rightarrow> nat" where
  "hm_sum f m = sum_list (map (\<lambda>(k, v). f v) m)"

text \<open>
  Iteration over a hash map: \<open>order\<close> is the unspecified order of its buckets, given as a
  function of the keys present.
\<close>

definition hm_iter :: "('k list \<Rightarrow> 'k list) \<Rightarrow> ('k, 'v) hmap \<Rightarrow> ('k \<times> 'v) list" where
  "hm_iter order m = List.map_filter (\<lambda>k. map_option (Pair k) (map_of m k)) (order (map fst m))"

definition hash_order_ok :: "('k list \<Rightarrow> 'k list) \<Rightarrow> bool" where
  "hash_order_ok order \<longleftrightarrow>
     (\<forall>ks. set (order ks) = set ks \<and> (distinct ks \<longrightarrow> distinct (order ks)))"

section \<open>Trait objects\<close>

text \<open>
  \<open>Vec<Arc<dyn Trait>>\<close> is a list of pairs of a method table and the object's state;
  \<open>obj_call\<close> calls a method of the object at an index and stores its new state.
\<close>

definition obj_call :: "('v \<times> 's) list \<Rightarrow> nat \<Rightarrow> ('v \<Rightarrow> 's \<Rightarrow> 'r \<times> 's) \<Rightarrow> 'r \<times> ('v \<times> 's) list" where
  "obj_call objs i f =
     (let (v, s) = objs ! i; (r, s') = f v s in (r, objs[i := (v, s')]))"

section \<open>Vectors\<close>

text \<open>\<open>Vec::swap_remove\<close>: the last element takes the place of the removed one.\<close>

definition swap_remove :: "nat \<Rightarrow> 'a list \<Rightarrow> 'a list" where
  "swap_remove i xs = (if i = length xs - 1 then butlast xs else (butlast xs)[i := last xs])"

section \<open>Iterator minima and maxima\<close>

text \<open>\<open>Iterator::min_by_key\<close> keeps the first minimum, \<open>Iterator::max_by_key\<close> the last maximum.\<close>

definition min_by_key :: "('a \<Rightarrow> 'k::linorder) \<Rightarrow> 'a list \<Rightarrow> 'a option" where
  "min_by_key f xs =
     (case xs of [] \<Rightarrow> None | y # ys \<Rightarrow> Some (fold (\<lambda>z best. if f z < f best then z else best) ys y))"

definition max_by_key :: "('a \<Rightarrow> 'k::linorder) \<Rightarrow> 'a list \<Rightarrow> 'a option" where
  "max_by_key f xs =
     (case xs of [] \<Rightarrow> None | y # ys \<Rightarrow> Some (fold (\<lambda>z best. if f best \<le> f z then z else best) ys y))"

section \<open>Shared lemmas\<close>

subsection \<open>Integers\<close>

lemma unat_sat_add [sat_simps]:
  "unat (sat_add a b) = min (unat a + unat (b::'a::len word)) (2 ^ LENGTH('a) - 1)"
proof -
  have "unat (- 1 - a) = 2 ^ LENGTH('a) - 1 - unat a"
    by (simp add: unat_sub unsigned_minus_1_eq_mask mask_eq_exp_minus_1)
  moreover have "unat a < 2 ^ LENGTH('a)" "unat b < 2 ^ LENGTH('a)" by simp_all
  ultimately have fits: "b \<le> - 1 - a \<longleftrightarrow> unat a + unat b < 2 ^ LENGTH('a)"
    unfolding word_le_nat_alt by linarith
  show ?thesis
  proof (cases "unat a + unat b < 2 ^ LENGTH('a)")
    case True
    then show ?thesis by (simp add: sat_add_def fits unat_word_ariths)
  next
    case False
    then show ?thesis by (simp add: sat_add_def fits unsigned_minus_1_eq_mask mask_eq_exp_minus_1)
  qed
qed

lemma unat_sat_sub [sat_simps]: "unat (sat_sub a b) = unat a - unat b"
  by (auto simp: sat_sub_def unat_sub word_le_nat_alt)

lemma unat64_bound [simp]: "unat (w::u64) < 2 ^ 64"
  using unsigned_less [of w] by simp

lemma unat32_bound [simp]: "unat (w::u32) < 2 ^ 32"
  using unsigned_less [of w] by simp

lemma unat16_bound [simp]: "unat (w::u16) < 2 ^ 16"
  using unsigned_less [of w] by simp

lemma unat8_bound [simp]: "unat (w::u8) < 256"
  using unsigned_less [of w] by simp

lemma unat_len64 [sat_simps]: "length xs < 2 ^ 64 \<Longrightarrow> unat (len64 xs) = length xs"
  by (simp add: len64_def unat_of_nat)

lemma unat_len64_le: "unat (len64 xs) \<le> length xs"
  by (simp add: len64_def unat_of_nat)

text \<open>Evaluation compares with the bound as an integer: a unary natural of that size is never built.\<close>

lemma usize_sat_add_code [code]:
  "usize_sat_add a b = (if 0xFFFFFFFFFFFFFFFF \<le> int (a + b) then usize_max else a + b)"
  using of_nat_le_iff [of "2 ^ 64 - 1" "a + b", where 'a = int]
  by (auto simp: usize_sat_add_def usize_max_def min_def)

lemma usize_sat_mul_code [code]:
  "usize_sat_mul a b = (if 0xFFFFFFFFFFFFFFFF \<le> int a * int b then usize_max else a * b)"
  using of_nat_le_iff [of "2 ^ 64 - 1" "a * b", where 'a = int]
  by (auto simp: usize_sat_mul_def usize_max_def min_def)

lemma usize_sat_add_exact [sat_simps]: "a + b \<le> usize_max \<Longrightarrow> usize_sat_add a b = a + b"
  by (simp add: usize_sat_add_def)

lemma usize_sat_add_le: "usize_sat_add a b \<le> a + b"
  by (simp add: usize_sat_add_def)

subsection \<open>Decimal numbers\<close>

lemma digits_value_snoc: "digits_value (ds @ [c]) = 10 * digits_value ds + (of_char c - 48)"
  by (simp add: digits_value_def)

lemma digit_char: "n < 10 \<Longrightarrow> (of_char (char_of (48 + n) :: char) :: int) = 48 + int n"
proof -
  assume "n < 10"
  have "(of_char (char_of (48 + n) :: char) :: int) = int (of_char (char_of (48 + n) :: char))" by (rule of_nat_of_char [symmetric])
  also have "of_char (char_of (48 + n) :: char) = 48 + n" using \<open>n < 10\<close> by simp
  finally show ?thesis by simp
qed

lemma show_nat_digits: "list_all decimal_digit (show_nat n) \<and> show_nat n \<noteq> [] \<and> digits_value (show_nat n) = int n"
proof (induction n rule: show_nat.induct)
  case (1 n)
  show ?case
  proof (cases "n < 10")
    case True
    then show ?thesis by (subst (1 2 3) show_nat.simps) (simp add: decimal_digit_def digits_value_def digit_char)
  next
    case False
    have "int n = 10 * int (n div 10) + int (n mod 10)" by (simp add: zdiv_int zmod_int)
    moreover have "decimal_digit (char_of (48 + n mod 10))" by (simp add: decimal_digit_def)
    moreover have "n mod 10 < 10" by simp
    ultimately show ?thesis using 1 False
      by (subst (1 2 3) show_nat.simps) (simp add: digits_value_snoc digit_char)
  qed
qed

subsection \<open>Results\<close>

lemma and_then_simps [io_simps, simp]:
  "and_then (Inl e, s) k = (Inl e, s)"
  "and_then (Inr a, s) k = k a s"
  by (simp_all add: and_then_def)

lemma and_then_split [io_simps]:
  "P (and_then r k) \<longleftrightarrow>
     (\<forall>e s. r = (Inl e, s) \<longrightarrow> P (Inl e, s)) \<and> (\<forall>a s. r = (Inr a, s) \<longrightarrow> P (k a s))"
  by (cases r; cases "fst r") auto

lemma and_then_eq_Inr [io_simps]:
  "and_then r k = (Inr b, t) \<longleftrightarrow> (\<exists>a s. r = (Inr a, s) \<and> k a s = (Inr b, t))"
  by (cases r; cases "fst r") auto

lemma check_then_simps [io_simps, simp]:
  "check_then (Inl e) s k = (Inl e, s)"
  "check_then (Inr a) s k = k a"
  by (simp_all add: check_then_def)

lemma check_then_eq_Inr [io_simps]:
  "check_then r s k = (Inr b, t) \<longleftrightarrow> (\<exists>a. r = Inr a \<and> k a = (Inr b, t))"
  by (cases r) auto

lemma result_bind_simps [io_simps, simp]:
  "result_bind (Inl e) k = Inl e"
  "result_bind (Inr a) k = k a"
  by (simp_all add: result_bind_def)

lemma result_bind_eq_Inr [io_simps]:
  "result_bind r k = Inr b \<longleftrightarrow> (\<exists>a. r = Inr a \<and> k a = Inr b)"
  by (cases r) auto

subsection \<open>Ordered maps\<close>

definition btree :: "('k::linorder \<times> 'v) list \<Rightarrow> bool" where
  "btree m \<longleftrightarrow> sorted_wrt (<) (map fst m)"

lemma map_of_btree_insert [simp]: "map_of (btree_insert k v m) = (map_of m)(k \<mapsto> v)"
  by (induction k v m rule: btree_insert.induct) (auto simp: fun_eq_iff)

lemma fst_set_btree_insert [simp]: "fst ` set (btree_insert k v m) = insert k (fst ` set m)"
  by (induction k v m rule: btree_insert.induct) auto

lemma btree_insert_btree [intro, simp]: "btree m \<Longrightarrow> btree (btree_insert k v m)"
  by (induction k v m rule: btree_insert.induct) (auto simp: btree_def)

lemma btree_distinct: "btree m \<Longrightarrow> distinct (map fst m)"
  by (simp add: btree_def strict_sorted_iff)

lemma btree_Nil [simp]: "btree []"
  by (simp add: btree_def)

lemma btree_filter [simp]: "btree m \<Longrightarrow> btree (filter P m)"
  by (simp add: btree_def sorted_wrt_map sorted_wrt_filter)

subsection \<open>Bytes\<close>

lemma from_as_bytes [simp]: "from_bytes (as_bytes s) = s"
proof -
  have "char_of (unat (of_nat (of_char c) :: u8)) = c" for c
    by (simp add: unat_of_nat of_char_mod_256)
  then show ?thesis
    by (simp add: from_bytes_def as_bytes_def map_idI)
qed

lemma as_from_bytes [simp]: "as_bytes (from_bytes bs) = bs"
proof -
  have "(of_nat (of_char (char_of (unat b))) :: u8) = b" for b
    by simp
  then show ?thesis
    by (simp add: from_bytes_def as_bytes_def map_idI)
qed

lemma length_as_bytes [simp]: "length (as_bytes s) = length s"
  by (simp add: as_bytes_def)

lemma length_from_bytes [simp]: "length (from_bytes bs) = length bs"
  by (simp add: from_bytes_def)

lemma as_bytes_inject [simp]: "as_bytes s = as_bytes t \<longleftrightarrow> s = t"
  by (metis from_as_bytes)

lemma length_nat_to_le [simp]: "length (nat_to_le n x) = n"
  by (induction n arbitrary: x) auto

lemma le_to_nat_bound: "le_to_nat bs < 256 ^ length bs"
proof (induction bs)
  case Nil
  then show ?case by simp
next
  case (Cons b bs)
  have "unat b < 256" by simp
  moreover have "256 * Suc (le_to_nat bs) \<le> 256 * 256 ^ length bs"
    using Cons by (intro mult_le_mono2) simp
  ultimately show ?case by (simp del: unat8_bound)
qed

lemma le_to_nat_to_le [simp]: "x < 256 ^ n \<Longrightarrow> le_to_nat (nat_to_le n x) = x"
proof (induction n arbitrary: x)
  case 0
  then show ?case by simp
next
  case (Suc n)
  then have "x div 256 < 256 ^ n"
    by (simp add: less_mult_imp_div_less mult.commute)
  then show ?case
    using Suc.IH by (simp add: unat_of_nat)
qed

lemma nat_to_le_to_nat [simp]: "length bs = n \<Longrightarrow> nat_to_le n (le_to_nat bs) = bs"
proof (induction bs arbitrary: n)
  case Nil
  then show ?case by simp
next
  case (Cons b bs)
  then obtain m where "n = Suc m" "length bs = m" by auto
  then show ?case
    using Cons.IH by (simp add: add.commute)
qed

lemma length_word_le [simp]:
  "length (u16_le a) = 2" "length (u32_le b) = 4" "length (u64_le c) = 8"
  by (simp_all add: u16_le_def u32_le_def u64_le_def)

lemma le_word_roundtrip [simp]:
  "le_word (u16_le a) = a" "le_word (u32_le b) = b" "le_word (u64_le c) = c"
  using unat16_bound [of a] unat32_bound [of b] unat64_bound [of c]
  by (simp_all add: le_word_def u16_le_def u32_le_def u64_le_def)

lemma u64_le_le_word [simp]: "length bs = 8 \<Longrightarrow> u64_le (le_word bs) = bs"
  using le_to_nat_bound [of bs] by (simp add: le_word_def u64_le_def unat_of_nat)

lemma u32_le_le_word [simp]: "length bs = 4 \<Longrightarrow> u32_le (le_word bs) = bs"
  using le_to_nat_bound [of bs] by (simp add: le_word_def u32_le_def unat_of_nat)

lemma word_le_inject [simp]:
  "u64_le a = u64_le b \<longleftrightarrow> a = b" "u32_le c = u32_le d \<longleftrightarrow> c = d"
  by (metis le_word_roundtrip(3), metis le_word_roundtrip(2))

lemma read_exact_append [simp]:
  "length xs = n \<Longrightarrow> read_exact n (xs @ ys) = (Inr xs, ys)"
  by (simp add: read_exact_def)

lemma bool_byte_cases [simp]: "bool_byte b \<le> 1" "\<not> 1 < bool_byte b" "bool_byte b = 1 \<longleftrightarrow> b" "bool_byte b = 0 \<longleftrightarrow> \<not> b"
  by (auto simp: bool_byte_def)

subsection \<open>Vectors\<close>

lemma mset_swap_remove: "i < length xs \<Longrightarrow> add_mset (xs ! i) (mset (swap_remove i xs)) = mset xs"
proof -
  assume i: "i < length xs"
  then have xs: "xs = butlast xs @ [last xs]" by (metis append_butlast_last_id list.size(3) not_less_zero)
  show ?thesis
  proof (cases "i = length xs - 1")
    case True
    then have "xs ! i = last xs" using i by (metis last_conv_nth list.size(3) not_less_zero)
    with True xs show ?thesis by (metis mset.simps(2) mset_append add_mset_add_single swap_remove_def union_commute mset.simps(1))
  next
    case False
    then have i': "i < length (butlast xs)" using i by simp
    have "xs ! i = butlast xs ! i" using i' by (simp add: nth_butlast)
    moreover have "mset xs = add_mset (last xs) (mset (butlast xs))"
      by (subst xs) simp
    ultimately show ?thesis using False i' by (simp add: swap_remove_def mset_update)
  qed
qed

subsection \<open>Minima and maxima\<close>

lemma fold_min_props:
  fixes f :: "'a \<Rightarrow> 'k::linorder"
  shows "fold (\<lambda>z best. if f z < f best then z else best) ys y \<in> set (y # ys)
       \<and> (\<forall>x \<in> set (y # ys). f (fold (\<lambda>z best. if f z < f best then z else best) ys y) \<le> f x)"
proof (induction ys arbitrary: y)
  case Nil
  then show ?case by simp
next
  case (Cons z ys)
  show ?case
    using Cons.IH [of "if f z < f y then z else y"] by (auto split: if_splits)
qed

lemma fold_max_props:
  fixes f :: "'a \<Rightarrow> 'k::linorder"
  shows "fold (\<lambda>z best. if f best \<le> f z then z else best) ys y \<in> set (y # ys)
       \<and> (\<forall>x \<in> set (y # ys). f x \<le> f (fold (\<lambda>z best. if f best \<le> f z then z else best) ys y))"
proof (induction ys arbitrary: y)
  case Nil
  then show ?case by simp
next
  case (Cons z ys)
  show ?case
    using Cons.IH [of "if f y \<le> f z then z else y"] by (auto split: if_splits)
qed

lemma min_by_key_None [simp]: "min_by_key f xs = None \<longleftrightarrow> xs = []"
  by (simp add: min_by_key_def split: list.splits)

lemma max_by_key_None [simp]: "max_by_key f xs = None \<longleftrightarrow> xs = []"
  by (simp add: max_by_key_def split: list.splits)

lemma min_by_key_Some:
  "min_by_key f xs = Some x \<Longrightarrow> x \<in> set xs \<and> (\<forall>y \<in> set xs. f x \<le> f y)"
  using fold_min_props [of f "tl xs" "hd xs"] by (auto simp: min_by_key_def split: list.splits)

lemma max_by_key_Some:
  "max_by_key f xs = Some x \<Longrightarrow> x \<in> set xs \<and> (\<forall>y \<in> set xs. f y \<le> f x)"
  using fold_max_props [of f "tl xs" "hd xs"] by (auto simp: max_by_key_def split: list.splits)

subsection \<open>Hash maps\<close>

lemma hm_ok_Nil [simp]: "hm_ok []"
  by (simp add: hm_ok_def)

lemma hm_ok_update [simp]: "hm_ok m \<Longrightarrow> hm_ok (AList.update k v m)"
  by (simp add: hm_ok_def distinct_update)

lemma hm_ok_delete [simp]: "hm_ok m \<Longrightarrow> hm_ok (AList.delete k m)"
  by (simp add: hm_ok_def distinct_delete)

lemma map_of_hm [hm_simps]:
  "map_of (AList.update k v m) = (map_of m)(k \<mapsto> v)"
  "map_of (AList.delete k m) = (map_of m)(k := None)"
  by (simp_all add: update_conv' delete_conv')

lemma delete_absent [hm_simps]: "map_of m k = None \<Longrightarrow> AList.delete k m = m"
  by (simp add: map_of_eq_None_iff)

lemma map_of_in_hm: "hm_ok m \<Longrightarrow> (k, v) \<in> set m \<longleftrightarrow> map_of m k = Some v"
  by (simp add: hm_ok_def)

lemma set_hm_iter:
  "hash_order_ok order \<Longrightarrow> hm_ok m \<Longrightarrow> set (hm_iter order m) = set m"
  unfolding hm_iter_def hash_order_ok_def hm_ok_def
  by (force simp: List.map_filter_def dest: map_of_SomeD)

lemma hm_iter_member: "(k, v) \<in> set (hm_iter order m) \<Longrightarrow> map_of m k = Some v"
  by (auto simp: hm_iter_def List.map_filter_def)

lemma distinct_hm_iter:
  "hash_order_ok order \<Longrightarrow> hm_ok m \<Longrightarrow> distinct (map fst (hm_iter order m))"
proof -
  assume *: "hash_order_ok order" "hm_ok m"
  then have d: "distinct (order (map fst m))" by (simp add: hash_order_ok_def hm_ok_def)
  have "map fst (List.map_filter (\<lambda>k. map_option (Pair k) (map_of m k)) ks)
      = filter (\<lambda>k. map_of m k \<noteq> None) ks" for ks
    by (induction ks) (auto simp: List.map_filter_def)
  with d show ?thesis by (simp add: hm_iter_def)
qed

lemma hash_order_id [simp]: "hash_order_ok (\<lambda>ks. ks)"
  by (simp add: hash_order_ok_def)

lemma obj_call_length [simp]: "length (snd (obj_call objs i f)) = length objs"
  by (simp add: obj_call_def split: prod.splits)

lemma obj_call_other [simp]: "j \<noteq> i \<Longrightarrow> snd (obj_call objs i f) ! j = objs ! j"
  by (simp add: obj_call_def split: prod.splits)

lemma obj_call_eq:
  assumes "obj_call objs i f = (r, objs')" and "i < length objs"
  shows "f (fst (objs ! i)) (snd (objs ! i)) = (r, snd (objs' ! i)) \<and>
         fst (objs' ! i) = fst (objs ! i) \<and> length objs' = length objs \<and>
         (\<forall>j. j \<noteq> i \<longrightarrow> objs' ! j = objs ! j)"
  using assms by (auto simp: obj_call_def split: prod.splits)

lemma hm_sum_Nil [simp]: "hm_sum f [] = 0"
  by (simp add: hm_sum_def)

lemma hm_sum_delete:
  "hm_ok m \<Longrightarrow> map_of m k = Some v \<Longrightarrow> hm_sum f m = f v + hm_sum f (AList.delete k m)"
proof (induction m)
  case Nil
  then show ?case by simp
next
  case (Cons p m)
  obtain a b where p: "p = (a, b)" by fastforce
  show ?case
  proof (cases "a = k")
    case True
    with Cons.prems p have "b = v" "k \<notin> fst ` set m" by (auto simp: hm_ok_def)
    with True p show ?thesis by (simp add: hm_sum_def)
  next
    case False
    with Cons p show ?thesis by (auto simp: hm_sum_def hm_ok_def)
  qed
qed

lemma hm_sum_update:
  "hm_ok m \<Longrightarrow> hm_sum f (AList.update k v m) = f v + hm_sum f (AList.delete k m)"
  using hm_sum_delete [of "AList.update k v m" k v f]
  by (simp add: hm_simps delete_update_same)

lemma hm_sum_delete_le: "hm_ok m \<Longrightarrow> hm_sum f (AList.delete k m) \<le> hm_sum f m"
  by (cases "map_of m k") (simp_all add: hm_simps hm_sum_delete)

lemma hm_sum_member: "hm_ok m \<Longrightarrow> map_of m k = Some v \<Longrightarrow> f v \<le> hm_sum f m"
  by (simp add: hm_sum_delete)

lemma length_delete_less: "map_of m k = Some v \<Longrightarrow> length (AList.delete k m) < length m"
proof (induction m)
  case Nil
  then show ?case by simp
next
  case (Cons p m)
  have "length (AList.delete k m) \<le> length m" by (rule length_delete_le)
  with Cons show ?case by (cases p) (auto split: if_splits)
qed

lemma hm_sum_eq_filter:
  "hm_ok m \<Longrightarrow> (\<And>k v. map_of m k = Some v \<Longrightarrow> f v \<le> g v) \<Longrightarrow> hm_sum f m \<le> hm_sum g m"
  unfolding hm_sum_def hm_ok_def
  by (rule sum_list_mono) auto

end
