(* ===== verification/Store.thy ===== *)
theory Store
  imports Rivet_Prelude
begin

text \<open>
  The storage contract and the in-process stores of \<open>src/store.rs\<close>: the data types, the
  \<open>PersistentStore\<close> trait as a table of methods, \<open>VolatileStore\<close> and \<open>LayeredStore\<close>.
  The locale \<open>fallible_store\<close> is the contract every backend keeps even when calls fail,
  \<open>reliable_store\<close> adds that calls on acceptable keys succeed.
\<close>

section \<open>Data\<close>

record stored_entry =
  entry_value :: "u8 list"
  entry_expires_at :: u64
  entry_pinned :: bool

record store_record =
  rec_key :: string
  rec_stored_bytes :: u64
  rec_expires_at :: u64
  rec_pinned :: bool
  rec_last_access :: u64

record store_snapshot =
  snap_entries :: "store_record list"
  snap_corruptions :: u64

record put_outcome =
  out_inserted :: bool
  out_stored_bytes :: u64

record 's persistent_store =
  ps_load_index :: "'s \<Rightarrow> store_snapshot io_result \<times> 's"
  ps_get :: "string \<Rightarrow> 's \<Rightarrow> stored_entry option io_result \<times> 's"
  ps_put_if_absent :: "string \<Rightarrow> stored_entry \<Rightarrow> 's \<Rightarrow> put_outcome io_result \<times> 's"
  ps_remove :: "string \<Rightarrow> 's \<Rightarrow> unit io_result \<times> 's"
  ps_clear :: "'s \<Rightarrow> unit io_result \<times> 's"

section \<open>VolatileStore\<close>

record volatile_store =
  vs_entries :: "(string, stored_entry \<times> u64) hmap"
  vs_tick :: u64

definition volatile_new :: volatile_store where
  "volatile_new = \<lparr> vs_entries = [], vs_tick = 0 \<rparr>"

definition volatile_len :: "volatile_store \<Rightarrow> nat" where
  "volatile_len s = length (vs_entries s)"

definition volatile_is_empty :: "volatile_store \<Rightarrow> bool" where
  "volatile_is_empty s = (vs_entries s = [])"

text \<open>\<open>fetch_add\<close> wraps; the value used is the old counter, plus one with saturation.\<close>

definition volatile_next_tick :: "volatile_store \<Rightarrow> u64 \<times> volatile_store" where
  "volatile_next_tick s = (sat_add (vs_tick s) 1, s\<lparr> vs_tick := vs_tick s + 1 \<rparr>)"

definition volatile_load_index ::
  "(string list \<Rightarrow> string list) \<Rightarrow> volatile_store \<Rightarrow> store_snapshot io_result \<times> volatile_store" where
  "volatile_load_index order s =
     (Inr \<lparr> snap_entries = map (\<lambda>(key, (entry, last_access)).
              \<lparr> rec_key = key, rec_stored_bytes = len64 (entry_value entry),
                rec_expires_at = entry_expires_at entry, rec_pinned = entry_pinned entry,
                rec_last_access = last_access \<rparr>) (hm_iter order (vs_entries s)),
            snap_corruptions = 0 \<rparr>, s)"

definition volatile_get ::
  "string \<Rightarrow> volatile_store \<Rightarrow> stored_entry option io_result \<times> volatile_store" where
  "volatile_get key s =
     (let (tick, s1) = volatile_next_tick s in
      case map_of (vs_entries s1) key of
        None \<Rightarrow> (Inr None, s1)
      | Some (entry, _) \<Rightarrow>
          (Inr (Some entry), s1\<lparr> vs_entries := AList.update key (entry, tick) (vs_entries s1) \<rparr>))"

definition volatile_put_if_absent ::
  "string \<Rightarrow> stored_entry \<Rightarrow> volatile_store \<Rightarrow> put_outcome io_result \<times> volatile_store" where
  "volatile_put_if_absent key entry s =
     (let (tick, s1) = volatile_next_tick s in
      case map_of (vs_entries s1) key of
        Some (existing, _) \<Rightarrow>
          (Inr \<lparr> out_inserted = False, out_stored_bytes = len64 (entry_value existing) \<rparr>, s1)
      | None \<Rightarrow>
          (Inr \<lparr> out_inserted = True, out_stored_bytes = len64 (entry_value entry) \<rparr>,
           s1\<lparr> vs_entries := AList.update key (entry, tick) (vs_entries s1) \<rparr>))"

definition volatile_remove :: "string \<Rightarrow> volatile_store \<Rightarrow> unit io_result \<times> volatile_store" where
  "volatile_remove key s = (Inr (), s\<lparr> vs_entries := AList.delete key (vs_entries s) \<rparr>)"

definition volatile_clear :: "volatile_store \<Rightarrow> unit io_result \<times> volatile_store" where
  "volatile_clear s = (Inr (), s\<lparr> vs_entries := [] \<rparr>)"

definition volatile_vt :: "(string list \<Rightarrow> string list) \<Rightarrow> volatile_store persistent_store" where
  "volatile_vt order =
     \<lparr> ps_load_index = volatile_load_index order, ps_get = volatile_get,
       ps_put_if_absent = volatile_put_if_absent, ps_remove = volatile_remove,
       ps_clear = volatile_clear \<rparr>"

section \<open>LayeredStore\<close>

type_synonym 's layered_store = "('s persistent_store \<times> 's) list"

definition layered_new :: "'s layered_store \<Rightarrow> 's layered_store io_result" where
  "layered_new stores =
     (if stores = [] then Inl (IoError InvalidInput ''layered store requires at least one backend'')
      else Inr stores)"

definition layered_len :: "'s layered_store \<Rightarrow> nat" where
  "layered_len stores = length stores"

definition layered_is_empty :: "'s layered_store \<Rightarrow> bool" where
  "layered_is_empty stores = (stores = [])"

fun layered_merge ::
  "store_record list \<Rightarrow> (string, store_record) hmap \<Rightarrow> (string, store_record) hmap io_result" where
  "layered_merge [] merged = Inr merged"
| "layered_merge (r # rs) merged =
     (case map_of merged (rec_key r) of
        None \<Rightarrow> layered_merge rs (AList.update (rec_key r) r merged)
      | Some current \<Rightarrow>
          if rec_expires_at current \<noteq> rec_expires_at r \<or> rec_pinned current \<noteq> rec_pinned r
          then Inl (IoError InvalidData (''layered store metadata mismatch for key '' @ rec_key r))
          else layered_merge rs (AList.update (rec_key r)
                 (current\<lparr> rec_stored_bytes := sat_add (rec_stored_bytes current) (rec_stored_bytes r),
                           rec_last_access := max (rec_last_access current) (rec_last_access r) \<rparr>)
                 merged))"

fun layered_load_loop ::
  "nat list \<Rightarrow> (string, store_record) hmap \<Rightarrow> u64 \<Rightarrow> 's layered_store
   \<Rightarrow> ((string, store_record) hmap \<times> u64) io_result \<times> 's layered_store" where
  "layered_load_loop [] merged corruptions stores = (Inr (merged, corruptions), stores)"
| "layered_load_loop (i # ixs) merged corruptions stores =
     and_then (obj_call stores i ps_load_index) (\<lambda>snapshot stores1.
       check_then (layered_merge (snap_entries snapshot) merged) stores1 (\<lambda>merged1.
         layered_load_loop ixs merged1 (sat_add corruptions (snap_corruptions snapshot)) stores1))"

definition layered_load_index ::
  "(string list \<Rightarrow> string list) \<Rightarrow> 's layered_store \<Rightarrow> store_snapshot io_result \<times> 's layered_store" where
  "layered_load_index order stores =
     and_then (layered_load_loop [0..<length stores] [] 0 stores) (\<lambda>(merged, corruptions) stores1.
       (Inr \<lparr> snap_entries = map snd (hm_iter order merged), snap_corruptions = corruptions \<rparr>, stores1))"

fun layered_get_loop ::
  "nat list \<Rightarrow> string \<Rightarrow> 's layered_store \<Rightarrow> stored_entry option io_result \<times> 's layered_store" where
  "layered_get_loop [] key stores = (Inr None, stores)"
| "layered_get_loop (i # ixs) key stores =
     and_then (obj_call stores i (\<lambda>v. ps_get v key)) (\<lambda>r stores1.
       case r of Some entry \<Rightarrow> (Inr (Some entry), stores1)
               | None \<Rightarrow> layered_get_loop ixs key stores1)"

definition layered_get ::
  "string \<Rightarrow> 's layered_store \<Rightarrow> stored_entry option io_result \<times> 's layered_store" where
  "layered_get key stores = layered_get_loop [0..<length stores] key stores"

fun layered_check_loop ::
  "nat list \<Rightarrow> string \<Rightarrow> stored_entry \<Rightarrow> 's layered_store \<Rightarrow> unit io_result \<times> 's layered_store" where
  "layered_check_loop [] key entry stores = (Inr (), stores)"
| "layered_check_loop (i # ixs) key entry stores =
     and_then (obj_call stores i (\<lambda>v. ps_get v key)) (\<lambda>r stores1.
       case r of
         Some existing \<Rightarrow>
           if existing \<noteq> entry
           then (Inl (IoError InvalidData (''layered store payload mismatch for key '' @ key)), stores1)
           else layered_check_loop ixs key entry stores1
       | None \<Rightarrow> layered_check_loop ixs key entry stores1)"

fun layered_rollback :: "nat list \<Rightarrow> string \<Rightarrow> 's layered_store \<Rightarrow> 's layered_store" where
  "layered_rollback [] key stores = stores"
| "layered_rollback (i # ixs) key stores =
     layered_rollback ixs key (snd (obj_call stores i (\<lambda>v. ps_remove v key)))"

fun layered_put_loop ::
  "nat list \<Rightarrow> string \<Rightarrow> stored_entry \<Rightarrow> nat list \<Rightarrow> u64 \<Rightarrow> 's layered_store
   \<Rightarrow> put_outcome io_result \<times> 's layered_store" where
  "layered_put_loop [] key entry inserted_backends stored_bytes stores =
     (Inr \<lparr> out_inserted = (inserted_backends \<noteq> []), out_stored_bytes = stored_bytes \<rparr>, stores)"
| "layered_put_loop (i # ixs) key entry inserted_backends stored_bytes stores =
     (case obj_call stores i (\<lambda>v. ps_put_if_absent v key entry) of
        (Inr outcome, stores1) \<Rightarrow>
          layered_put_loop ixs key entry
            (if out_inserted outcome then inserted_backends @ [i] else inserted_backends)
            (sat_add stored_bytes (out_stored_bytes outcome)) stores1
      | (Inl error, stores1) \<Rightarrow> (Inl error, layered_rollback inserted_backends key stores1))"

definition layered_put_if_absent ::
  "string \<Rightarrow> stored_entry \<Rightarrow> 's layered_store \<Rightarrow> put_outcome io_result \<times> 's layered_store" where
  "layered_put_if_absent key entry stores =
     and_then (layered_check_loop [0..<length stores] key entry stores) (\<lambda>_ stores1.
       layered_put_loop [0..<length stores1] key entry [] 0 stores1)"

fun layered_all_loop ::
  "('s persistent_store \<Rightarrow> 's \<Rightarrow> unit io_result \<times> 's) \<Rightarrow> nat list \<Rightarrow> io_error option
   \<Rightarrow> 's layered_store \<Rightarrow> unit io_result \<times> 's layered_store" where
  "layered_all_loop f [] first_error stores =
     ((case first_error of Some e \<Rightarrow> Inl e | None \<Rightarrow> Inr ()), stores)"
| "layered_all_loop f (i # ixs) first_error stores =
     (case obj_call stores i f of
        (Inl e, stores1) \<Rightarrow>
          layered_all_loop f ixs (if first_error = None then Some e else first_error) stores1
      | (Inr _, stores1) \<Rightarrow> layered_all_loop f ixs first_error stores1)"

definition layered_remove :: "string \<Rightarrow> 's layered_store \<Rightarrow> unit io_result \<times> 's layered_store" where
  "layered_remove key stores =
     layered_all_loop (\<lambda>v. ps_remove v key) [0..<length stores] None stores"

definition layered_clear :: "'s layered_store \<Rightarrow> unit io_result \<times> 's layered_store" where
  "layered_clear stores = layered_all_loop ps_clear [0..<length stores] None stores"

definition layered_vt :: "(string list \<Rightarrow> string list) \<Rightarrow> 's layered_store persistent_store" where
  "layered_vt order =
     \<lparr> ps_load_index = layered_load_index order, ps_get = layered_get,
       ps_put_if_absent = layered_put_if_absent, ps_remove = layered_remove,
       ps_clear = layered_clear \<rparr>"

section \<open>The storage contract\<close>

locale fallible_store =
  fixes vt :: "'s persistent_store"
    and view :: "'s \<Rightarrow> string \<Rightarrow> stored_entry option"
    and invar :: "'s \<Rightarrow> bool"
  assumes get_error: "invar s \<Longrightarrow> ps_get vt k s = (Inl e, s') \<Longrightarrow> view s' = view s \<and> invar s'"
    and get_result: "invar s \<Longrightarrow> ps_get vt k s = (Inr r, s') \<Longrightarrow>
           r = view s k \<and> view s' = view s \<and> invar s'"
    and put_error: "invar s \<Longrightarrow> ps_put_if_absent vt k x s = (Inl e, s') \<Longrightarrow> view s' = view s \<and> invar s'"
    and put_result: "invar s \<Longrightarrow> length (entry_value x) < 2 ^ 63 \<Longrightarrow>
           ps_put_if_absent vt k x s = (Inr out, s') \<Longrightarrow>
           out_inserted out = (view s k = None) \<and> invar s' \<and>
           view s' = (if view s k = None then (view s)(k \<mapsto> x) else view s)"
    and remove_error: "invar s \<Longrightarrow> ps_remove vt k s = (Inl e, s') \<Longrightarrow> view s' = view s \<and> invar s'"
    and remove_result: "invar s \<Longrightarrow> ps_remove vt k s = (Inr u, s') \<Longrightarrow>
           view s' = (view s)(k := None) \<and> invar s'"
    and clear_error: "invar s \<Longrightarrow> ps_clear vt s = (Inl e, s') \<Longrightarrow> invar s'"
    and clear_result: "invar s \<Longrightarrow> ps_clear vt s = (Inr u, s') \<Longrightarrow> view s' = Map.empty \<and> invar s'"

locale reliable_store = fallible_store +
  fixes key_ok :: "string \<Rightarrow> bool"
  assumes get_total: "invar s \<Longrightarrow> key_ok k \<Longrightarrow> \<exists>r s'. ps_get vt k s = (Inr r, s')"
    and put_total: "invar s \<Longrightarrow> key_ok k \<Longrightarrow> \<exists>out s'. ps_put_if_absent vt k x s = (Inr out, s')"
    and remove_total: "invar s \<Longrightarrow> key_ok k \<Longrightarrow> \<exists>s'. ps_remove vt k s = (Inr (), s')"

text \<open>
  What a client may conclude from an index: every record describes an entry the store holds,
  and no key is listed twice.
\<close>

definition describes :: "store_record \<Rightarrow> stored_entry \<Rightarrow> bool" where
  "describes r x \<longleftrightarrow> rec_expires_at r = entry_expires_at x \<and> rec_pinned r = entry_pinned x"

definition index_sound :: "(string \<Rightarrow> stored_entry option) \<Rightarrow> store_record list \<Rightarrow> bool" where
  "index_sound v rs \<longleftrightarrow> distinct (map rec_key rs) \<and>
     (\<forall>r \<in> set rs. \<exists>x. v (rec_key r) = Some x \<and> describes r x)"

locale indexed_store = fallible_store +
  assumes load_error: "invar s \<Longrightarrow> ps_load_index vt s = (Inl e, s') \<Longrightarrow> invar s'"
    and load_result: "invar s \<Longrightarrow> ps_load_index vt s = (Inr snap, s') \<Longrightarrow>
           invar s' \<and> index_sound (view s') (snap_entries snap)"

section \<open>VolatileStore keeps the contract\<close>

definition volatile_view :: "volatile_store \<Rightarrow> string \<Rightarrow> stored_entry option" where
  "volatile_view s k = map_option fst (map_of (vs_entries s) k)"

definition volatile_inv :: "volatile_store \<Rightarrow> bool" where
  "volatile_inv s = hm_ok (vs_entries s)"

lemmas volatile_defs = volatile_vt_def volatile_get_def volatile_put_if_absent_def
  volatile_remove_def volatile_clear_def volatile_next_tick_def volatile_view_def volatile_inv_def

interpretation volatile: reliable_store "volatile_vt order" volatile_view volatile_inv "\<lambda>_. True"
  by unfold_locales
    (auto simp: volatile_defs hm_simps fun_eq_iff Let_def split: option.splits if_splits)

lemma volatile_index_sound:
  assumes "volatile_inv s" "hash_order_ok order" "volatile_load_index order s = (Inr snap, s')"
  shows "s' = s \<and> index_sound (volatile_view s) (snap_entries snap)"
proof -
  let ?ps = "hm_iter order (vs_entries s)"
  have "map rec_key (snap_entries snap) = map fst ?ps"
    using assms(3) by (auto simp: volatile_load_index_def)
  then have "distinct (map rec_key (snap_entries snap))"
    using distinct_hm_iter assms(1,2) by (simp add: volatile_inv_def)
  moreover have "\<forall>r \<in> set (snap_entries snap). \<exists>x. volatile_view s (rec_key r) = Some x \<and> describes r x"
    using assms(3) by (auto simp: volatile_load_index_def volatile_view_def describes_def dest!: hm_iter_member)
  ultimately show ?thesis using assms(3) by (simp add: index_sound_def volatile_load_index_def)
qed

interpretation volatile_indexed: indexed_store "volatile_vt order" volatile_view
  "\<lambda>s. volatile_inv s \<and> hash_order_ok order"
proof unfold_locales
  fix s s' snap e
  assume inv: "volatile_inv s \<and> hash_order_ok order"
  show "volatile_inv s' \<and> hash_order_ok order" if "ps_load_index (volatile_vt order) s = (Inl e, s')"
    using that by (simp add: volatile_vt_def volatile_load_index_def)
  show "(volatile_inv s' \<and> hash_order_ok order) \<and> index_sound (volatile_view s') (snap_entries snap)"
    if "ps_load_index (volatile_vt order) s = (Inr snap, s')"
    using that volatile_index_sound inv by (auto simp: volatile_vt_def)
qed (auto dest: volatile.get_error volatile.get_result volatile.put_error volatile.put_result
      volatile.remove_error volatile.remove_result volatile.clear_error volatile.clear_result)

section \<open>LayeredStore over backends that keep the contract\<close>

definition backends_ok :: "'s persistent_store \<Rightarrow> ('s \<Rightarrow> bool) \<Rightarrow> 's layered_store \<Rightarrow> bool" where
  "backends_ok vt invar stores = (\<forall>p \<in> set stores. fst p = vt \<and> invar (snd p))"

definition replicas ::
  "('s \<Rightarrow> string \<Rightarrow> stored_entry option) \<Rightarrow> 's layered_store \<Rightarrow> (string \<Rightarrow> stored_entry option) list" where
  "replicas view stores = map (\<lambda>p. view (snd p)) stores"

text \<open>What a priority-ordered read promises.\<close>

fun first_hit :: "('k \<Rightarrow> 'v option) list \<Rightarrow> 'k \<Rightarrow> 'v option" where
  "first_hit [] k = None"
| "first_hit (m # ms) k = (case m k of Some v \<Rightarrow> Some v | None \<Rightarrow> first_hit ms k)"

lemma length_replicas [simp]: "length (replicas view stores) = length stores"
  by (simp add: replicas_def)

lemma obj_call_replicas:
  assumes "backends_ok vt invar stores" and "i < length stores"
    and "obj_call stores i f = (r, stores')"
  shows "\<exists>s s'. f vt s = (r, s') \<and> invar s \<and> view s = replicas view stores ! i \<and>
     replicas view stores' = (replicas view stores)[i := view s'] \<and>
     (invar s' \<longrightarrow> backends_ok vt invar stores') \<and> length stores' = length stores"
proof -
  from assms have at: "fst (stores ! i) = vt" "invar (snd (stores ! i))"
    by (auto simp: backends_ok_def)
  obtain s' where f: "f vt (snd (stores ! i)) = (r, s')" and st: "stores' = stores[i := (vt, s')]"
    using assms(3) at by (auto simp: obj_call_def split: prod.splits)
  have "view (snd (stores ! i)) = replicas view stores ! i"
    using assms(2) by (simp add: replicas_def)
  moreover have "replicas view stores' = (replicas view stores)[i := view s']"
    by (simp add: replicas_def st map_update)
  moreover have "backends_ok vt invar stores'" if "invar s'"
    using assms(1) that set_update_subset_insert [of stores i "(vt, s')"]
    by (auto simp: backends_ok_def st)
  ultimately show ?thesis using f at(2) by (auto simp: st)
qed

context fallible_store
begin

lemma call_get:
  assumes "backends_ok vt invar stores" "i < length stores"
    and "obj_call stores i (\<lambda>v. ps_get v k) = (r, stores')"
  shows "replicas view stores' = replicas view stores \<and> backends_ok vt invar stores' \<and>
         length stores' = length stores \<and> (\<forall>x. r = Inr x \<longrightarrow> x = (replicas view stores ! i) k)"
proof -
  obtain s s' where *: "ps_get vt k s = (r, s')" "invar s" "view s = replicas view stores ! i"
    "replicas view stores' = (replicas view stores)[i := view s']"
    "invar s' \<longrightarrow> backends_ok vt invar stores'" "length stores' = length stores"
    using obj_call_replicas [OF assms, where view = view] by blast
  have "view s' = view s" "invar s'" "\<And>x. r = Inr x \<Longrightarrow> x = view s k"
    using *(1,2) get_error get_result by (cases r; blast)+
  with * show ?thesis by simp
qed

lemma call_put:
  assumes "backends_ok vt invar stores" "i < length stores"
    and "obj_call stores i (\<lambda>v. ps_put_if_absent v k x) = (r, stores')"
    and small: "length (entry_value x) < 2 ^ 63"
  shows "backends_ok vt invar stores' \<and> length stores' = length stores \<and>
    (case r of
       Inl e \<Rightarrow> replicas view stores' = replicas view stores
     | Inr out \<Rightarrow> out_inserted out = ((replicas view stores ! i) k = None) \<and>
         replicas view stores' =
           (if (replicas view stores ! i) k = None
            then (replicas view stores)[i := (replicas view stores ! i)(k \<mapsto> x)]
            else replicas view stores))"
proof -
  obtain s s' where *: "ps_put_if_absent vt k x s = (r, s')" "invar s" "view s = replicas view stores ! i"
    "replicas view stores' = (replicas view stores)[i := view s']"
    "invar s' \<longrightarrow> backends_ok vt invar stores'" "length stores' = length stores"
    using obj_call_replicas [OF assms(1-3), where view = view] by blast
  show ?thesis
  proof (cases r)
    case (Inl e)
    with put_error * show ?thesis by simp
  next
    case (Inr out)
    with put_result [OF *(2) small, of k out s'] * show ?thesis by auto
  qed
qed

lemma call_remove:
  assumes "backends_ok vt invar stores" "i < length stores"
    and "obj_call stores i (\<lambda>v. ps_remove v k) = (r, stores')"
  shows "backends_ok vt invar stores' \<and> length stores' = length stores \<and>
    (case r of
       Inl e \<Rightarrow> replicas view stores' = replicas view stores
     | Inr _ \<Rightarrow> replicas view stores' =
         (replicas view stores)[i := (replicas view stores ! i)(k := None)])"
proof -
  obtain s s' where *: "ps_remove vt k s = (r, s')" "invar s" "view s = replicas view stores ! i"
    "replicas view stores' = (replicas view stores)[i := view s']"
    "invar s' \<longrightarrow> backends_ok vt invar stores'" "length stores' = length stores"
    using obj_call_replicas [OF assms, where view = view] by blast
  show ?thesis
  proof (cases r)
    case (Inl e)
    with remove_error * show ?thesis by simp
  next
    case (Inr u)
    with remove_result [OF *(2), of k u s'] * show ?thesis by simp
  qed
qed

lemma get_loop:
  assumes "backends_ok vt invar stores" "\<forall>i \<in> set ixs. i < length stores"
    and "layered_get_loop ixs k stores = (r, stores')"
  shows "replicas view stores' = replicas view stores \<and> backends_ok vt invar stores' \<and>
    (\<forall>x. r = Inr x \<longrightarrow> x = first_hit (map ((!) (replicas view stores)) ixs) k)"
  using assms
proof (induction ixs arbitrary: stores)
  case Nil
  then show ?case by auto
next
  case (Cons i ixs)
  obtain r1 st1 where c: "obj_call stores i (\<lambda>v. ps_get v k) = (r1, st1)" by fastforce
  note g = call_get [OF Cons.prems(1) _ c]
  show ?case
  proof (cases r1)
    case (Inl e)
    with Cons.prems c g show ?thesis by auto
  next
    case (Inr x)
    show ?thesis
    proof (cases x)
      case None
      with Cons.prems c g Inr Cons.IH [of st1] show ?thesis by auto
    next
      case (Some y)
      with Cons.prems c g Inr show ?thesis by (auto simp: eq_commute [of "Some y"])
    qed
  qed
qed

lemma check_loop:
  assumes "backends_ok vt invar stores" "\<forall>i \<in> set ixs. i < length stores"
    and "layered_check_loop ixs k x stores = (r, stores')"
  shows "replicas view stores' = replicas view stores \<and> backends_ok vt invar stores' \<and>
    length stores' = length stores \<and>
    (r = Inr () \<longrightarrow> (\<forall>i \<in> set ixs. (replicas view stores ! i) k \<in> {None, Some x}))"
  using assms
proof (induction ixs arbitrary: stores)
  case Nil
  then show ?case by auto
next
  case (Cons i ixs)
  obtain r1 st1 where c: "obj_call stores i (\<lambda>v. ps_get v k) = (r1, st1)" by fastforce
  note g = call_get [OF Cons.prems(1) _ c]
  show ?case
  proof (cases r1)
    case (Inl e)
    with Cons.prems c g show ?thesis by auto
  next
    case (Inr y)
    with Cons.prems c g Cons.IH [of st1] show ?thesis
      by (cases y) (auto split: if_splits)
  qed
qed

lemma rollback_ok:
  assumes "backends_ok vt invar stores" "\<forall>i \<in> set js. i < length stores"
  shows "backends_ok vt invar (layered_rollback js k stores) \<and>
         length (layered_rollback js k stores) = length stores"
  using assms
proof (induction js arbitrary: stores)
  case Nil
  then show ?case by simp
next
  case (Cons i js)
  obtain r st1 where c: "obj_call stores i (\<lambda>v. ps_remove v k) = (r, st1)" by fastforce
  with call_remove [OF Cons.prems(1) _ c] Cons show ?case by simp
qed

lemma rollback_view:
  assumes "backends_ok vt invar stores" "\<forall>i \<in> set js. i < length stores" "j < length stores"
  shows "replicas view (layered_rollback js k stores) ! j = replicas view stores ! j \<or>
         j \<in> set js \<and>
         replicas view (layered_rollback js k stores) ! j = (replicas view stores ! j)(k := None)"
  using assms
proof (induction js arbitrary: stores)
  case Nil
  then show ?case by simp
next
  case (Cons i js)
  obtain r st1 where c: "obj_call stores i (\<lambda>v. ps_remove v k) = (r, st1)" by fastforce
  note rm = call_remove [OF Cons.prems(1) _ c]
  have step: "replicas view st1 ! j = replicas view stores ! j \<or>
       j = i \<and> replicas view st1 ! j = (replicas view stores ! j)(k := None)"
    using rm Cons.prems by (cases r; cases "j = i") auto
  have ih: "replicas view (layered_rollback js k st1) ! j = replicas view st1 ! j \<or>
         j \<in> set js \<and>
         replicas view (layered_rollback js k st1) ! j = (replicas view st1 ! j)(k := None)"
    using rm Cons.prems by (intro Cons.IH) auto
  have unfold: "layered_rollback (i # js) k stores = layered_rollback js k st1" using c by simp
  show ?case
    unfolding unfold using step ih by (elim disjE conjE) simp_all
qed

lemma rollback_total:
  assumes "backends_ok vt invar stores" "\<forall>i \<in> set js. i < length stores"
    and "j \<in> set js" and removable: "\<And>s. invar s \<Longrightarrow> \<exists>s'. ps_remove vt k s = (Inr (), s')"
  shows "replicas view (layered_rollback js k stores) ! j = (replicas view stores ! j)(k := None)"
  using assms(1-3)
proof (induction js arbitrary: stores)
  case Nil
  then show ?case by simp
next
  case (Cons i js)
  have i: "i < length stores" using Cons.prems by simp
  obtain r st1 where c: "obj_call stores i (\<lambda>v. ps_remove v k) = (r, st1)" by fastforce
  obtain s s' where "ps_remove vt k s = (r, s')" "invar s"
    using obj_call_replicas [OF Cons.prems(1) i c] by blast
  with removable have r: "r = Inr ()" by (metis fst_conv)
  note rm = call_remove [OF Cons.prems(1) i c]
  then have st1: "replicas view st1 = (replicas view stores)[i := (replicas view stores ! i)(k := None)]"
    "backends_ok vt invar st1" "\<forall>i \<in> set js. i < length st1" "length st1 = length stores"
    using r Cons.prems by auto
  show ?case
  proof (cases "j \<in> set js")
    case True
    from Cons.IH [OF st1(2,3) True] st1(1) i c show ?thesis by (cases "j = i") auto
  next
    case False
    with Cons.prems have "j = i" by simp
    with rollback_view [OF st1(2,3), of j k] st1 i c False show ?thesis by simp
  qed
qed

lemma put_loop:
  assumes "backends_ok vt invar stores" "\<forall>i \<in> set ixs. i < length stores" "distinct ixs"
    and "length V = length stores" "\<forall>i \<in> set ins. i < length stores" "set ins \<inter> set ixs = {}"
    and "\<forall>j \<in> set ins. (V ! j) k = None"
    and "\<forall>j < length stores. replicas view stores ! j = (if j \<in> set ins then (V ! j)(k \<mapsto> x) else V ! j)"
    and "layered_put_loop ixs k x ins b stores = (r, stores')"
    and small: "length (entry_value x) < 2 ^ 63"
  shows "backends_ok vt invar stores' \<and> length stores' = length stores \<and>
    (case r of
       Inr out \<Rightarrow> out_inserted out = (\<exists>j \<in> set ins \<union> set ixs. (V ! j) k = None) \<and>
         (\<forall>j < length stores. replicas view stores' ! j =
            (if j \<in> set ins \<union> set ixs \<and> (V ! j) k = None then (V ! j)(k \<mapsto> x) else V ! j))
     | Inl e \<Rightarrow>
         (\<forall>j < length stores. replicas view stores' ! j = V ! j \<or>
            (V ! j) k = None \<and> replicas view stores' ! j = (V ! j)(k \<mapsto> x)) \<and>
         ((\<forall>s. invar s \<longrightarrow> (\<exists>s'. ps_remove vt k s = (Inr (), s'))) \<longrightarrow>
            (\<forall>j < length stores. replicas view stores' ! j = V ! j)))"
  using assms(1-9)
proof (induction ixs arbitrary: stores ins b)
  case Nil
  then have "r = Inr \<lparr> out_inserted = (ins \<noteq> []), out_stored_bytes = b \<rparr>" "stores' = stores" by auto
  moreover have "(ins \<noteq> []) = (\<exists>j \<in> set ins. (V ! j) k = None)" using Nil.prems(7) by (cases ins) auto
  ultimately show ?case using Nil.prems by auto
next
  case (Cons i ixs)
  obtain r1 st1 where c: "obj_call stores i (\<lambda>v. ps_put_if_absent v k x) = (r1, st1)" by fastforce
  have i: "i < length stores" "i \<notin> set ins" using Cons.prems by auto
  then have Vi: "replicas view stores ! i = V ! i" using Cons.prems(8) by simp
  note p = call_put [OF Cons.prems(1) i(1) c small]
  show ?case
  proof (cases r1)
    case (Inr out)
    let ?ins = "if out_inserted out then ins @ [i] else ins"
    have 1: "out_inserted out = ((V ! i) k = None)" "backends_ok vt invar st1"
      "length st1 = length stores"
      "replicas view st1 = (if (V ! i) k = None then (replicas view stores)[i := (V ! i)(k \<mapsto> x)]
                             else replicas view stores)"
      using p Inr Vi by auto
    have 2: "\<forall>j < length st1. replicas view st1 ! j = (if j \<in> set ?ins then (V ! j)(k \<mapsto> x) else V ! j)"
      using 1 Cons.prems(8) i by (auto simp: nth_list_update)
    have 3: "layered_put_loop ixs k x ?ins (sat_add b (out_stored_bytes out)) st1 = (r, stores')"
      using Cons.prems(9) c Inr by simp
    have 4: "\<forall>i \<in> set ixs. i < length st1" "distinct ixs" "length V = length st1"
      "\<forall>i \<in> set ?ins. i < length st1" "set ?ins \<inter> set ixs = {}" "\<forall>j \<in> set ?ins. (V ! j) k = None"
      using Cons.prems 1 by (auto split: if_splits)
    have 5: "j \<in> set ?ins \<union> set ixs \<and> (V ! j) k = None \<longleftrightarrow> j \<in> set ins \<union> set (i # ixs) \<and> (V ! j) k = None"
      for j using 1(1) by auto
    then have 6: "(\<exists>j \<in> set ?ins \<union> set ixs. (V ! j) k = None)
        = (\<exists>j \<in> set ins \<union> set (i # ixs). (V ! j) k = None)" by blast
    from Cons.IH [OF 1(2) 4 2 3] show ?thesis
      unfolding 5 6 1(3) .
  next
    case (Inl e)
    have 1: "backends_ok vt invar st1" "length st1 = length stores"
      "replicas view st1 = replicas view stores" using p Inl by auto
    have st': "r = Inl e" "stores' = layered_rollback ins k st1"
      using Cons.prems(9) c Inl by auto
    have cancel: "((V ! j)(k \<mapsto> x))(k := None) = V ! j" if "j \<in> set ins" for j
      using Cons.prems(7) that by (auto simp: fun_eq_iff)
    have ins: "\<forall>i \<in> set ins. i < length st1" using Cons.prems(5) 1 by simp
    have cur: "replicas view st1 ! j = (if j \<in> set ins then (V ! j)(k \<mapsto> x) else V ! j)"
      if "j < length stores" for j
      using Cons.prems(8) 1 that by simp
    have frame: "replicas view stores' ! j = V ! j \<or>
        (V ! j) k = None \<and> replicas view stores' ! j = (V ! j)(k \<mapsto> x)" if "j < length stores" for j
      using rollback_view [OF 1(1) ins, of j k] cur [OF that] cancel Cons.prems(7) that 1(2)
      by (auto simp: st' split: if_splits)
    have total: "replicas view stores' ! j = V ! j"
      if "j < length stores" "\<forall>s. invar s \<longrightarrow> (\<exists>s'. ps_remove vt k s = (Inr (), s'))" for j
    proof (cases "j \<in> set ins")
      case True
      have "replicas view stores' ! j = (replicas view st1 ! j)(k := None)"
        unfolding st'(2) using that by (intro rollback_total [OF 1(1) ins True]) blast
      with cur [OF that(1)] cancel True show ?thesis by simp
    next
      case False
      with rollback_view [OF 1(1) ins, of j k] cur [OF that(1)] that 1(2) show ?thesis
        by (simp add: st')
    qed
    show ?thesis using rollback_ok [OF 1(1) ins, of k] st' 1(2) frame total by auto
  qed
qed

lemma layered_put_cases:
  assumes "backends_ok vt invar stores"
    and "layered_put_if_absent k x stores = (r, stores')"
    and small: "length (entry_value x) < 2 ^ 63"
  shows "backends_ok vt invar stores' \<and> length stores' = length stores \<and>
    (case r of
       Inr out \<Rightarrow>
         (\<forall>j < length stores. (replicas view stores ! j) k \<in> {None, Some x} \<and>
            replicas view stores' ! j = (replicas view stores ! j)(k \<mapsto> x)) \<and>
         out_inserted out = (\<exists>j < length stores. (replicas view stores ! j) k = None)
     | Inl e \<Rightarrow>
         (\<forall>j < length stores. replicas view stores' ! j = replicas view stores ! j \<or>
            (replicas view stores ! j) k = None \<and>
            replicas view stores' ! j = (replicas view stores ! j)(k \<mapsto> x)) \<and>
         ((\<forall>s. invar s \<longrightarrow> (\<exists>s'. ps_remove vt k s = (Inr (), s'))) \<longrightarrow>
            replicas view stores' = replicas view stores))"
proof -
  obtain r1 st1 where c: "layered_check_loop [0..<length stores] k x stores = (r1, st1)" by fastforce
  have ck: "replicas view st1 = replicas view stores" "backends_ok vt invar st1"
    "length st1 = length stores"
    "r1 = Inr () \<Longrightarrow> \<forall>j < length stores. (replicas view stores ! j) k \<in> {None, Some x}"
    using check_loop [OF assms(1) _ c] by auto
  show ?thesis
  proof (cases r1)
    case (Inl e)
    with assms(2) c ck show ?thesis by (auto simp: layered_put_if_absent_def)
  next
    case (Inr u)
    then have l: "layered_put_loop [0..<length st1] k x [] 0 st1 = (r, stores')"
      using assms(2) c by (simp add: layered_put_if_absent_def)
    have compat: "\<forall>j < length stores. (replicas view stores ! j) k \<in> {None, Some x}"
      using ck(4) Inr by simp
    have upd: "(replicas view stores ! j)(k \<mapsto> x) = replicas view stores ! j"
      if "j < length stores" "(replicas view stores ! j) k \<noteq> None" for j
      using that compat by (auto simp: fun_eq_iff)
    have P: "backends_ok vt invar stores' \<and> length stores' = length st1 \<and>
      (case r of
         Inr out \<Rightarrow> out_inserted out =
             (\<exists>j \<in> set [] \<union> set [0..<length st1]. (replicas view stores ! j) k = None) \<and>
           (\<forall>j < length st1. replicas view stores' ! j =
              (if j \<in> set [] \<union> set [0..<length st1] \<and> (replicas view stores ! j) k = None
               then (replicas view stores ! j)(k \<mapsto> x) else replicas view stores ! j))
       | Inl e \<Rightarrow>
           (\<forall>j < length st1. replicas view stores' ! j = replicas view stores ! j \<or>
              (replicas view stores ! j) k = None \<and>
              replicas view stores' ! j = (replicas view stores ! j)(k \<mapsto> x)) \<and>
           ((\<forall>s. invar s \<longrightarrow> (\<exists>s'. ps_remove vt k s = (Inr (), s'))) \<longrightarrow>
              (\<forall>j < length st1. replicas view stores' ! j = replicas view stores ! j)))"
      by (rule put_loop [OF ck(2) _ _ _ _ _ _ _ l small, where V = "replicas view stores"])
         (use ck in auto)
    show ?thesis
    proof (cases r)
      case (Inl e)
      have "length (replicas view stores') = length (replicas view stores)" using P ck(3) by simp
      with P ck(3) Inl show ?thesis by (simp add: list_eq_iff_nth_eq)
    next
      case (Inr out)
      with P ck(3) compat upd show ?thesis by auto
    qed
  qed
qed

lemma layered_get_result:
  assumes "backends_ok vt invar stores" "layered_get k stores = (r, stores')"
  shows "replicas view stores' = replicas view stores \<and> backends_ok vt invar stores' \<and>
    (\<forall>x. r = Inr x \<longrightarrow> x = first_hit (replicas view stores) k)"
proof -
  have "map ((!) (replicas view stores)) [0..<length stores] = replicas view stores"
    using map_nth [of "replicas view stores"] by simp
  with get_loop [OF assms(1) _ assms(2) [unfolded layered_get_def]] show ?thesis by auto
qed

end

section \<open>Properties\<close>

text \<open>
  C7: over backends that keep the storage contract, a layered write that succeeds found no
  conflicting copy and leaves the entry in every backend, with every other key untouched. A
  layered write that fails only ever leaves behind replicas this call created, and none at all
  when the backends can remove the key.
\<close>

theorem layered_put_replicates_or_rolls_back:
  assumes "fallible_store vt view invar"
    and "backends_ok vt invar stores"
    and "layered_put_if_absent k x stores = (r, stores')"
    and "length (entry_value x) < 2 ^ 63"
  shows "case r of
       Inr out \<Rightarrow>
         (\<forall>j < length stores. (replicas view stores ! j) k \<in> {None, Some x} \<and>
            replicas view stores' ! j = (replicas view stores ! j)(k \<mapsto> x)) \<and>
         out_inserted out = (\<exists>j < length stores. (replicas view stores ! j) k = None)
     | Inl e \<Rightarrow>
         (\<forall>j < length stores. replicas view stores' ! j = replicas view stores ! j \<or>
            (replicas view stores ! j) k = None \<and>
            replicas view stores' ! j = (replicas view stores ! j)(k \<mapsto> x)) \<and>
         ((\<forall>s. invar s \<longrightarrow> (\<exists>s'. ps_remove vt k s = (Inr (), s'))) \<longrightarrow>
            replicas view stores' = replicas view stores)"
  using fallible_store.layered_put_cases [OF assms] by blast

definition demo_layers :: "volatile_store layered_store" where
  "demo_layers = replicate 2 (volatile_vt (\<lambda>ks. ks), volatile_new)"

definition demo_entry :: stored_entry where
  "demo_entry = \<lparr> entry_value = [7, 8], entry_expires_at = 0, entry_pinned = True \<rparr>"

theorem layered_put_replicates_or_rolls_back_witness:
  "replicas volatile_view (snd (layered_put_if_absent ''k'' demo_entry demo_layers)) ! 1
       = (replicas volatile_view demo_layers ! 1)(''k'' \<mapsto> demo_entry)"
proof -
  obtain r st where c: "layered_put_if_absent ''k'' demo_entry demo_layers = (r, st)" by fastforce
  have ok: "backends_ok (volatile_vt (\<lambda>ks. ks)) volatile_inv demo_layers"
    by (simp add: backends_ok_def demo_layers_def volatile_inv_def volatile_new_def)
  have "isl r = False"
    using c by (auto simp: layered_put_if_absent_def demo_layers_def upt_rec obj_call_def
        volatile_defs volatile_new_def numeral_2_eq_2)
  then obtain out where "r = Inr out" by (cases r) auto
  moreover have "length (entry_value demo_entry) < 2 ^ 63" by (simp add: demo_entry_def)
  moreover have "1 < length demo_layers" by (simp add: demo_layers_def)
  ultimately show ?thesis
    using layered_put_replicates_or_rolls_back [OF volatile.fallible_store_axioms ok c] c by simp
qed

text \<open>
  A layered read answers from the first backend, in priority order, that holds the key, and
  changes the contents of none of them: there is no hidden promotion.
\<close>

theorem layered_get_is_first_hit:
  assumes "fallible_store vt view invar"
    and "backends_ok vt invar stores"
    and "layered_get k stores = (Inr x, stores')"
  shows "x = first_hit (replicas view stores) k \<and> replicas view stores' = replicas view stores"
  using fallible_store.layered_get_result [OF assms] by blast

theorem layered_get_is_first_hit_witness:
  "first_hit (replicas volatile_view demo_layers) ''k'' = None"
proof -
  have ok: "backends_ok (volatile_vt (\<lambda>ks. ks)) volatile_inv demo_layers"
    by (simp add: backends_ok_def demo_layers_def volatile_inv_def volatile_new_def)
  obtain st where "layered_get ''k'' demo_layers = (Inr None, st)"
    by (simp add: layered_get_def demo_layers_def upt_rec obj_call_def
        volatile_defs volatile_new_def numeral_2_eq_2)
  from layered_get_is_first_hit [OF volatile.fallible_store_axioms ok this] show ?thesis by simp
qed

end
