(* ===== verification/Policy.thy ===== *)
theory Policy
  imports Rivet_Prelude
begin

text \<open>
  The injected policies of \<open>src/policy.rs\<close>: key generation and validation, eviction and the
  telemetry events. The \<open>sha2\<close> and \<open>hex\<close> crates are a parameter, the record
  \<open>crypto\<close>; \<open>crypto_ok\<close> states what their documentation promises about sizes and digits.
\<close>

section \<open>Keys\<close>

record crypto =
  sha256 :: "u8 list \<Rightarrow> u8 list"
  hex_encode :: "u8 list \<Rightarrow> string"

definition lower_hex :: "char \<Rightarrow> bool" where
  "lower_hex c = (let b = of_char c :: nat in (48 \<le> b \<and> b \<le> 57) \<or> (97 \<le> b \<and> b \<le> 102))"

definition crypto_ok :: "crypto \<Rightarrow> bool" where
  "crypto_ok cr \<longleftrightarrow>
     (\<forall>bs. length (sha256 cr bs) = 32) \<and>
     (\<forall>bs. length (hex_encode cr bs) = 2 * length bs) \<and>
     (\<forall>bs. list_all lower_hex (hex_encode cr bs))"

text \<open>The bytes \<open>update_length_prefixed\<close> feeds to the digest.\<close>

definition length_prefixed :: "u8 list \<Rightarrow> u8 list" where
  "length_prefixed v = u64_le (len64 v) @ v"

definition make_key_input :: "string \<Rightarrow> string \<Rightarrow> string \<Rightarrow> u8 list" where
  "make_key_input namespace model_fingerprint payload =
     as_bytes ''RIVET_CACHE_V1'' @ [0] @
     length_prefixed (as_bytes namespace) @
     length_prefixed (as_bytes model_fingerprint) @
     length_prefixed (as_bytes payload)"

definition sha256_make_key :: "crypto \<Rightarrow> string \<Rightarrow> string \<Rightarrow> string \<Rightarrow> string" where
  "sha256_make_key cr namespace model_fingerprint payload =
     hex_encode cr (sha256 cr (make_key_input namespace model_fingerprint payload))"

definition sha256_validate :: "string \<Rightarrow> unit io_result" where
  "sha256_validate key =
     (if length key = 64 \<and> list_all lower_hex key then Inr ()
      else Inl (IoError InvalidInput ''cache key must be 64 lowercase hexadecimal characters''))"

section \<open>Eviction and telemetry\<close>

record eviction_candidate =
  cand_key :: string
  cand_last_access :: u64
  cand_size_bytes :: u64

definition lru_choose_victim :: "eviction_candidate list \<Rightarrow> nat option" where
  "lru_choose_victim candidates =
     map_option fst (min_by_key (\<lambda>(i, c). cand_last_access c) (enumerate 0 candidates))"

datatype cache_event =
    MemoryHit | PersistentHit | Miss | WriteEvent
  | MemoryEviction u64 | PersistentEviction u64 | Expiration u64 | Corruption u64
  | Invalidation u64 | ClearEvent

text \<open>
  What the cache may rely on from an injected policy. The cache itself tolerates a policy that
  breaks either law, by stopping the eviction loop.
\<close>

locale lawful_eviction =
  fixes choose_victim :: "eviction_candidate list \<Rightarrow> nat option"
  assumes choose_in_range: "choose_victim cs = Some i \<Longrightarrow> i < length cs"
    and choose_total: "cs \<noteq> [] \<Longrightarrow> choose_victim cs \<noteq> None"

section \<open>Lemmas\<close>

lemma length_prefixed_inject:
  assumes "length_prefixed a @ x = length_prefixed b @ y"
    and "length a < 2 ^ 64" "length b < 2 ^ 64"
  shows "a = b \<and> x = y"
proof -
  have eq: "u64_le (len64 a) = u64_le (len64 b)" "a @ x = b @ y"
    using assms(1) by (simp_all add: length_prefixed_def)
  then have "unat (len64 a) = unat (len64 b)"
    by simp
  then have "length a = length b"
    using assms(2,3) by (simp add: sat_simps)
  with eq show ?thesis by simp
qed

lemma make_key_input_inject:
  assumes "make_key_input n m p = make_key_input n' m' p'"
    and "length n < 2 ^ 64" "length m < 2 ^ 64" "length p < 2 ^ 64"
    and "length n' < 2 ^ 64" "length m' < 2 ^ 64" "length p' < 2 ^ 64"
  shows "n = n' \<and> m = m' \<and> p = p'"
proof -
  have 1: "length_prefixed (as_bytes n) @ length_prefixed (as_bytes m) @ length_prefixed (as_bytes p)
      = length_prefixed (as_bytes n') @ length_prefixed (as_bytes m') @ length_prefixed (as_bytes p')"
    using assms(1) by (simp add: make_key_input_def)
  from length_prefixed_inject [OF 1] assms
  have n: "n = n'" and 2: "length_prefixed (as_bytes m) @ length_prefixed (as_bytes p)
      = length_prefixed (as_bytes m') @ length_prefixed (as_bytes p')" by auto
  from length_prefixed_inject [OF 2] assms
  have m: "m = m'" and 3: "length_prefixed (as_bytes p) @ [] = length_prefixed (as_bytes p') @ []"
    by auto
  from length_prefixed_inject [OF 3] assms have "p = p'" by auto
  with n m show ?thesis by simp
qed

lemma lru_Some:
  assumes "lru_choose_victim cs = Some i"
  shows "i < length cs \<and> (\<forall>j < length cs. cand_last_access (cs ! i) \<le> cand_last_access (cs ! j))"
proof -
  from assms obtain c where
    m: "min_by_key (\<lambda>(i, c). cand_last_access c) (enumerate 0 cs) = Some (i, c)"
    by (auto simp: lru_choose_victim_def)
  note m' = min_by_key_Some [OF m]
  then have ic: "i < length cs" "c = cs ! i"
    by (auto simp: in_set_enumerate_eq)
  have least: "cand_last_access c \<le> cand_last_access d" if "(j, d) \<in> set (enumerate 0 cs)" for j d
    using m' that by fastforce
  have "cand_last_access (cs ! i) \<le> cand_last_access (cs ! j)" if "j < length cs" for j
    using that least [of j "cs ! j"] ic by (simp add: in_set_enumerate_eq)
  with ic show ?thesis by simp
qed

interpretation lru: lawful_eviction lru_choose_victim
proof unfold_locales
  fix cs i
  assume "lru_choose_victim cs = Some i"
  then show "i < length cs" using lru_Some by blast
next
  fix cs :: "eviction_candidate list"
  assume "cs \<noteq> []"
  then have "length (enumerate 0 cs) \<noteq> 0" by simp
  then have "enumerate 0 cs \<noteq> []" by (simp only: length_0_conv not_False_eq_True)
  then show "lru_choose_victim cs \<noteq> None" by (simp add: lru_choose_victim_def)
qed

section \<open>Properties\<close>

text \<open>
  C12: two requests get the same default cache key only when their namespace, model fingerprint
  and payload are all equal, or SHA-256 (followed by hexadecimal encoding) maps two different
  inputs to one key. The length prefixes leave no other way for keys to meet.
\<close>

theorem make_key_separates_requests:
  assumes "sha256_make_key cr n m p = sha256_make_key cr n' m' p'"
    and "length n < 2 ^ 64" "length m < 2 ^ 64" "length p < 2 ^ 64"
    and "length n' < 2 ^ 64" "length m' < 2 ^ 64" "length p' < 2 ^ 64"
  shows "(n = n' \<and> m = m' \<and> p = p') \<or>
         (make_key_input n m p \<noteq> make_key_input n' m' p' \<and>
          hex_encode cr (sha256 cr (make_key_input n m p)) =
          hex_encode cr (sha256 cr (make_key_input n' m' p')))"
proof (cases "make_key_input n m p = make_key_input n' m' p'")
  case True
  from make_key_input_inject [OF this assms(2-)] show ?thesis by simp
next
  case False
  with assms(1) show ?thesis by (simp add: sha256_make_key_def)
qed

definition demo_crypto :: crypto where
  "demo_crypto = \<lparr> sha256 = (\<lambda>bs. take 32 (bs @ replicate 32 0)),
     hex_encode = (\<lambda>bs. concat (map (\<lambda>b. let d = (\<lambda>n. ''0123456789abcdef'' ! unat n)
                              in [d (b div 16), d (b mod 16)]) bs)) \<rparr>"

lemma demo_crypto_ok: "crypto_ok demo_crypto"
proof -
  have "list_all lower_hex ''0123456789abcdef''" by (simp add: lower_hex_def)
  then have digit: "lower_hex (''0123456789abcdef'' ! n)" if "n < 16" for n
    using that by (simp only: list_all_length) simp
  have "length (hex_encode demo_crypto bs) = 2 * length bs \<and>
      list_all lower_hex (hex_encode demo_crypto bs)" for bs
  proof (induction bs)
    case Nil
    then show ?case by (simp add: demo_crypto_def)
  next
    case (Cons b bs)
    have "unat (b div 16) < 16" "unat (b mod 16) < 16"
      using unat8_bound [of b] by (simp_all add: unat_div unat_mod, linarith)
    from digit [OF this(1)] digit [OF this(2)] Cons show ?case
      by (simp add: demo_crypto_def Let_def)
  qed
  moreover have "length (sha256 demo_crypto bs) = 32" for bs by (simp add: demo_crypto_def)
  ultimately show ?thesis by (simp add: crypto_ok_def)
qed

theorem make_key_separates_requests_witness:
  "sha256_make_key demo_crypto ''kv'' ''m'' ''p'' = sha256_make_key demo_crypto ''kv'' ''m'' ''p'' \<and>
   ((''kv'' = ''kv'' \<and> ''m'' = ''m'' \<and> ''p'' = ''p'') \<or>
    (make_key_input ''kv'' ''m'' ''p'' \<noteq> make_key_input ''kv'' ''m'' ''p'' \<and>
     hex_encode demo_crypto (sha256 demo_crypto (make_key_input ''kv'' ''m'' ''p'')) =
     hex_encode demo_crypto (sha256 demo_crypto (make_key_input ''kv'' ''m'' ''p''))))"
  using make_key_separates_requests [of demo_crypto "''kv''" "''m''" "''p''" "''kv''" "''m''" "''p''"]
  by simp

end
