(* ===== verification/FileStore.thy ===== *)
theory FileStore
  imports Store Policy
begin

text \<open>
  The filesystem backend of \<open>src/store.rs\<close>: the \<open>RIVET01\<close> file format, the store's
  directory as a map from file names to nodes, and every operation of \<open>FileStore\<close>. Operating
  system failures are two streams of the model, consulted once per call: \<open>fs_faults\<close> for calls
  that open, read, write, rename, remove or list, \<open>fs_stat_faults\<close> for metadata queries.
  The contract of the store is proved for every stream of the first kind.
\<close>

section \<open>The directory\<close>

datatype fs_node = FsFile "u8 list" u64 | FsDir u64

record fs =
  fs_files :: "(string, fs_node) hmap"
  fs_faults :: "nat \<Rightarrow> io_error option"
  fs_ops :: nat
  fs_stat_faults :: "nat \<Rightarrow> io_error option"
  fs_stats :: nat
  fs_now :: u64
  fs_pid :: nat
  temp_nonce :: u64

definition fs_op :: "(fs \<Rightarrow> 'a io_result \<times> fs) \<Rightarrow> fs \<Rightarrow> 'a io_result \<times> fs" where
  "fs_op f s = (let s1 = s\<lparr> fs_ops := Suc (fs_ops s) \<rparr> in
     case fs_faults s (fs_ops s) of Some e \<Rightarrow> (Inl e, s1) | None \<Rightarrow> f s1)"

definition fs_metadata :: "string \<Rightarrow> fs \<Rightarrow> fs_node io_result \<times> fs" where
  "fs_metadata name s = (let s1 = s\<lparr> fs_stats := Suc (fs_stats s) \<rparr> in
     case fs_stat_faults s (fs_stats s) of
       Some e \<Rightarrow> (Inl e, s1)
     | None \<Rightarrow> (case map_of (fs_files s) name of
                   None \<Rightarrow> (Inl (IoError NotFound ''No such file or directory''), s1)
                 | Some node \<Rightarrow> (Inr node, s1)))"

fun node_len :: "fs_node \<Rightarrow> u64" where
  "node_len (FsFile bs _) = len64 bs"
| "node_len (FsDir sz) = sz"

definition fs_exists :: "string \<Rightarrow> fs \<Rightarrow> bool \<times> fs" where
  "fs_exists name s = (case fs_metadata name s of (Inr _, s1) \<Rightarrow> (True, s1) | (Inl _, s1) \<Rightarrow> (False, s1))"

definition fs_open :: "string \<Rightarrow> fs \<Rightarrow> u8 list io_result \<times> fs" where
  "fs_open name = fs_op (\<lambda>s. case map_of (fs_files s) name of
       None \<Rightarrow> (Inl (IoError NotFound ''No such file or directory''), s)
     | Some (FsFile bs _) \<Rightarrow> (Inr bs, s)
     | Some (FsDir _) \<Rightarrow> (Inl (IoError (OtherKind 0) ''Is a directory''), s))"

definition fs_remove_file :: "string \<Rightarrow> fs \<Rightarrow> unit io_result \<times> fs" where
  "fs_remove_file name = fs_op (\<lambda>s. case map_of (fs_files s) name of
       None \<Rightarrow> (Inl (IoError NotFound ''No such file or directory''), s)
     | Some (FsFile _ _) \<Rightarrow> (Inr (), s\<lparr> fs_files := AList.delete name (fs_files s) \<rparr>)
     | Some (FsDir _) \<Rightarrow> (Inl (IoError (OtherKind 0) ''Is a directory''), s))"

definition fs_create_new :: "string \<Rightarrow> fs \<Rightarrow> unit io_result \<times> fs" where
  "fs_create_new name = fs_op (\<lambda>s. case map_of (fs_files s) name of
       Some _ \<Rightarrow> (Inl (IoError AlreadyExists ''File exists''), s)
     | None \<Rightarrow> (Inr (), s\<lparr> fs_files := AList.update name (FsFile [] (fs_now s)) (fs_files s) \<rparr>))"

definition fs_append :: "string \<Rightarrow> u8 list \<Rightarrow> fs \<Rightarrow> unit io_result \<times> fs" where
  "fs_append name bs = fs_op (\<lambda>s. case map_of (fs_files s) name of
       Some (FsFile old _) \<Rightarrow>
         (Inr (), s\<lparr> fs_files := AList.update name (FsFile (old @ bs) (fs_now s)) (fs_files s) \<rparr>)
     | _ \<Rightarrow> (Inr (), s))"

definition fs_rename :: "string \<Rightarrow> string \<Rightarrow> fs \<Rightarrow> unit io_result \<times> fs" where
  "fs_rename from dest = fs_op (\<lambda>s. case map_of (fs_files s) from of
       None \<Rightarrow> (Inl (IoError NotFound ''No such file or directory''), s)
     | Some node \<Rightarrow> (case map_of (fs_files s) dest of
           Some (FsDir _) \<Rightarrow> (Inl (IoError (OtherKind 0) ''Is a directory''), s)
         | _ \<Rightarrow> (Inr (), s\<lparr> fs_files := AList.update dest node (AList.delete from (fs_files s)) \<rparr>)))"

text \<open>An open file is its unread bytes; every \<open>read_exact\<close> on it can fail.\<close>

definition file_read :: "nat \<Rightarrow> u8 list \<times> fs \<Rightarrow> u8 list io_result \<times> (u8 list \<times> fs)" where
  "file_read n h =
     (case fs_op (\<lambda>s. (Inr (), s)) (snd h) of
        (Inl e, s1) \<Rightarrow> (Inl e, (fst h, s1))
      | (Inr _, s1) \<Rightarrow> (case read_exact n (fst h) of (r, rest) \<Rightarrow> (r, (rest, s1))))"

section \<open>The file format\<close>

definition magic :: "u8 list" where
  "magic = as_bytes ''RIVET01'' @ [10]"

definition header_len :: u64 where
  "header_len = 8 + 8 + 1 + 8 + 32"

record file_header =
  hdr_expires_at :: u64
  hdr_pinned :: bool
  hdr_payload_len :: u64
  hdr_checksum :: "u8 list"

definition read_u64 :: "u8 list \<times> fs \<Rightarrow> u64 io_result \<times> (u8 list \<times> fs)" where
  "read_u64 h = and_then (file_read 8 h) (\<lambda>bytes h1. (Inr (le_word bytes), h1))"

definition read_header_from :: "u8 list \<times> fs \<Rightarrow> file_header io_result \<times> (u8 list \<times> fs)" where
  "read_header_from h =
     and_then (file_read 8 h) (\<lambda>m h1.
       if m \<noteq> magic then (Inl (IoError InvalidData ''invalid cache magic''), h1)
       else and_then (read_u64 h1) (\<lambda>expires_at h2.
         and_then (file_read 1 h2) (\<lambda>pinned h3.
           if pinned ! 0 > 1 then (Inl (IoError InvalidData ''invalid cache pinned flag''), h3)
           else and_then (read_u64 h3) (\<lambda>payload_len h4.
             and_then (file_read 32 h4) (\<lambda>checksum h5.
               (Inr \<lparr> hdr_expires_at = expires_at, hdr_pinned = (pinned ! 0 = 1),
                      hdr_payload_len = payload_len, hdr_checksum = checksum \<rparr>, h5))))))"

text \<open>The file is dropped when the header has been read; only the directory state remains.\<close>

definition close_file :: "'a io_result \<times> (u8 list \<times> fs) \<Rightarrow> 'a io_result \<times> fs" where
  "close_file r = (case r of (x, (_, s)) \<Rightarrow> (x, s))"

definition read_header :: "string \<Rightarrow> fs \<Rightarrow> file_header io_result \<times> fs" where
  "read_header name s = and_then (fs_open name s) (\<lambda>bs s1. close_file (read_header_from (bs, s1)))"

section \<open>FileStore\<close>

definition validate_file_key :: "string \<Rightarrow> unit io_result" where
  "validate_file_key key =
     (if key \<noteq> [] \<and> key \<noteq> ''.'' \<and> key \<noteq> ''..'' \<and> CHR ''/'' \<notin> set key \<and>
         CHR 0x5C \<notin> set key \<and> CHR 0x00 \<notin> set key
      then Inr () else Inl (IoError InvalidInput ''cache key is not safe for the filesystem store''))"

definition cache_name :: "string \<Rightarrow> string" where
  "cache_name key = key @ ''.rivetcache''"

definition path_for :: "string \<Rightarrow> string io_result" where
  "path_for key = result_bind (validate_file_key key) (\<lambda>_. Inr (cache_name key))"

text \<open>\<open>Path::file_stem\<close> and \<open>Path::extension\<close> of a directory entry.\<close>

definition split_ext :: "string \<Rightarrow> string \<times> string option" where
  "split_ext name =
     (let ext = rev (takeWhile (\<lambda>c. c \<noteq> CHR ''.'') (rev name));
          stem = take (length name - length ext - 1) name in
      if CHR ''.'' \<notin> set name \<or> stem = [] then (name, None) else (stem, Some ext))"

definition bump_corruption :: "store_snapshot \<Rightarrow> store_snapshot" where
  "bump_corruption snap = snap\<lparr> snap_corruptions := sat_add (snap_corruptions snap) 1 \<rparr>"

text \<open>One iteration of the directory scan of \<open>load_index\<close>.\<close>

definition load_index_entry :: "string \<Rightarrow> store_snapshot \<Rightarrow> fs \<Rightarrow> store_snapshot \<times> fs" where
  "load_index_entry name snap s =
     (let discard = (\<lambda>s'. (bump_corruption snap, snd (fs_remove_file name s'))) in
      case split_ext name of (stem, ext) \<Rightarrow>
      if ext \<noteq> Some ''rivetcache'' then (snap, s)
      else if \<not> utf8_valid (as_bytes stem) then discard s
      else if isl (validate_file_key stem) then discard s
      else (case fs_metadata name s of
          (Inr (FsFile bs mtime), s1) \<Rightarrow>
            (case read_header name s1 of
               (Inl _, s2) \<Rightarrow> discard s2
             | (Inr header, s2) \<Rightarrow>
                 if len64 bs \<noteq> sat_add header_len (hdr_payload_len header) then discard s2
                 else (snap\<lparr> snap_entries := snap_entries snap @
                         [\<lparr> rec_key = stem, rec_stored_bytes = len64 bs,
                            rec_expires_at = hdr_expires_at header, rec_pinned = hdr_pinned header,
                            rec_last_access = mtime \<rparr>] \<rparr>, s2))
        | (_, s1) \<Rightarrow> discard s1))"

fun load_index_loop :: "string list \<Rightarrow> store_snapshot \<Rightarrow> fs \<Rightarrow> store_snapshot io_result \<times> fs" where
  "load_index_loop [] snap s = (Inr snap, s)"
| "load_index_loop (name # names) snap s =
     and_then (fs_op (\<lambda>s. (Inr (), s)) s) (\<lambda>_ s1.
       case load_index_entry name snap s1 of (snap1, s2) \<Rightarrow> load_index_loop names snap1 s2)"

definition file_load_index :: "(string list \<Rightarrow> string list) \<Rightarrow> fs \<Rightarrow> store_snapshot io_result \<times> fs" where
  "file_load_index order s =
     and_then (fs_op (\<lambda>s. (Inr (), s)) s) (\<lambda>_ s1.
       load_index_loop (order (map fst (fs_files s1)))
         \<lparr> snap_entries = [], snap_corruptions = 0 \<rparr> s1)"

definition read_payload :: "crypto \<Rightarrow> file_header \<Rightarrow> u8 list \<times> fs \<Rightarrow> stored_entry option io_result \<times> (u8 list \<times> fs)" where
  "read_payload cr header h =
     (if 0x8000000000000000 \<le> hdr_payload_len header then (Inl (Panicked ''capacity overflow''), h)
      else and_then (file_read (unat (hdr_payload_len header)) h) (\<lambda>payload h1.
        if sha256 cr payload \<noteq> hdr_checksum header
        then (Inl (IoError InvalidData ''cache payload checksum mismatch''), h1)
        else (Inr (Some \<lparr> entry_value = payload, entry_expires_at = hdr_expires_at header,
                          entry_pinned = hdr_pinned header \<rparr>), h1)))"

definition file_get :: "crypto \<Rightarrow> string \<Rightarrow> fs \<Rightarrow> stored_entry option io_result \<times> fs" where
  "file_get cr key s =
     check_then (path_for key) s (\<lambda>path.
       case fs_exists path s of (found, s1) \<Rightarrow>
         if \<not> found then (Inr None, s1)
         else and_then (fs_open path s1) (\<lambda>bs s2.
           close_file (and_then (read_header_from (bs, s2)) (\<lambda>header h. read_payload cr header h))))"

definition temp_name :: "fs \<Rightarrow> string" where
  "temp_name s = ''.'' @ show_nat (fs_pid s) @ ''.'' @ show_nat (unat (temp_nonce s)) @ ''.tmp''"

fun fs_append_all :: "string \<Rightarrow> u8 list list \<Rightarrow> fs \<Rightarrow> unit io_result \<times> fs" where
  "fs_append_all name [] s = (Inr (), s)"
| "fs_append_all name (bs # bss) s = and_then (fs_append name bs s) (\<lambda>_ s1. fs_append_all name bss s1)"

definition file_parts :: "crypto \<Rightarrow> stored_entry \<Rightarrow> u8 list list" where
  "file_parts cr entry =
     [magic, u64_le (entry_expires_at entry), [bool_byte (entry_pinned entry)],
      u64_le (len64 (entry_value entry)), sha256 cr (entry_value entry), entry_value entry]"

text \<open>Moving the finished temporary file into place.\<close>

definition publish_temp :: "string \<Rightarrow> string \<Rightarrow> u64 \<Rightarrow> fs \<Rightarrow> put_outcome io_result \<times> fs" where
  "publish_temp temp_path final_path stored_bytes s =
     (case fs_rename temp_path final_path s of
        (Inr _, s1) \<Rightarrow> (Inr \<lparr> out_inserted = True, out_stored_bytes = stored_bytes \<rparr>, s1)
      | (Inl error, s1) \<Rightarrow>
          (case fs_exists final_path s1 of
             (True, s2) \<Rightarrow>
               (let s3 = snd (fs_remove_file temp_path s2) in
                case fs_metadata final_path s3 of
                  (Inr node, s4) \<Rightarrow> (Inr \<lparr> out_inserted = False, out_stored_bytes = node_len node \<rparr>, s4)
                | (Inl _, s4) \<Rightarrow> (Inr \<lparr> out_inserted = False, out_stored_bytes = stored_bytes \<rparr>, s4))
           | (False, s2) \<Rightarrow> (Inl error, snd (fs_remove_file temp_path s2))))"

definition file_put_if_absent ::
  "crypto \<Rightarrow> string \<Rightarrow> stored_entry \<Rightarrow> fs \<Rightarrow> put_outcome io_result \<times> fs" where
  "file_put_if_absent cr key entry s =
     check_then (path_for key) s (\<lambda>final_path.
       case fs_metadata final_path s of
         (Inr node, s1) \<Rightarrow> (Inr \<lparr> out_inserted = False, out_stored_bytes = node_len node \<rparr>, s1)
       | (Inl _, s1) \<Rightarrow>
           (let temp_path = temp_name s1; s2 = s1\<lparr> temp_nonce := temp_nonce s1 + 1 \<rparr> in
            and_then (fs_create_new temp_path s2) (\<lambda>_ s3.
            and_then (fs_append_all temp_path (file_parts cr entry) s3) (\<lambda>_ s4.
            and_then (fs_op (\<lambda>s. (Inr (), s)) s4) (\<lambda>_ s5.
              publish_temp temp_path final_path
                (sat_add header_len (len64 (entry_value entry))) s5)))))"

definition file_remove :: "string \<Rightarrow> fs \<Rightarrow> unit io_result \<times> fs" where
  "file_remove key s =
     check_then (path_for key) s (\<lambda>path.
       case fs_remove_file path s of
         (Inr _, s1) \<Rightarrow> (Inr (), s1)
       | (Inl e, s1) \<Rightarrow> if has_kind e NotFound then (Inr (), s1) else (Inl e, s1))"

fun file_clear_loop :: "string list \<Rightarrow> fs \<Rightarrow> unit io_result \<times> fs" where
  "file_clear_loop [] s = (Inr (), s)"
| "file_clear_loop (name # names) s =
     and_then (fs_op (\<lambda>s. (Inr (), s)) s) (\<lambda>_ s1.
       if snd (split_ext name) \<noteq> Some ''rivetcache'' then file_clear_loop names s1
       else (case fs_remove_file name s1 of
           (Inr _, s2) \<Rightarrow> file_clear_loop names s2
         | (Inl e, s2) \<Rightarrow> if has_kind e NotFound then file_clear_loop names s2 else (Inl e, s2)))"

definition file_clear :: "(string list \<Rightarrow> string list) \<Rightarrow> fs \<Rightarrow> unit io_result \<times> fs" where
  "file_clear order s =
     and_then (fs_op (\<lambda>s. (Inr (), s)) s) (\<lambda>_ s1. file_clear_loop (order (map fst (fs_files s1))) s1)"

definition file_vt :: "crypto \<Rightarrow> (string list \<Rightarrow> string list) \<Rightarrow> fs persistent_store" where
  "file_vt cr order =
     \<lparr> ps_load_index = file_load_index order, ps_get = file_get cr,
       ps_put_if_absent = file_put_if_absent cr, ps_remove = file_remove,
       ps_clear = file_clear order \<rparr>"

section \<open>What the directory stores\<close>

definition file_bytes :: "crypto \<Rightarrow> stored_entry \<Rightarrow> u8 list" where
  "file_bytes cr entry = concat (file_parts cr entry)"

definition decode_file :: "u8 list \<Rightarrow> stored_entry" where
  "decode_file bs = \<lparr> entry_value = drop 57 bs, entry_expires_at = le_word (take 8 (drop 8 bs)),
                      entry_pinned = (bs ! 16 = 1) \<rparr>"

definition file_view :: "fs \<Rightarrow> string \<Rightarrow> stored_entry option" where
  "file_view s k =
     (if isl (validate_file_key k) then None
      else case map_of (fs_files s) (cache_name k) of
             Some (FsFile bs _) \<Rightarrow> Some (decode_file bs)
           | _ \<Rightarrow> None)"

text \<open>The invariant names the stream of failures, which no call changes.\<close>

definition file_inv ::
  "crypto \<Rightarrow> (string list \<Rightarrow> string list) \<Rightarrow> (nat \<Rightarrow> io_error option) \<Rightarrow> fs \<Rightarrow> bool" where
  "file_inv cr order flt s \<longleftrightarrow>
     crypto_ok cr \<and> hash_order_ok order \<and> hm_ok (fs_files s) \<and>
     (\<forall>n. fs_stat_faults s n = None) \<and>
     fs_faults s = flt \<and> (\<forall>n e. flt n = Some e \<longrightarrow> \<not> has_kind e NotFound) \<and>
     (\<forall>k node. map_of (fs_files s) (cache_name k) = Some node \<longrightarrow>
        (\<exists>x m. node = FsFile (file_bytes cr x) m \<and> length (entry_value x) < 2 ^ 63))"

definition same_dir :: "fs \<Rightarrow> fs \<Rightarrow> bool" where
  "same_dir s s' \<longleftrightarrow> fs_files s' = fs_files s \<and> fs_faults s' = fs_faults s \<and>
     fs_stat_faults s' = fs_stat_faults s"

lemma close_file_eq: "close_file r = (x, s) \<longleftrightarrow> (\<exists>rest. r = (x, (rest, s)))"
  by (cases r) (auto simp: close_file_def)

lemma same_dir_refl [simp]: "same_dir s s"
  by (simp add: same_dir_def)

lemma same_dir_trans: "same_dir s t \<Longrightarrow> same_dir t u \<Longrightarrow> same_dir s u"
  by (simp add: same_dir_def)

lemma same_dir_keeps:
  assumes "same_dir s s'"
  shows "file_view s' = file_view s" "file_inv cr order flt s' = file_inv cr order flt s"
  using assms by (auto simp: same_dir_def file_view_def file_inv_def fun_eq_iff)

lemma length_magic [simp]: "length magic = 8"
  by (simp add: magic_def)

lemma length_sha [simp]: "crypto_ok cr \<Longrightarrow> length (sha256 cr bs) = 32"
  by (simp add: crypto_ok_def)

lemma decode_file_bytes [simp]: "crypto_ok cr \<Longrightarrow> decode_file (file_bytes cr x) = x"
  by (simp add: decode_file_def file_bytes_def file_parts_def nth_append)

lemma validate_append_ext: "cache_name k = cache_name k' \<longleftrightarrow> k = k'"
  by (simp add: cache_name_def)

lemma temp_not_cache: "temp_name s \<noteq> cache_name k"
proof
  assume "temp_name s = cache_name k"
  then have "last (temp_name s) = last (cache_name k)" by simp
  then show False by (simp add: temp_name_def cache_name_def)
qed

lemma file_read_exact:
  "length xs = n \<Longrightarrow>
   file_read n (xs @ ys, s) =
     (case fs_faults s (fs_ops s) of
        Some e \<Rightarrow> (Inl e, (xs @ ys, s\<lparr> fs_ops := Suc (fs_ops s) \<rparr>))
      | None \<Rightarrow> (Inr xs, (ys, s\<lparr> fs_ops := Suc (fs_ops s) \<rparr>)))"
  by (simp add: file_read_def fs_op_def Let_def split: option.splits)

lemma file_read_dir: "file_read n h = (r, h') \<Longrightarrow> same_dir (snd h) (snd h')"
  by (auto simp: file_read_def fs_op_def Let_def same_dir_def split: option.splits prod.splits)

lemma read_u64_exact:
  "length xs = 8 \<Longrightarrow>
   read_u64 (xs @ ys, s) =
     (case fs_faults s (fs_ops s) of
        Some e \<Rightarrow> (Inl e, (xs @ ys, s\<lparr> fs_ops := Suc (fs_ops s) \<rparr>))
      | None \<Rightarrow> (Inr (le_word xs), (ys, s\<lparr> fs_ops := Suc (fs_ops s) \<rparr>)))"
  by (simp add: read_u64_def file_read_exact split: option.splits)

lemma file_bytes_layout:
  "file_bytes cr x = magic @ u64_le (entry_expires_at x) @ [bool_byte (entry_pinned x)] @
     u64_le (len64 (entry_value x)) @ sha256 cr (entry_value x) @ entry_value x"
  by (simp add: file_bytes_def file_parts_def)

lemma read_header_file_bytes:
  assumes "crypto_ok cr" "read_header_from (file_bytes cr x, s) = (r, (rest, s'))"
  shows "same_dir s s' \<and>
    (\<forall>h. r = Inr h \<longrightarrow> rest = entry_value x \<and>
        h = \<lparr> hdr_expires_at = entry_expires_at x, hdr_pinned = entry_pinned x,
              hdr_payload_len = len64 (entry_value x), hdr_checksum = sha256 cr (entry_value x) \<rparr>)"
  using assms
  by (auto simp: read_header_from_def file_bytes_layout file_read_exact read_u64_exact same_dir_def
      file_read_exact [where xs = "[_]", simplified] split: option.splits)

lemma read_payload_value:
  assumes "length (entry_value x) < 2 ^ 63" "hdr_payload_len h = len64 (entry_value x)"
    "hdr_checksum h = sha256 cr (entry_value x)"
    "hdr_expires_at h = entry_expires_at x" "hdr_pinned h = entry_pinned x"
    and "read_payload cr h (entry_value x, s) = (r, (rest, s'))"
  shows "same_dir s s' \<and> (\<forall>y. r = Inr y \<longrightarrow> y = Some x)"
proof -
  have "unat (len64 (entry_value x)) = length (entry_value x)"
    using assms(1) by (simp add: sat_simps)
  moreover from this have "\<not> 0x8000000000000000 \<le> len64 (entry_value x)"
    using assms(1) by (simp add: word_le_nat_alt)
  ultimately show ?thesis
    using assms file_read_exact [of "entry_value x" "length (entry_value x)" "[]" s]
    by (auto simp: read_payload_def same_dir_def split: option.splits)
qed

lemma fs_metadata_quiet:
  "\<forall>n. fs_stat_faults s n = None \<Longrightarrow>
   fs_metadata name s = (case map_of (fs_files s) name of
       None \<Rightarrow> (Inl (IoError NotFound ''No such file or directory''), s\<lparr> fs_stats := Suc (fs_stats s) \<rparr>)
     | Some node \<Rightarrow> (Inr node, s\<lparr> fs_stats := Suc (fs_stats s) \<rparr>))"
  by (simp add: fs_metadata_def Let_def)

lemma fs_exists_quiet:
  "\<forall>n. fs_stat_faults s n = None \<Longrightarrow>
   fs_exists name s = (map_of (fs_files s) name \<noteq> None, s\<lparr> fs_stats := Suc (fs_stats s) \<rparr>)"
  by (simp add: fs_exists_def fs_metadata_quiet split: option.splits)

lemma file_get_contract:
  assumes "file_inv cr order flt s" "file_get cr k s = (r, s')"
  shows "same_dir s s' \<and> (\<forall>y. r = Inr y \<longrightarrow> y = file_view s k)"
proof (cases "isl (validate_file_key k)")
  case True
  then obtain e where "validate_file_key k = Inl e" by (auto simp: isl_def)
  then have "file_get cr k s = (Inl e, s)" by (simp add: file_get_def path_for_def)
  with assms(2) show ?thesis by auto
next
  case False
  then have v: "path_for k = Inr (cache_name k)" by (cases "validate_file_key k") (auto simp: path_for_def)
  have q: "\<forall>n. fs_stat_faults s n = None" and cr: "crypto_ok cr" using assms(1) by (auto simp: file_inv_def)
  show ?thesis
  proof (cases "map_of (fs_files s) (cache_name k)")
    case None
    with assms(2) v q False show ?thesis
      by (auto simp: file_get_def fs_exists_quiet same_dir_def file_view_def)
  next
    case (Some node)
    then obtain x m where x: "node = FsFile (file_bytes cr x) m" "length (entry_value x) < 2 ^ 63"
      using assms(1) unfolding file_inv_def by blast
    let ?s1 = "s\<lparr> fs_stats := Suc (fs_stats s) \<rparr>"
    let ?s2 = "?s1\<lparr> fs_ops := Suc (fs_ops s) \<rparr>"
    have view: "file_view s k = Some x" using Some x cr False by (simp add: file_view_def)
    have step: "file_get cr k s = and_then (fs_open (cache_name k) ?s1)
        (\<lambda>bs s2. close_file (and_then (read_header_from (bs, s2)) (read_payload cr)))"
      using Some v q by (simp add: file_get_def fs_exists_quiet)
    have opened: "fs_open (cache_name k) ?s1 =
        (case fs_faults s (fs_ops s) of Some e \<Rightarrow> (Inl e, ?s2) | None \<Rightarrow> (Inr (file_bytes cr x), ?s2))"
      using Some x by (simp add: fs_open_def fs_op_def Let_def split: option.splits)
    have s2: "same_dir s ?s2" by (simp add: same_dir_def)
    show ?thesis
    proof (cases "fs_faults s (fs_ops s)")
      case f: None
      obtain r1 rest s3 where h: "read_header_from (file_bytes cr x, ?s2) = (r1, (rest, s3))"
        by (metis prod.exhaust)
      note rh = read_header_file_bytes [OF cr h]
      show ?thesis
      proof (cases r1)
        case (Inl e)
        with step opened f h assms(2) rh s2 show ?thesis
          by (auto simp: close_file_def intro: same_dir_trans)
      next
        case (Inr hd)
        obtain r2 rest2 s4 where p: "read_payload cr hd (rest, s3) = (r2, (rest2, s4))"
          by (metis prod.exhaust)
        with rh Inr have "same_dir s3 s4 \<and> (\<forall>y. r2 = Inr y \<longrightarrow> y = Some x)"
          by (intro read_payload_value [OF x(2)]) auto
        with step opened f h p Inr assms(2) rh s2 view show ?thesis
          by (auto simp: close_file_def intro: same_dir_trans)
      qed
    qed (use step opened assms(2) s2 in auto)
  qed
qed

lemma file_get_total:
  assumes inv: "file_inv cr order (\<lambda>_. None) s" and k: "validate_file_key k = Inr ()"
  shows "\<exists>s'. file_get cr k s = (Inr (file_view s k), s')"
proof -
  have q: "\<forall>n. fs_stat_faults s n = None" and cr: "crypto_ok cr" and f: "fs_faults s = (\<lambda>_. None)"
    using inv by (auto simp: file_inv_def)
  have "\<not> isl (fst (file_get cr k s))"
  proof (cases "map_of (fs_files s) (cache_name k)")
    case None
    with k q show ?thesis by (simp add: file_get_def path_for_def fs_exists_quiet)
  next
    case (Some node)
    then obtain x m where x: "node = FsFile (file_bytes cr x) m" "length (entry_value x) < 2 ^ 63"
      using inv unfolding file_inv_def by blast
    let ?s2 = "s\<lparr> fs_stats := Suc (fs_stats s), fs_ops := Suc (fs_ops s) \<rparr>"
    have "unat (len64 (entry_value x)) = length (entry_value x)" "\<not> 0x8000000000000000 \<le> len64 (entry_value x)"
      using x(2) by (simp_all add: sat_simps word_le_nat_alt)
    then have "\<not> isl (fst (and_then (read_header_from (file_bytes cr x, ?s2)) (read_payload cr)))"
      using f cr file_read_exact [of "entry_value x" "length (entry_value x)" "[]"]
      by (simp add: read_header_from_def file_bytes_layout file_read_exact read_u64_exact read_payload_def
          file_read_exact [where xs = "[_]", simplified])
    moreover have "file_get cr k s = close_file (and_then (read_header_from (file_bytes cr x, ?s2)) (read_payload cr))"
      using k q Some x f by (simp add: file_get_def path_for_def fs_exists_quiet fs_open_def fs_op_def Let_def)
    ultimately show ?thesis by (simp add: close_file_def split: prod.splits)
  qed
  then obtain y s' where run: "file_get cr k s = (Inr y, s')"
    by (metis isl_def prod.collapse sum.collapse(2))
  with file_get_contract [OF inv run] show ?thesis by simp
qed

text \<open>Calls that touch one file name at most.\<close>

definition touches :: "string \<Rightarrow> fs \<Rightarrow> fs \<Rightarrow> bool" where
  "touches name s s' \<longleftrightarrow>
     (\<forall>other. other \<noteq> name \<longrightarrow> map_of (fs_files s') other = map_of (fs_files s) other) \<and>
     (hm_ok (fs_files s) \<longrightarrow> hm_ok (fs_files s')) \<and> fs_faults s' = fs_faults s \<and>
     fs_stat_faults s' = fs_stat_faults s"

lemma touches_trans: "touches n s t \<Longrightarrow> touches n t u \<Longrightarrow> touches n s u"
  by (simp add: touches_def)

lemma same_dir_touches: "same_dir s t \<Longrightarrow> touches n s t"
  by (simp add: touches_def same_dir_def)

lemma fs_op_idle: "fs_op (\<lambda>s. (Inr (), s)) s = (r, s') \<Longrightarrow> same_dir s s'"
  by (auto simp: fs_op_def Let_def same_dir_def split: option.splits)

lemma fs_file_calls:
  "fs_create_new n s = (r, s') \<Longrightarrow> touches n s s'"
  "fs_append n bs s = (r, s') \<Longrightarrow> touches n s s'"
  "fs_remove_file n s = (r, s') \<Longrightarrow> touches n s s'"
  by (auto simp: fs_create_new_def fs_append_def fs_remove_file_def fs_op_def Let_def touches_def
      hm_simps split: option.splits fs_node.splits)

lemma fs_create_content:
  "fs_create_new n s = (Inr u, s') \<Longrightarrow> \<exists>m. map_of (fs_files s') n = Some (FsFile [] m)"
  by (auto simp: fs_create_new_def fs_op_def Let_def hm_simps split: option.splits)

lemma fs_append_all_touches: "fs_append_all n bss s = (r, s') \<Longrightarrow> touches n s s'"
proof (induction bss arbitrary: s)
  case Nil
  then show ?case by (simp add: touches_def)
next
  case (Cons bs bss)
  obtain r1 s1 where a: "fs_append n bs s = (r1, s1)" by fastforce
  with Cons show ?case by (cases r1) (auto dest: fs_file_calls(2) intro: touches_trans)
qed

lemma fs_append_all_content:
  "fs_append_all n bss s = (Inr u, s') \<Longrightarrow> map_of (fs_files s) n = Some (FsFile old m) \<Longrightarrow>
   \<exists>m'. map_of (fs_files s') n = Some (FsFile (old @ concat bss) m')"
proof (induction bss arbitrary: s old m)
  case Nil
  then show ?case by simp
next
  case (Cons bs bss)
  then obtain u1 s1 where a: "fs_append n bs s = (Inr u1, s1)" "fs_append_all n bss s1 = (Inr u, s')"
    by (auto simp: io_simps)
  then have "\<exists>m1. map_of (fs_files s1) n = Some (FsFile (old @ bs) m1)"
    using Cons.prems(2) by (auto simp: fs_append_def fs_op_def Let_def hm_simps split: option.splits)
  with Cons.IH [OF a(2)] show ?case by fastforce
qed

lemma touches_temp_keeps:
  assumes "touches t s s'" "\<forall>k. t \<noteq> cache_name k"
  shows "file_view s' = file_view s" "file_inv cr order flt s \<Longrightarrow> file_inv cr order flt s'"
proof -
  have m: "map_of (fs_files s') (cache_name k) = map_of (fs_files s) (cache_name k)" for k
    using assms by (auto simp: touches_def)
  then show "file_view s' = file_view s" by (simp add: file_view_def fun_eq_iff)
  show "file_inv cr order flt s'" if "file_inv cr order flt s"
    using that m assms(1) by (simp add: file_inv_def touches_def)
qed

lemma publish_temp_contract:
  assumes t: "\<forall>j. t \<noteq> cache_name j" and k: "validate_file_key k = Inr ()"
    and inv: "file_inv cr order flt s" and absent: "map_of (fs_files s) (cache_name k) = None"
    and temp: "map_of (fs_files s) t = Some (FsFile (file_bytes cr x) m)"
    and pub: "publish_temp t (cache_name k) b s = (r, s')"
  shows "case r of Inl e \<Rightarrow> file_view s' = file_view s \<and> file_inv cr order flt s'
     | Inr out \<Rightarrow> length (entry_value x) < 2 ^ 63 \<longrightarrow>
         out_inserted out \<and> file_view s' = (file_view s)(k \<mapsto> x) \<and> file_inv cr order flt s'"
proof (cases "fs_faults s (fs_ops s)")
  case None
  have cr: "crypto_ok cr" using inv by (simp add: file_inv_def)
  let ?f = "AList.update (cache_name k) (FsFile (file_bytes cr x) m) (AList.delete t (fs_files s))"
  have s': "s' = s\<lparr> fs_ops := Suc (fs_ops s), fs_files := ?f \<rparr>"
    and r: "r = Inr \<lparr> out_inserted = True, out_stored_bytes = b \<rparr>"
    using pub None temp absent
    by (auto simp: publish_temp_def fs_rename_def fs_op_def Let_def)
  have f: "map_of ?f (cache_name j) =
      (if j = k then Some (FsFile (file_bytes cr x) m) else map_of (fs_files s) (cache_name j))" for j
    using t [rule_format, of j] by (auto simp: hm_simps validate_append_ext)
  have "file_view s' = (file_view s)(k \<mapsto> x)"
    using k cr by (simp add: fun_eq_iff file_view_def s' f)
  moreover have "file_inv cr order flt s'" if "length (entry_value x) < 2 ^ 63"
    using inv that unfolding file_inv_def s' by (simp add: f) metis
  ultimately show ?thesis by (simp add: r)
next
  case (Some e)
  let ?s1 = "s\<lparr> fs_ops := Suc (fs_ops s), fs_stats := Suc (fs_stats s) \<rparr>"
  have q: "\<forall>n. fs_stat_faults s n = None" using inv by (simp add: file_inv_def)
  obtain r2 s2 where rm: "fs_remove_file t ?s1 = (r2, s2)" by fastforce
  have run: "r = Inl e" "s' = s2"
    using pub Some absent q rm
    by (auto simp: publish_temp_def fs_rename_def fs_op_def [of _ s] Let_def fs_exists_quiet)
  have "touches t s ?s1" by (simp add: touches_def)
  then have "touches t s s2" using fs_file_calls(3) [OF rm] by (rule touches_trans)
  from touches_temp_keeps [OF this t] inv run show ?thesis by simp
qed

lemma file_put_contract:
  assumes inv: "file_inv cr order flt s" and put: "file_put_if_absent cr k x s = (r, s')"
  shows "(isl r \<longrightarrow> file_view s' = file_view s \<and> file_inv cr order flt s') \<and>
    (length (entry_value x) < 2 ^ 63 \<longrightarrow> (\<forall>out. r = Inr out \<longrightarrow>
       out_inserted out = (file_view s k = None) \<and> file_inv cr order flt s' \<and>
       file_view s' = (if file_view s k = None then (file_view s)(k \<mapsto> x) else file_view s)))"
proof (cases "validate_file_key k")
  case (Inl e)
  then have "file_put_if_absent cr k x s = (Inl e, s)" by (simp add: file_put_if_absent_def path_for_def)
  with put inv show ?thesis by auto
next
  case (Inr u)
  then have k: "validate_file_key k = Inr ()" and path: "path_for k = Inr (cache_name k)"
    by (simp_all add: path_for_def)
  have q: "\<forall>n. fs_stat_faults s n = None" and cr: "crypto_ok cr" using inv by (auto simp: file_inv_def)
  show ?thesis
  proof (cases "map_of (fs_files s) (cache_name k)")
    case (Some node)
    then obtain y m where y: "node = FsFile (file_bytes cr y) m"
      using inv unfolding file_inv_def by blast
    have "file_view s k = Some y" using Some y k cr by (simp add: file_view_def)
    moreover have "same_dir s s'" "\<exists>b. r = Inr \<lparr> out_inserted = False, out_stored_bytes = b \<rparr>"
      using put path Some q by (auto simp: file_put_if_absent_def fs_metadata_quiet same_dir_def)
    ultimately show ?thesis using same_dir_keeps inv by auto
  next
    case None
    then have absent: "file_view s k = None" using k by (simp add: file_view_def)
    let ?s1 = "s\<lparr> fs_stats := Suc (fs_stats s) \<rparr>"
    let ?t = "temp_name ?s1"
    let ?s2 = "?s1\<lparr> temp_nonce := temp_nonce s + 1 \<rparr>"
    have t: "\<forall>j. ?t \<noteq> cache_name j" using temp_not_cache by blast
    have s2: "touches ?t s ?s2" by (simp add: touches_def)
    obtain r3 s3 where c3: "fs_create_new ?t ?s2 = (r3, s3)" by fastforce
    obtain r4 s4 where c4: "fs_append_all ?t (file_parts cr x) s3 = (r4, s4)" by fastforce
    obtain r5 s5 where c5: "fs_op (\<lambda>s. (Inr (), s)) s4 = (r5, s5)" by fastforce
    have t3: "touches ?t s s3" using touches_trans [OF s2 fs_file_calls(1) [OF c3]] .
    have t4: "touches ?t s s4" using touches_trans [OF t3 fs_append_all_touches [OF c4]] .
    have t5: "touches ?t s s5" using touches_trans [OF t4 same_dir_touches [OF fs_op_idle [OF c5]]] .
    note keep = touches_temp_keeps [OF t3 t] touches_temp_keeps [OF t4 t] touches_temp_keeps [OF t5 t]
    have run: "file_put_if_absent cr k x s = and_then (r3, s3) (\<lambda>_ s3.
        and_then (fs_append_all ?t (file_parts cr x) s3) (\<lambda>_ s4.
        and_then (fs_op (\<lambda>s. (Inr (), s)) s4) (\<lambda>_ s5.
          publish_temp ?t (cache_name k) (sat_add header_len (len64 (entry_value x))) s5)))"
      using path None q c3 by (simp add: file_put_if_absent_def fs_metadata_quiet Let_def)
    show ?thesis
    proof (cases "isl r3 \<or> isl r4 \<or> isl r5")
      case True
      then obtain e s'' where "r = Inl e" "s' = s''" "s'' \<in> {s3, s4, s5}"
        using put run c4 c5 by (cases r3; cases r4; cases r5) auto
      with keep inv show ?thesis by auto
    next
      case False
      then obtain u3 u4 u5 where ok: "r3 = Inr u3" "r4 = Inr u4" "r5 = Inr u5"
        by (cases r3; cases r4; cases r5) auto
      have pub: "publish_temp ?t (cache_name k) (sat_add header_len (len64 (entry_value x))) s5 = (r, s')"
        using put run c4 c5 ok by simp
      obtain m3 where "map_of (fs_files s3) ?t = Some (FsFile [] m3)"
        using fs_create_content c3 ok(1) by blast
      then obtain m4 where "map_of (fs_files s4) ?t = Some (FsFile (file_bytes cr x) m4)"
        using fs_append_all_content [of ?t _ s3 u4 s4 "[]" m3] c4 ok(2) by (auto simp: file_bytes_def)
      then have temp: "map_of (fs_files s5) ?t = Some (FsFile (file_bytes cr x) m4)"
        using fs_op_idle [OF c5] by (simp add: same_dir_def)
      have abs5: "map_of (fs_files s5) (cache_name k) = None"
        using t5 None t by (metis touches_def)
      from publish_temp_contract [OF t k keep(6) [OF inv] abs5 temp pub] keep(5) absent
      show ?thesis by (cases r) auto
    qed
  qed
qed

text \<open>Removing a name: the only effect on the directory is that the name may be gone.\<close>

definition shrinks :: "fs \<Rightarrow> fs \<Rightarrow> bool" where
  "shrinks s s' \<longleftrightarrow>
     (\<forall>n. map_of (fs_files s') n = map_of (fs_files s) n \<or> map_of (fs_files s') n = None) \<and>
     (hm_ok (fs_files s) \<longrightarrow> hm_ok (fs_files s')) \<and> fs_faults s' = fs_faults s \<and>
     fs_stat_faults s' = fs_stat_faults s"

lemma shrinks_trans: "shrinks s t \<Longrightarrow> shrinks t u \<Longrightarrow> shrinks s u"
  unfolding shrinks_def by metis

lemma shrinks_none:
  "shrinks s s' \<Longrightarrow> map_of (fs_files s) n = None \<Longrightarrow> map_of (fs_files s') n = None"
  unfolding shrinks_def by metis

lemma same_dir_shrinks: "same_dir s t \<Longrightarrow> shrinks s t"
  by (simp add: same_dir_def shrinks_def)

lemma shrinks_inv: "shrinks s s' \<Longrightarrow> file_inv cr order flt s \<Longrightarrow> file_inv cr order flt s'"
  unfolding shrinks_def file_inv_def by (metis option.distinct(1))

lemma fs_remove_file_shrinks: "fs_remove_file n s = (r, s') \<Longrightarrow> shrinks s s'"
  by (auto simp: fs_remove_file_def fs_op_def Let_def shrinks_def hm_simps
      split: option.splits fs_node.splits if_splits)

lemma fs_remove_file_gone:
  assumes "file_inv cr order flt s" "fs_remove_file n s = (r, s')" "isl r \<Longrightarrow> has_kind (projl r) NotFound"
  shows "map_of (fs_files s') n = None"
  using assms
  by (auto simp: fs_remove_file_def fs_op_def Let_def file_inv_def hm_simps
      split: option.splits fs_node.splits)

lemma fs_remove_file_failed:
  "fs_remove_file n s = (Inl e, s') \<Longrightarrow> same_dir s s'"
  by (auto simp: fs_remove_file_def fs_op_def Let_def same_dir_def split: option.splits fs_node.splits)

lemma file_remove_contract:
  assumes inv: "file_inv cr order flt s" and rm: "file_remove k s = (r, s')"
  shows "file_inv cr order flt s' \<and>
    file_view s' = (if isl r then file_view s else (file_view s)(k := None))"
proof (cases "validate_file_key k")
  case (Inl e)
  then have "r = Inl e" "s' = s" using rm by (simp_all add: file_remove_def path_for_def)
  with inv show ?thesis by simp
next
  case (Inr u)
  obtain r1 s1 where c: "fs_remove_file (cache_name k) s = (r1, s1)" by fastforce
  have r: "r = (if isl r1 \<and> \<not> has_kind (projl r1) NotFound then r1 else Inr ())" "s' = s1"
    using rm Inr c by (auto simp: file_remove_def path_for_def split: sum.splits if_splits)
  show ?thesis
  proof (cases "isl r")
    case True
    then have "same_dir s s1" using r c fs_remove_file_failed
      by (cases r1) (auto split: if_splits)
    from same_dir_keeps [OF this] r True inv show ?thesis by simp
  next
    case False
    then have "isl r1 \<Longrightarrow> has_kind (projl r1) NotFound" using r by (auto split: if_splits)
    then have gone: "map_of (fs_files s1) (cache_name k) = None"
      using fs_remove_file_gone [OF inv c] by blast
    have other: "map_of (fs_files s1) (cache_name j) = map_of (fs_files s) (cache_name j)"
      if "j \<noteq> k" for j
      using fs_file_calls(3) [OF c] that by (auto simp: touches_def validate_append_ext)
    have "file_view s1 = (file_view s)(k := None)"
      using gone other by (auto simp: file_view_def fun_eq_iff)
    with False r shrinks_inv [OF fs_remove_file_shrinks [OF c] inv] show ?thesis by simp
  qed
qed

lemma file_clear_loop_contract:
  assumes "file_inv cr order flt s" "file_clear_loop names s = (r, s')"
  shows "shrinks s s' \<and> (r = Inr () \<longrightarrow>
    (\<forall>n \<in> set names. snd (split_ext n) = Some ''rivetcache'' \<longrightarrow> map_of (fs_files s') n = None))"
  using assms
proof (induction names arbitrary: s)
  case Nil
  then show ?case by (simp add: shrinks_def)
next
  case (Cons n names)
  obtain r1 s1 where c1: "fs_op (\<lambda>s. (Inr (), s)) s = (r1, s1)" by fastforce
  have s1: "shrinks s s1" using same_dir_shrinks [OF fs_op_idle [OF c1]] .
  have inv1: "file_inv cr order flt s1" using shrinks_inv [OF s1 Cons.prems(1)] .
  obtain r2 s2 where c2: "fs_remove_file n s1 = (r2, s2)" by fastforce
  have s2: "shrinks s s2" using shrinks_trans [OF s1 fs_remove_file_shrinks [OF c2]] .
  have inv2: "file_inv cr order flt s2" using shrinks_inv [OF s2 Cons.prems(1)] .
  consider (fault) e where "r1 = Inl e"
    | (skip) "r1 = Inr ()" "snd (split_ext n) \<noteq> Some ''rivetcache''"
    | (failed) e where "r1 = Inr ()" "snd (split_ext n) = Some ''rivetcache''" "r2 = Inl e" "\<not> has_kind e NotFound"
    | (gone) "r1 = Inr ()" "snd (split_ext n) = Some ''rivetcache''" "isl r2 \<Longrightarrow> has_kind (projl r2) NotFound"
    by (cases r1; cases r2) auto
  then show ?case
  proof cases
    case fault
    with Cons.prems(2) c1 s1 show ?thesis by auto
  next
    case skip
    with Cons.prems(2) c1 have "file_clear_loop names s1 = (r, s')" by simp
    from Cons.IH [OF inv1 this] s1 skip show ?thesis by (auto intro: shrinks_trans)
  next
    case failed
    with Cons.prems(2) c1 c2 s2 show ?thesis by auto
  next
    case gone
    with Cons.prems(2) c1 c2 have l: "file_clear_loop names s2 = (r, s')"
      by (auto split: sum.splits)
    have n: "map_of (fs_files s2) n = None" using fs_remove_file_gone [OF inv1 c2 gone(3)] .
    note ih = Cons.IH [OF inv2 l]
    then have "map_of (fs_files s') n = None" using n shrinks_none by blast
    with ih s2 show ?thesis by (auto intro: shrinks_trans)
  qed
qed

lemma split_cache_name: "k \<noteq> [] \<Longrightarrow> split_ext (cache_name k) = (k, Some ''rivetcache'')"
  by (simp add: split_ext_def cache_name_def takeWhile_append)

lemma file_clear_contract:
  assumes inv: "file_inv cr order flt s" and cl: "file_clear order s = (r, s')"
  shows "file_inv cr order flt s' \<and> (r = Inr () \<longrightarrow> file_view s' = Map.empty)"
proof -
  obtain r1 s1 where c1: "fs_op (\<lambda>s. (Inr (), s)) s = (r1, s1)" by fastforce
  have s1: "same_dir s s1" using fs_op_idle [OF c1] .
  have inv1: "file_inv cr order flt s1" using same_dir_keeps(2) [OF s1] inv by simp
  show ?thesis
  proof (cases r1)
    case (Inl e)
    with cl c1 inv1 show ?thesis by (auto simp: file_clear_def)
  next
    case (Inr u)
    with cl c1 have l: "file_clear_loop (order (map fst (fs_files s1))) s1 = (r, s')"
      by (simp add: file_clear_def)
    note c = file_clear_loop_contract [OF inv1 l]
    have "file_view s' k = None" if ok: "r = Inr ()" for k
    proof (cases "isl (validate_file_key k)")
      case False
      then have k: "k \<noteq> []" by (auto simp: validate_file_key_def)
      have "map_of (fs_files s') (cache_name k) = None"
      proof (cases "map_of (fs_files s1) (cache_name k)")
        case None
        with c shrinks_none show ?thesis by blast
      next
        case (Some node)
        then have "cache_name k \<in> set (map fst (fs_files s1))"
          by (metis map_of_eq_None_iff option.distinct(1) set_map)
        then have "cache_name k \<in> set (order (map fst (fs_files s1)))"
          using inv1 unfolding file_inv_def hash_order_ok_def by blast
        with c ok k show ?thesis by (simp add: split_cache_name)
      qed
      then show ?thesis by (simp add: file_view_def)
    qed (simp add: file_view_def)
    with c shrinks_inv inv1 show ?thesis by (auto simp: fun_eq_iff)
  qed
qed

interpretation disk: fallible_store "file_vt cr order" file_view "file_inv cr order flt"
proof unfold_locales
  fix s k e s' r x out u
  assume inv: "file_inv cr order flt s"
  show "file_view s' = file_view s \<and> file_inv cr order flt s'"
    if "ps_get (file_vt cr order) k s = (Inl e, s')"
    using file_get_contract [OF inv, of k] that same_dir_keeps inv by (auto simp: file_vt_def)
  show "r = file_view s k \<and> file_view s' = file_view s \<and> file_inv cr order flt s'"
    if "ps_get (file_vt cr order) k s = (Inr r, s')"
    using file_get_contract [OF inv, of k] that same_dir_keeps inv by (auto simp: file_vt_def)
  show "file_view s' = file_view s \<and> file_inv cr order flt s'"
    if "ps_put_if_absent (file_vt cr order) k x s = (Inl e, s')"
    using file_put_contract [OF inv, of k x] that by (auto simp: file_vt_def)
  show "out_inserted out = (file_view s k = None) \<and> file_inv cr order flt s' \<and>
      file_view s' = (if file_view s k = None then (file_view s)(k \<mapsto> x) else file_view s)"
    if "length (entry_value x) < 2 ^ 63" "ps_put_if_absent (file_vt cr order) k x s = (Inr out, s')"
    using file_put_contract [OF inv, of k x] that by (auto simp: file_vt_def)
  show "file_view s' = file_view s \<and> file_inv cr order flt s'"
    if "ps_remove (file_vt cr order) k s = (Inl e, s')"
    using file_remove_contract [OF inv, of k] that by (auto simp: file_vt_def)
  show "file_view s' = (file_view s)(k := None) \<and> file_inv cr order flt s'"
    if "ps_remove (file_vt cr order) k s = (Inr u, s')"
    using file_remove_contract [OF inv, of k] that by (auto simp: file_vt_def)
  show "file_inv cr order flt s'" if "ps_clear (file_vt cr order) s = (Inl e, s')"
    using file_clear_contract [OF inv] that by (auto simp: file_vt_def)
  show "file_view s' = Map.empty \<and> file_inv cr order flt s'"
    if "ps_clear (file_vt cr order) s = (Inr u, s')"
    using file_clear_contract [OF inv] that by (auto simp: file_vt_def)
qed

subsection \<open>Indexing the directory\<close>

lemma split_ext_cache_name:
  assumes "split_ext name = (stem, Some ''rivetcache'')"
  shows "name = cache_name stem"
proof -
  let ?p = "\<lambda>c. c \<noteq> CHR ''.''"
  let ?e = "takeWhile ?p (rev name)"
  have e: "rev ?e = ''rivetcache''" and dot: "CHR ''.'' \<in> set name"
    and st: "stem = take (length name - length ?e - 1) name"
    using assms by (auto simp: split_ext_def Let_def split: if_splits)
  have ne: "dropWhile ?p (rev name) \<noteq> []" using dot by (simp add: dropWhile_eq_Nil_conv)
  then have "\<not> ?p (hd (dropWhile ?p (rev name)))" by (rule hd_dropWhile)
  with ne obtain ds where ds: "dropWhile ?p (rev name) = CHR ''.'' # ds"
    by (cases "dropWhile ?p (rev name)") auto
  have "rev name = ?e @ CHR ''.'' # ds" using takeWhile_dropWhile_id [of ?p "rev name"] ds by simp
  then have "name = rev (?e @ CHR ''.'' # ds)" by (metis rev_rev_ident)
  then have name: "name = rev ds @ ''.'' @ ''rivetcache''" using e by simp
  moreover have "length ?e = 10" using arg_cong [OF e, of length] by simp
  ultimately show ?thesis using st by (simp add: cache_name_def)
qed

text \<open>The record an intact file contributes to the index.\<close>

definition record_of :: "crypto \<Rightarrow> string \<Rightarrow> stored_entry \<Rightarrow> u64 \<Rightarrow> store_record" where
  "record_of cr k x m = \<lparr> rec_key = k, rec_stored_bytes = len64 (file_bytes cr x),
     rec_expires_at = entry_expires_at x, rec_pinned = entry_pinned x, rec_last_access = m \<rparr>"

lemma len64_file_bytes:
  assumes "crypto_ok cr" "length (entry_value x) < 2 ^ 63"
  shows "len64 (file_bytes cr x) = sat_add header_len (len64 (entry_value x))"
proof (rule word_unat_eq_iff [THEN iffD2])
  have "length (file_bytes cr x) = 57 + length (entry_value x)"
    using assms(1) by (simp add: file_bytes_layout)
  then show "unat (len64 (file_bytes cr x)) = unat (sat_add header_len (len64 (entry_value x)))"
    using assms(2) by (simp add: sat_simps header_len_def)
qed

lemma read_header_intact:
  assumes "crypto_ok cr" "map_of (fs_files s) n = Some (FsFile (file_bytes cr x) m)"
    and "read_header n s = (r, s')"
  shows "same_dir s s' \<and> (isl r \<longrightarrow> (\<exists>i. fs_faults s i \<noteq> None)) \<and>
    (\<forall>h. r = Inr h \<longrightarrow> hdr_expires_at h = entry_expires_at x \<and> hdr_pinned h = entry_pinned x \<and>
       hdr_payload_len h = len64 (entry_value x))"
proof (cases "fs_faults s (fs_ops s)")
  case (Some e)
  then have "r = Inl e" "s' = s\<lparr> fs_ops := Suc (fs_ops s) \<rparr>"
    using assms(3) by (auto simp: read_header_def fs_open_def fs_op_def Let_def)
  with Some show ?thesis by (auto simp: same_dir_def)
next
  case None
  let ?s1 = "s\<lparr> fs_ops := Suc (fs_ops s) \<rparr>"
  from None assms(2,3) obtain rest where
    h: "read_header_from (file_bytes cr x, ?s1) = (r, (rest, s'))"
    by (auto simp: read_header_def fs_open_def fs_op_def [of _ s] Let_def close_file_eq)
  have "isl r \<longrightarrow> (\<exists>i. fs_faults s i \<noteq> None)"
    using h assms(1)
    by (auto simp: read_header_from_def file_bytes_layout file_read_exact read_u64_exact
        file_read_exact [where xs = "[_]", simplified] split: option.splits)
  moreover have "same_dir s s'"
    using read_header_file_bytes [OF assms(1) h] by (simp add: same_dir_def)
  moreover have "\<forall>h. r = Inr h \<longrightarrow> hdr_expires_at h = entry_expires_at x \<and> hdr_pinned h = entry_pinned x \<and>
      hdr_payload_len h = len64 (entry_value x)"
    using read_header_file_bytes [OF assms(1) h] by (metis file_header.select_convs(1-3))
  ultimately show ?thesis by blast
qed

lemma load_index_entry_cases:
  assumes inv: "file_inv cr order flt s" and run: "load_index_entry name snap s = (snap', s')"
  shows "shrinks s s' \<and> touches name s s' \<and>
    (snap_entries snap' = snap_entries snap \<and>
       (\<forall>k. name = cache_name k \<and> validate_file_key k = Inr () \<and> utf8_valid (as_bytes k) \<and>
            (\<forall>i. fs_faults s i = None) \<longrightarrow> map_of (fs_files s) name = None) \<or>
     (\<exists>k x m. name = cache_name k \<and> validate_file_key k = Inr () \<and> same_dir s s' \<and>
        map_of (fs_files s) name = Some (FsFile (file_bytes cr x) m) \<and>
        snap_entries snap' = snap_entries snap @ [record_of cr k x m]))"
proof -
  have cr: "crypto_ok cr" and q: "\<forall>n. fs_stat_faults s n = None" using inv by (auto simp: file_inv_def)
  obtain stem ext where ext: "split_ext name = (stem, ext)" by fastforce
  have removed: "shrinks s t \<and> touches name s t"
    if "same_dir s s0" "fs_remove_file name s0 = (r, t)" for r s0 t
    using that fs_remove_file_shrinks [OF that(2)] fs_file_calls(3) [OF that(2)]
    by (meson same_dir_shrinks same_dir_touches shrinks_trans touches_trans)
  have gone: "shrinks s (snd (fs_remove_file name s0)) \<and> touches name s (snd (fs_remove_file name s0))"
    if "same_dir s s0" for s0
    using removed [OF that] by (cases "fs_remove_file name s0") auto
  have same: "shrinks s s \<and> touches name s s" by (simp add: same_dir_shrinks same_dir_touches)
  have key: "k = stem \<and> ext = Some ''rivetcache''"
    if "name = cache_name k" "validate_file_key k = Inr ()" for k
    using that ext split_cache_name [of k] by (auto simp: validate_file_key_def split: if_splits)
  show ?thesis
  proof (cases "ext = Some ''rivetcache'' \<and> utf8_valid (as_bytes stem) \<and> validate_file_key stem = Inr ()")
    case False
    moreover have "isl (validate_file_key stem) = (validate_file_key stem \<noteq> Inr ())"
      by (cases "validate_file_key stem") auto
    ultimately consider "ext \<noteq> Some ''rivetcache''" | "ext = Some ''rivetcache''" "\<not> utf8_valid (as_bytes stem)"
      | "ext = Some ''rivetcache''" "utf8_valid (as_bytes stem)" "isl (validate_file_key stem)" by blast
    then have "(snap', s') \<in> {(snap, s), (bump_corruption snap, snd (fs_remove_file name s))}"
      using run by cases (simp_all add: load_index_entry_def Let_def ext)
    then have "snap_entries snap' = snap_entries snap" "shrinks s s' \<and> touches name s s'"
      using same gone [of s] by (auto simp: bump_corruption_def)
    moreover have "\<not> (name = cache_name k \<and> validate_file_key k = Inr () \<and> utf8_valid (as_bytes k))" for k
      using False key by auto
    ultimately show ?thesis by blast
  next
    case True
    then have name: "name = cache_name stem" using ext split_ext_cache_name by simp
    let ?s1 = "s\<lparr> fs_stats := Suc (fs_stats s) \<rparr>"
    have s1: "same_dir s ?s1" by (simp add: same_dir_def)
    show ?thesis
    proof (cases "map_of (fs_files s) name")
      case None
      then have "snap' = bump_corruption snap" "s' = snd (fs_remove_file name ?s1)"
        using run ext True q by (auto simp: load_index_entry_def Let_def fs_metadata_quiet)
      with gone [OF s1] None show ?thesis by (auto simp: bump_corruption_def)
    next
      case (Some node)
      then obtain x m where x: "node = FsFile (file_bytes cr x) m" "length (entry_value x) < 2 ^ 63"
        using inv name unfolding file_inv_def by blast
      obtain r s2 where h: "read_header name ?s1 = (r, s2)" by fastforce
      have hdr: "same_dir ?s1 s2" "isl r \<longrightarrow> (\<exists>i. fs_faults s i \<noteq> None)"
        "\<forall>h. r = Inr h \<longrightarrow> hdr_expires_at h = entry_expires_at x \<and> hdr_pinned h = entry_pinned x \<and>
           hdr_payload_len h = len64 (entry_value x)"
        using read_header_intact [OF cr _ h] Some x by auto
      have s2: "same_dir s s2" using s1 hdr(1) by (rule same_dir_trans)
      show ?thesis
      proof (cases r)
        case (Inl e)
        then have "snap' = bump_corruption snap" "s' = snd (fs_remove_file name s2)"
          using run ext True q Some x h by (auto simp: load_index_entry_def Let_def fs_metadata_quiet)
        with gone [OF s2] hdr(2) Inl show ?thesis by (auto simp: bump_corruption_def)
      next
        case (Inr hd')
        then have "snap_entries snap' = snap_entries snap @ [record_of cr stem x m]" "s' = s2"
          using run ext True q Some x h hdr(3) len64_file_bytes [OF cr x(2)]
          by (auto simp: load_index_entry_def Let_def fs_metadata_quiet record_of_def)
        with s2 name True Some x show ?thesis by (auto intro: same_dir_shrinks same_dir_touches)
      qed
    qed
  qed
qed

text \<open>The index built from the files that are intact, in the order they are listed.\<close>

definition listed :: "crypto \<Rightarrow> fs \<Rightarrow> store_record \<Rightarrow> bool" where
  "listed cr s r \<longleftrightarrow> validate_file_key (rec_key r) = Inr () \<and>
     (\<exists>x m. map_of (fs_files s) (cache_name (rec_key r)) = Some (FsFile (file_bytes cr x) m) \<and>
        r = record_of cr (rec_key r) x m)"

lemma listed_elsewhere:
  "touches n s s' \<Longrightarrow> cache_name (rec_key r) \<noteq> n \<Longrightarrow> listed cr s r \<Longrightarrow> listed cr s' r"
  by (simp add: listed_def touches_def)

lemma load_index_loop_sound:
  assumes "file_inv cr order flt s" "distinct names" "load_index_loop names snap s = (r, s')"
    and "\<forall>e \<in> set (snap_entries snap). listed cr s e \<and> cache_name (rec_key e) \<notin> set names"
    and "distinct (map rec_key (snap_entries snap))"
  shows "shrinks s s' \<and> (\<forall>snap'. r = Inr snap' \<longrightarrow>
     distinct (map rec_key (snap_entries snap')) \<and> (\<forall>e \<in> set (snap_entries snap'). listed cr s' e) \<and>
     (\<forall>e \<in> set (snap_entries snap). e \<in> set (snap_entries snap')) \<and>
     ((\<forall>i. fs_faults s i = None) \<longrightarrow>
        (\<forall>k. cache_name k \<in> set names \<and> validate_file_key k = Inr () \<and> utf8_valid (as_bytes k) \<and>
             map_of (fs_files s) (cache_name k) \<noteq> None \<longrightarrow> k \<in> rec_key ` set (snap_entries snap'))))"
  using assms
proof (induction names arbitrary: snap s)
  case Nil
  then show ?case by (auto simp: same_dir_shrinks)
next
  case (Cons n names)
  obtain r1 s1 where c1: "fs_op (\<lambda>s. (Inr (), s)) s = (r1, s1)" by fastforce
  have d1: "same_dir s s1" using fs_op_idle [OF c1] .
  then have inv1: "file_inv cr order flt s1" using Cons.prems(1) same_dir_keeps by blast
  obtain snap2 s2 where c2: "load_index_entry n snap s1 = (snap2, s2)" by fastforce
  note e = load_index_entry_cases [OF inv1 c2]
  have sh: "shrinks s s2" using e same_dir_shrinks [OF d1] shrinks_trans by blast
  have inv2: "file_inv cr order flt s2" using shrinks_inv [OF sh Cons.prems(1)] .
  show ?case
  proof (cases r1)
    case (Inl err)
    with Cons.prems c1 d1 show ?thesis by (auto intro: same_dir_shrinks)
  next
    case (Inr u)
    then have l: "load_index_loop names snap2 s2 = (r, s')" using Cons.prems(3) c1 c2 by simp
    have old: "\<forall>e \<in> set (snap_entries snap). listed cr s2 e"
    proof
      fix x assume x: "x \<in> set (snap_entries snap)"
      then have "listed cr s1 x" using Cons.prems(4) d1 by (auto simp: listed_def same_dir_def)
      then show "listed cr s2 x" using listed_elsewhere e x Cons.prems(4) by auto
    qed
    have new: "snap_entries snap2 = snap_entries snap \<or> (\<exists>k x m. n = cache_name k \<and>
        validate_file_key k = Inr () \<and> map_of (fs_files s2) n = Some (FsFile (file_bytes cr x) m) \<and>
        snap_entries snap2 = snap_entries snap @ [record_of cr k x m])"
      using e unfolding same_dir_def by metis
    then have "\<forall>e \<in> set (snap_entries snap2). listed cr s2 e \<and> cache_name (rec_key e) \<notin> set names"
      "distinct (map rec_key (snap_entries snap2))"
      using old Cons.prems by (force simp: listed_def record_of_def validate_append_ext)+
    note ih = Cons.IH [OF inv2 _ l this]
    have mono: "set (snap_entries snap) \<subseteq> set (snap_entries snap2)" using new by auto
    have complete: "k \<in> rec_key ` set (snap_entries snap')"
      if "r = Inr snap'" "\<forall>i. fs_faults s i = None" "cache_name k \<in> set (n # names)"
        "validate_file_key k = Inr ()" "utf8_valid (as_bytes k)" "map_of (fs_files s) (cache_name k) \<noteq> None" for k snap'
    proof (cases "cache_name k = n")
      case True
      then have "k \<in> rec_key ` set (snap_entries snap2)"
        using e that d1 by (auto simp: same_dir_def record_of_def validate_append_ext)
      with ih Cons.prems(2) that(1) show ?thesis by auto
    next
      case False
      then have "map_of (fs_files s2) (cache_name k) \<noteq> None"
        using e that(6) d1 by (simp add: touches_def same_dir_def)
      moreover have "\<forall>i. fs_faults s2 i = None" using sh that(2) by (simp add: shrinks_def)
      ultimately show ?thesis using ih Cons.prems(2) that False by simp
    qed
    have "shrinks s s'" using ih Cons.prems(2) sh shrinks_trans by (meson distinct.simps(2))
    with ih mono complete Cons.prems(2) show ?thesis by auto
  qed
qed

lemma file_load_index_contract:
  assumes inv: "file_inv cr order flt s" and run: "file_load_index order s = (r, s')"
  shows "file_inv cr order flt s' \<and> (\<forall>snap. r = Inr snap \<longrightarrow>
     distinct (map rec_key (snap_entries snap)) \<and> (\<forall>e \<in> set (snap_entries snap). listed cr s' e) \<and>
     ((\<forall>i. fs_faults s i = None) \<longrightarrow>
        (\<forall>k. utf8_valid (as_bytes k) \<and> file_view s k \<noteq> None \<longrightarrow> k \<in> rec_key ` set (snap_entries snap))))"
proof -
  obtain r1 s1 where c1: "fs_op (\<lambda>s. (Inr (), s)) s = (r1, s1)" by fastforce
  have d1: "same_dir s s1" using fs_op_idle [OF c1] .
  then have inv1: "file_inv cr order flt s1" using inv same_dir_keeps by blast
  show ?thesis
  proof (cases r1)
    case (Inl e)
    with run c1 inv1 show ?thesis by (auto simp: file_load_index_def)
  next
    case (Inr u)
    let ?names = "order (map fst (fs_files s1))"
    have l: "load_index_loop ?names \<lparr> snap_entries = [], snap_corruptions = 0 \<rparr> s1 = (r, s')"
      using run c1 Inr by (simp add: file_load_index_def)
    have ord: "distinct ?names" "set ?names = set (map fst (fs_files s1))"
      using inv1 by (auto simp: file_inv_def hash_order_ok_def hm_ok_def)
    have "cache_name k \<in> set ?names \<and> validate_file_key k = Inr () \<and>
        map_of (fs_files s1) (cache_name k) \<noteq> None" if "file_view s k \<noteq> None" for k
    proof -
      have m: "map_of (fs_files s1) (cache_name k) \<noteq> None" "validate_file_key k = Inr ()"
        using that d1 by (auto simp: file_view_def same_dir_def isl_def split: if_splits option.splits)
          (metis isl_def obj_sumE old.unit.exhaust)
      then have "cache_name k \<in> set ?names" unfolding ord(2)
        by (metis map_of_eq_None_iff set_map)
      with m show ?thesis by blast
    qed
    with load_index_loop_sound [OF inv1 ord(1) l] shrinks_inv inv1 d1 show ?thesis
      by (auto simp: same_dir_def)
  qed
qed

lemma file_load_index_keeps:
  assumes inv: "file_inv cr order flt s" and run: "file_load_index order s = (r, s')"
    and "file_view s' k \<noteq> None"
  shows "file_view s' k = file_view s k"
proof -
  obtain r1 s1 where c1: "fs_op (\<lambda>s. (Inr (), s)) s = (r1, s1)" by fastforce
  have d1: "same_dir s s1" using fs_op_idle [OF c1] .
  then have inv1: "file_inv cr order flt s1" using inv same_dir_keeps by blast
  have "shrinks s s'"
  proof (cases r1)
    case (Inl e)
    with run c1 d1 show ?thesis by (auto simp: file_load_index_def intro: same_dir_shrinks)
  next
    case (Inr u)
    then have l: "load_index_loop (order (map fst (fs_files s1))) \<lparr> snap_entries = [], snap_corruptions = 0 \<rparr> s1 = (r, s')"
      using run c1 by (simp add: file_load_index_def)
    have "distinct (order (map fst (fs_files s1)))"
      using inv1 by (auto simp: file_inv_def hash_order_ok_def hm_ok_def)
    from load_index_loop_sound [OF inv1 this l] show ?thesis
      using same_dir_shrinks [OF d1] shrinks_trans by simp
  qed
  then have "map_of (fs_files s') (cache_name k) = map_of (fs_files s) (cache_name k) \<or>
      map_of (fs_files s') (cache_name k) = None" by (simp add: shrinks_def)
  with assms(3) show ?thesis by (auto simp: file_view_def)
qed

lemma listed_describes:
  assumes "crypto_ok cr" "listed cr s r"
  shows "\<exists>x. file_view s (rec_key r) = Some x \<and> describes r x \<and> rec_stored_bytes r = len64 (file_bytes cr x)"
proof -
  from assms(2) obtain x m where x: "map_of (fs_files s) (cache_name (rec_key r)) = Some (FsFile (file_bytes cr x) m)"
      "r = record_of cr (rec_key r) x m" "validate_file_key (rec_key r) = Inr ()"
    by (auto simp: listed_def)
  then have "file_view s (rec_key r) = Some x" using assms(1) by (simp add: file_view_def)
  moreover have "describes r x" "rec_stored_bytes r = len64 (file_bytes cr x)"
    by (subst x(2), simp add: describes_def record_of_def)+
  ultimately show ?thesis by blast
qed

interpretation disk_indexed: indexed_store "file_vt cr order" file_view "file_inv cr order flt"
proof unfold_locales
  fix s s' snap e
  assume inv: "file_inv cr order flt s"
  show "file_inv cr order flt s'" if "ps_load_index (file_vt cr order) s = (Inl e, s')"
    using that file_load_index_contract [OF inv] by (simp add: file_vt_def)
  show "file_inv cr order flt s' \<and> index_sound (file_view s') (snap_entries snap)"
    if "ps_load_index (file_vt cr order) s = (Inr snap, s')"
  proof -
    have "crypto_ok cr" using inv by (simp add: file_inv_def)
    with that file_load_index_contract [OF inv, of "Inr snap" s'] listed_describes show ?thesis
      by (fastforce simp: file_vt_def index_sound_def)
  qed
qed

section \<open>Reading what was written\<close>

lemma word_le_1_iff: "(b::u8) \<le> 1 \<longleftrightarrow> b = 0 \<or> b = 1"
  by (auto simp: word_le_nat_alt word_unat_eq_iff)

lemma file_read_Inr:
  "file_read n h = (Inr bs, h') \<Longrightarrow> length bs = n \<and> fst h = bs @ fst h' \<and> same_dir (snd h) (snd h')"
  by (auto simp: file_read_def fs_op_def Let_def read_exact_def same_dir_def
      split: option.splits prod.splits if_splits)

lemma read_u64_Inr:
  "read_u64 h = (Inr w, h') \<Longrightarrow> fst h = u64_le w @ fst h' \<and> same_dir (snd h) (snd h')"
  by (auto simp: read_u64_def io_simps dest!: file_read_Inr)

lemma read_header_Inr:
  assumes "read_header_from h = (Inr hdr, h')"
  shows "fst h = magic @ u64_le (hdr_expires_at hdr) @ [bool_byte (hdr_pinned hdr)] @
           u64_le (hdr_payload_len hdr) @ hdr_checksum hdr @ fst h'"
proof -
  from assms obtain e h1 h2 p h3 l h4 c where
    step: "file_read 8 h = (Inr magic, h1)" "read_u64 h1 = (Inr e, h2)" "file_read 1 h2 = (Inr p, h3)"
      "\<not> p ! 0 > 1" "read_u64 h3 = (Inr l, h4)" "file_read 32 h4 = (Inr c, h')" and
    h: "hdr = \<lparr> hdr_expires_at = e, hdr_pinned = (p ! 0 = 1), hdr_payload_len = l, hdr_checksum = c \<rparr>"
    by (auto simp: read_header_from_def io_simps split: if_splits)
  obtain b where b: "p = [b]" using file_read_Inr [OF step(3)] by (auto simp: length_Suc_conv)
  have "b = bool_byte (b = 1)"
    using step(4) b by (auto simp: bool_byte_def not_less word_le_1_iff)
  with step b h show ?thesis
    by (auto dest!: file_read_Inr read_u64_Inr)
qed

lemma read_payload_Inr:
  assumes "read_payload cr hdr h = (Inr y, h')"
  shows "\<exists>payload. fst h = payload @ fst h' \<and> len64 payload = hdr_payload_len hdr \<and>
    hdr_checksum hdr = sha256 cr payload \<and>
    y = Some \<lparr> entry_value = payload, entry_expires_at = hdr_expires_at hdr, entry_pinned = hdr_pinned hdr \<rparr>"
  using assms
  by (auto simp: read_payload_def io_simps len64_def split: if_splits dest!: file_read_Inr)

lemma fs_exists_files: "fs_exists n s = (b, s1) \<Longrightarrow> same_dir s s1"
  by (auto simp: fs_exists_def fs_metadata_def Let_def same_dir_def split: option.splits)

lemma fs_open_Inr:
  "fs_open n s = (Inr bs, s') \<Longrightarrow> \<exists>m. map_of (fs_files s) n = Some (FsFile bs m)"
  by (auto simp: fs_open_def fs_op_def Let_def split: option.splits fs_node.splits)

section \<open>Properties\<close>

text \<open>
  C9: whatever bytes the directory holds and whichever calls fail, an entry that \<open>FileStore::get\<close>
  returns is the one its file encodes: the file starts with exactly the bytes
  \<open>put_if_absent\<close> writes for that entry, the checksum of its payload included.
\<close>

theorem file_get_returns_what_the_file_encodes:
  assumes "file_get cr key s = (Inr (Some x), s')"
  shows "\<exists>m rest. map_of (fs_files s) (cache_name key) = Some (FsFile (file_bytes cr x @ rest) m)"
proof -
  from assms have path: "path_for key = Inr (cache_name key)"
    by (cases "validate_file_key key") (auto simp: file_get_def path_for_def)
  with assms obtain s1 bs s2 hdr h rest where
    ex: "fs_exists (cache_name key) s = (True, s1)" and
    opn: "fs_open (cache_name key) s1 = (Inr bs, s2)" and
    rh: "read_header_from (bs, s2) = (Inr hdr, h)" and
    pay: "read_payload cr hdr h = (Inr (Some x), (rest, s'))"
    by (auto simp: file_get_def io_simps close_file_eq split: prod.splits if_splits)
  from opn obtain m where m: "map_of (fs_files s1) (cache_name key) = Some (FsFile bs m)"
    using fs_open_Inr by blast
  from read_payload_Inr [OF pay] read_header_Inr [OF rh]
  have "bs = file_bytes cr x @ rest" by (auto simp: file_bytes_layout)
  with m fs_exists_files [OF ex] show ?thesis by (auto simp: same_dir_def)
qed

definition demo_dir :: fs where
  "demo_dir = \<lparr> fs_files = [], fs_faults = (\<lambda>_. None), fs_ops = 0, fs_stat_faults = (\<lambda>_. None),
     fs_stats = 0, fs_now = 5, fs_pid = 42, temp_nonce = 0 \<rparr>"

definition demo_full_dir :: fs where
  "demo_full_dir = demo_dir\<lparr> fs_files :=
     [(''k.rivetcache'', FsFile (file_bytes demo_crypto demo_entry @ [9]) 5)] \<rparr>"

theorem file_get_returns_what_the_file_encodes_witness:
  "\<exists>m rest. map_of (fs_files demo_full_dir) (cache_name ''k'') =
     Some (FsFile (file_bytes demo_crypto demo_entry @ rest) m)"
proof -
  have "fst (file_get demo_crypto ''k'' demo_full_dir) = Inr (Some demo_entry)" by code_simp
  then show ?thesis using file_get_returns_what_the_file_encodes by (metis prod.collapse)
qed


lemma demo_dir_inv: "file_inv demo_crypto (\<lambda>ks. ks) (\<lambda>_. None) demo_dir"
  by (simp add: file_inv_def demo_dir_def demo_crypto_ok)


text \<open>
  When no system call fails, indexing the directory lists every stored key exactly once,
  with the expiry, the pin flag and the stored size of its entry.
\<close>

theorem file_index_lists_every_entry:
  assumes "file_inv cr order flt s"
    and "\<forall>i. fs_faults s i = None"
    and "file_load_index order s = (Inr snap, s')"
  shows "distinct (map rec_key (snap_entries snap)) \<and>
    (\<forall>k. utf8_valid (as_bytes k) \<and> file_view s k \<noteq> None \<longrightarrow> k \<in> rec_key ` set (snap_entries snap)) \<and>
    (\<forall>r \<in> set (snap_entries snap). \<exists>x. file_view s' (rec_key r) = Some x \<and> describes r x \<and>
       rec_stored_bytes r = sat_add header_len (len64 (entry_value x)))"
proof -
  have cr: "crypto_ok cr" using assms(1) by (simp add: file_inv_def)
  note c = file_load_index_contract [OF assms(1,3)]
  have size: "length (entry_value x) < 2 ^ 63" if "file_view s' k = Some x" for k x
  proof -
    from that obtain bs m where "map_of (fs_files s') (cache_name k) = Some (FsFile bs m)" "x = decode_file bs"
      by (auto simp: file_view_def split: if_splits option.splits fs_node.splits)
    moreover from this(1) c obtain y where "bs = file_bytes cr y" "length (entry_value y) < 2 ^ 63"
      unfolding file_inv_def by blast
    ultimately show ?thesis using cr by simp
  qed
  have "\<exists>x. file_view s' (rec_key r) = Some x \<and> describes r x \<and>
       rec_stored_bytes r = sat_add header_len (len64 (entry_value x))" if "r \<in> set (snap_entries snap)" for r
    using listed_describes [OF cr, of s' r] c that len64_file_bytes [OF cr size] by auto
  with c assms(2) show ?thesis by blast
qed

definition demo_stored_dir :: fs where
  "demo_stored_dir = demo_dir\<lparr> fs_files :=
     [(''k.rivetcache'', FsFile (file_bytes demo_crypto demo_entry) 5)] \<rparr>"

lemma demo_stored_dir_inv: "file_inv demo_crypto (\<lambda>ks. ks) (\<lambda>_. None) demo_stored_dir"
proof -
  have "length (entry_value demo_entry) < 2 ^ 63" by (simp add: demo_entry_def)
  then show ?thesis
    using demo_dir_inv unfolding file_inv_def demo_stored_dir_def
    by (simp add: hm_ok_def) blast
qed

theorem file_index_lists_every_entry_witness:
  "\<exists>snap s'. file_load_index (\<lambda>ks. ks) demo_stored_dir = (Inr snap, s') \<and>
     ''k'' \<in> rec_key ` set (snap_entries snap)"
proof -
  have "\<not> isl (fst (file_load_index (\<lambda>ks. ks) demo_stored_dir))" by code_simp
  then obtain snap s' where run: "file_load_index (\<lambda>ks. ks) demo_stored_dir = (Inr snap, s')"
    by (metis isl_def prod.collapse sum.collapse(2))
  have "\<forall>i. fs_faults demo_stored_dir i = None" by (simp add: demo_stored_dir_def demo_dir_def)
  moreover have "utf8_valid (as_bytes ''k'')" "file_view demo_stored_dir ''k'' \<noteq> None" by code_simp+
  ultimately show ?thesis
    using file_index_lists_every_entry [OF demo_stored_dir_inv _ run] run by blast
qed

end
