(* ===== verification/ContextCache.thy ===== *)
theory ContextCache
  imports FileStore
begin

text \<open>
  The bounded cache of \<open>src/lib.rs\<close>: a memory tier and an optional persistent tier behind one
  lock, with injected clock, key strategy, eviction policy and metrics. A call takes the
  configuration and the state and returns the result with the new state; the state reached by a
  failing call is kept. The clock is a stream of readings, metrics are a log of events, and the
  iteration orders of the two hash maps are parameters.
\<close>

section \<open>Data\<close>

record duration =
  dur_secs :: u64
  dur_nanos :: u32

definition dur_zero :: duration where
  "dur_zero = \<lparr> dur_secs = 0, dur_nanos = 0 \<rparr>"

definition dur_is_zero :: "duration \<Rightarrow> bool" where
  "dur_is_zero d = (dur_secs d = 0 \<and> dur_nanos d = 0)"

record cache_stats =
  st_memory_hits :: u64
  st_disk_hits :: u64
  st_misses :: u64
  st_writes :: u64
  st_memory_evictions :: u64
  st_disk_evictions :: u64
  st_expirations :: u64
  st_corruptions :: u64
  st_memory_entries :: u64
  st_disk_entries :: u64
  st_memory_bytes :: u64
  st_disk_bytes :: u64

definition stats_default :: cache_stats where
  "stats_default = \<lparr> st_memory_hits = 0, st_disk_hits = 0, st_misses = 0, st_writes = 0,
     st_memory_evictions = 0, st_disk_evictions = 0, st_expirations = 0, st_corruptions = 0,
     st_memory_entries = 0, st_disk_entries = 0, st_memory_bytes = 0, st_disk_bytes = 0 \<rparr>"

record memory_record =
  mem_value :: "u8 list"
  mem_expires_at :: u64
  mem_pinned :: bool
  mem_last_access :: u64

record cache_inner =
  memory :: "(string, memory_record) hmap"
  disk :: "(string, store_record) hmap"
  memory_bytes :: u64
  disk_bytes :: u64
  tick :: u64
  stats :: cache_stats

definition inner_default :: cache_inner where
  "inner_default = \<lparr> memory = [], disk = [], memory_bytes = 0, disk_bytes = 0, tick = 0,
     stats = stats_default \<rparr>"

record key_strategy =
  ks_make_key :: "string \<Rightarrow> string \<Rightarrow> string \<Rightarrow> string"
  ks_validate :: "string \<Rightarrow> unit io_result"

definition sha256_strategy :: "crypto \<Rightarrow> key_strategy" where
  "sha256_strategy cr = \<lparr> ks_make_key = sha256_make_key cr, ks_validate = sha256_validate \<rparr>"

text \<open>The configuration built by \<open>ContextCacheBuilder\<close>; it never changes after construction.\<close>

record 's cache_config =
  max_memory_bytes :: u64
  max_disk_bytes :: u64
  default_ttl :: duration
  store :: "'s persistent_store option"
  clock :: "nat \<Rightarrow> u64"
  key_strategy :: key_strategy
  eviction_policy :: "eviction_candidate list \<Rightarrow> nat option"
  map_order :: "string list \<Rightarrow> string list"

record 's cache =
  inner :: cache_inner
  cache_store :: 's
  clock_reads :: nat
  events :: "cache_event list"

definition builder_default :: "crypto \<Rightarrow> (nat \<Rightarrow> u64) \<Rightarrow> (string list \<Rightarrow> string list) \<Rightarrow> 's cache_config" where
  "builder_default cr system_clock order =
     \<lparr> max_memory_bytes = 0, max_disk_bytes = 0, default_ttl = dur_zero, store = None,
       clock = system_clock, key_strategy = sha256_strategy cr,
       eviction_policy = lru_choose_victim, map_order = order \<rparr>"

text \<open>The setters of the builder; the plain and the \<open>_arc\<close> form of each store the same component.\<close>

definition builder_memory_capacity :: "u64 \<Rightarrow> 's cache_config \<Rightarrow> 's cache_config" where
  "builder_memory_capacity bytes cfg = cfg\<lparr> max_memory_bytes := bytes \<rparr>"

definition builder_persistent_capacity :: "u64 \<Rightarrow> 's cache_config \<Rightarrow> 's cache_config" where
  "builder_persistent_capacity bytes cfg = cfg\<lparr> max_disk_bytes := bytes \<rparr>"

definition builder_default_ttl :: "duration \<Rightarrow> 's cache_config \<Rightarrow> 's cache_config" where
  "builder_default_ttl ttl cfg = cfg\<lparr> default_ttl := ttl \<rparr>"

definition builder_persistent_store :: "'s persistent_store \<Rightarrow> 's cache_config \<Rightarrow> 's cache_config" where
  "builder_persistent_store vt cfg = cfg\<lparr> store := Some vt \<rparr>"

definition builder_clock :: "(nat \<Rightarrow> u64) \<Rightarrow> 's cache_config \<Rightarrow> 's cache_config" where
  "builder_clock readings cfg = cfg\<lparr> clock := readings \<rparr>"

definition builder_key_strategy :: "key_strategy \<Rightarrow> 's cache_config \<Rightarrow> 's cache_config" where
  "builder_key_strategy strategy cfg = cfg\<lparr> key_strategy := strategy \<rparr>"

definition builder_eviction_policy ::
  "(eviction_candidate list \<Rightarrow> nat option) \<Rightarrow> 's cache_config \<Rightarrow> 's cache_config" where
  "builder_eviction_policy policy cfg = cfg\<lparr> eviction_policy := policy \<rparr>"

definition upd_inner :: "(cache_inner \<Rightarrow> cache_inner) \<Rightarrow> 's cache \<Rightarrow> 's cache" where
  "upd_inner f c = c\<lparr> inner := f (inner c) \<rparr>"

definition upd_stats :: "(cache_stats \<Rightarrow> cache_stats) \<Rightarrow> 's cache \<Rightarrow> 's cache" where
  "upd_stats f = upd_inner (\<lambda>i. i\<lparr> stats := f (stats i) \<rparr>)"

definition now_seconds :: "'s cache_config \<Rightarrow> 's cache \<Rightarrow> u64 \<times> 's cache" where
  "now_seconds cfg c = (clock cfg (clock_reads c), c\<lparr> clock_reads := Suc (clock_reads c) \<rparr>)"

definition record_event :: "cache_event \<Rightarrow> 's cache \<Rightarrow> 's cache" where
  "record_event e c = c\<lparr> events := events c @ [e] \<rparr>"

text \<open>\<open>if count > 0 { metrics.record(..) }\<close>.\<close>

definition record_count :: "u64 \<Rightarrow> (u64 \<Rightarrow> cache_event) \<Rightarrow> 's cache \<Rightarrow> 's cache" where
  "record_count n ev c = (if n > 0 then record_event (ev n) c else c)"

definition store_call :: "('s \<Rightarrow> 'a io_result \<times> 's) \<Rightarrow> 's cache \<Rightarrow> 'a io_result \<times> 's cache" where
  "store_call f c = (case f (cache_store c) of (r, s) \<Rightarrow> (r, c\<lparr> cache_store := s \<rparr>))"

section \<open>Helpers\<close>

definition next_tick :: "cache_inner \<Rightarrow> u64 \<times> cache_inner" where
  "next_tick i = (let t = sat_add (tick i) 1 in (t, i\<lparr> tick := t \<rparr>))"

definition is_expired :: "u64 \<Rightarrow> u64 \<Rightarrow> bool" where
  "is_expired expires_at now = (expires_at \<noteq> 0 \<and> expires_at \<le> now)"

definition is_corruption_error :: "io_error \<Rightarrow> bool" where
  "is_corruption_error e = (has_kind e InvalidData \<or> has_kind e UnexpectedEof)"

definition bump_misses :: "cache_stats \<Rightarrow> cache_stats" where
  "bump_misses st = st\<lparr> st_misses := sat_add (st_misses st) 1 \<rparr>"

definition bump_expirations :: "cache_stats \<Rightarrow> cache_stats" where
  "bump_expirations st = st\<lparr> st_expirations := sat_add (st_expirations st) 1 \<rparr>"

definition bump_corruptions :: "cache_stats \<Rightarrow> cache_stats" where
  "bump_corruptions st = st\<lparr> st_corruptions := sat_add (st_corruptions st) 1 \<rparr>"

section \<open>Insertion and eviction\<close>

definition remove_memory :: "string \<Rightarrow> cache_inner \<Rightarrow> cache_inner" where
  "remove_memory key i =
     (case map_of (memory i) key of
        None \<Rightarrow> i
      | Some r \<Rightarrow> i\<lparr> memory := AList.delete key (memory i),
                     memory_bytes := sat_sub (memory_bytes i) (len64 (mem_value r)) \<rparr>)"

definition remove_disk_index :: "string \<Rightarrow> cache_inner \<Rightarrow> cache_inner" where
  "remove_disk_index key i =
     (case map_of (disk i) key of
        None \<Rightarrow> i
      | Some r \<Rightarrow> i\<lparr> disk := AList.delete key (disk i),
                     disk_bytes := sat_sub (disk_bytes i) (rec_stored_bytes r) \<rparr>)"

definition insert_memory_locked ::
  "string \<Rightarrow> u8 list \<Rightarrow> u64 \<Rightarrow> bool \<Rightarrow> cache_inner \<Rightarrow> cache_inner" where
  "insert_memory_locked key v expires_at pinned i =
     (let (t, i1) = next_tick (remove_memory key i) in
      i1\<lparr> memory_bytes := sat_add (memory_bytes i1) (len64 v),
          memory := AList.update key \<lparr> mem_value = v, mem_expires_at = expires_at,
                      mem_pinned = pinned, mem_last_access = t \<rparr> (memory i1) \<rparr>)"

definition memory_candidates :: "(string list \<Rightarrow> string list) \<Rightarrow> cache_inner \<Rightarrow> eviction_candidate list" where
  "memory_candidates order i =
     map (\<lambda>(key, r). \<lparr> cand_key = key, cand_last_access = mem_last_access r,
                       cand_size_bytes = len64 (mem_value r) \<rparr>)
       (filter (\<lambda>(_, r). \<not> mem_pinned r) (hm_iter order (memory i)))"

definition disk_candidates :: "(string list \<Rightarrow> string list) \<Rightarrow> cache_inner \<Rightarrow> eviction_candidate list" where
  "disk_candidates order i =
     map (\<lambda>(key, r). \<lparr> cand_key = key, cand_last_access = rec_last_access r,
                       cand_size_bytes = rec_stored_bytes r \<rparr>)
       (filter (\<lambda>(_, r). \<not> rec_pinned r) (hm_iter order (disk i)))"

text \<open>The key the policy picks; an index out of range ends the loop like no choice at all.\<close>

definition chosen_key :: "'s cache_config \<Rightarrow> eviction_candidate list \<Rightarrow> string option" where
  "chosen_key cfg cs =
     (case eviction_policy cfg cs of
        None \<Rightarrow> None
      | Some ix \<Rightarrow> if ix < length cs then Some (cand_key (cs ! ix)) else None)"

lemma chosen_key_candidate: "chosen_key cfg cs = Some k \<Longrightarrow> k \<in> cand_key ` set cs"
  by (auto simp: chosen_key_def split: option.splits if_splits)

lemma memory_candidate_resident:
  "k \<in> cand_key ` set (memory_candidates order i) \<Longrightarrow>
   \<exists>r. map_of (memory i) k = Some r \<and> \<not> mem_pinned r"
  by (auto simp: memory_candidates_def dest: hm_iter_member)

lemma disk_candidate_resident:
  "k \<in> cand_key ` set (disk_candidates order i) \<Longrightarrow>
   \<exists>r. map_of (disk i) k = Some r \<and> \<not> rec_pinned r"
  by (auto simp: disk_candidates_def dest: hm_iter_member)

function evict_memory_locked :: "'s cache_config \<Rightarrow> u64 \<Rightarrow> cache_inner \<Rightarrow> u64 \<times> cache_inner" where
  "evict_memory_locked cfg evicted i =
     (if memory_bytes i > max_memory_bytes cfg then
        (case chosen_key cfg (memory_candidates (map_order cfg) i) of
           None \<Rightarrow> (evicted, i)
         | Some key \<Rightarrow>
             (let i1 = remove_memory key i;
                  i2 = i1\<lparr> stats := (stats i1)\<lparr> st_memory_evictions :=
                             sat_add (st_memory_evictions (stats i1)) 1 \<rparr> \<rparr> in
              evict_memory_locked cfg (sat_add evicted 1) i2))
      else (evicted, i))"
  by pat_completeness auto
termination
proof (relation "measure (\<lambda>(cfg, evicted, i). length (memory i))", goal_cases)
  case 1
  show ?case by simp
next
  case (2 cfg evicted i key i1 i2)
  then obtain r where "map_of (memory i) key = Some r"
    using chosen_key_candidate memory_candidate_resident by blast
  with 2 show ?case by (simp add: remove_memory_def length_delete_less)
qed

definition remove_disk_record_locked ::
  "'s cache_config \<Rightarrow> string \<Rightarrow> bool \<Rightarrow> 's cache \<Rightarrow> unit io_result \<times> 's cache" where
  "remove_disk_record_locked cfg key expired c =
     (case map_of (disk (inner c)) key of
        None \<Rightarrow> (Inr (), c)
      | Some r \<Rightarrow>
          (let c1 = upd_inner (\<lambda>i. i\<lparr> disk := AList.delete key (disk i) \<rparr>) c in
           and_then (case store cfg of None \<Rightarrow> (Inr (), c1)
                                     | Some vt \<Rightarrow> store_call (ps_remove vt key) c1) (\<lambda>_ c2.
             (Inr (), (if expired then upd_stats bump_expirations else (\<lambda>c. c))
                (upd_inner (\<lambda>i. i\<lparr> disk_bytes := sat_sub (disk_bytes i) (rec_stored_bytes r) \<rparr>) c2)))))"

lemma disk_upd [simp]:
  "disk (inner (upd_stats f c)) = disk (inner c)"
  "inner (upd_inner g c) = g (inner c)"
  by (simp_all add: upd_stats_def upd_inner_def)

lemma store_call_inner: "store_call f c = (r, c') \<Longrightarrow> inner c' = inner c"
  by (auto simp: store_call_def split: prod.splits)

lemma remove_disk_record_shorter:
  assumes "remove_disk_record_locked cfg key expired c = (Inr u, c')"
    and "map_of (disk (inner c)) key = Some r"
  shows "length (disk (inner c')) < length (disk (inner c))"
  using assms length_delete_less [of "disk (inner c)" key r]
  by (auto simp: remove_disk_record_locked_def and_then_eq_Inr Let_def split: option.splits if_splits
      dest!: store_call_inner)

function evict_disk_locked :: "'s cache_config \<Rightarrow> u64 \<Rightarrow> 's cache \<Rightarrow> u64 io_result \<times> 's cache" where
  "evict_disk_locked cfg evicted c =
     (if disk_bytes (inner c) > max_disk_bytes cfg then
        (case chosen_key cfg (disk_candidates (map_order cfg) (inner c)) of
           None \<Rightarrow> (Inr evicted, c)
         | Some key \<Rightarrow>
             (case remove_disk_record_locked cfg key False c of
                (Inl e, c1) \<Rightarrow> (Inl e, c1)
              | (Inr _, c1) \<Rightarrow>
                  evict_disk_locked cfg (sat_add evicted 1)
                    (upd_stats (\<lambda>st. st\<lparr> st_disk_evictions := sat_add (st_disk_evictions st) 1 \<rparr>) c1)))
      else (Inr evicted, c))"
  by pat_completeness auto
termination
proof (relation "measure (\<lambda>(cfg, evicted, c). length (disk (inner c)))", goal_cases)
  case 1
  show ?case by simp
next
  case (2 cfg evicted c key res c1 u)
  then obtain r where "map_of (disk (inner c)) key = Some r"
    using chosen_key_candidate disk_candidate_resident by blast
  moreover have "remove_disk_record_locked cfg key False c = (Inr u, c1)" using 2 by simp
  ultimately show ?case using remove_disk_record_shorter by auto
qed

declare evict_memory_locked.simps [simp del] evict_disk_locked.simps [simp del]

section \<open>Construction\<close>

text \<open>The loop over the records of the loaded index.\<close>

fun load_records ::
  "'s persistent_store \<Rightarrow> u64 \<Rightarrow> store_record list \<Rightarrow> u64 \<Rightarrow> 's cache \<Rightarrow> u64 io_result \<times> 's cache" where
  "load_records vt now [] expiration_count c = (Inr expiration_count, c)"
| "load_records vt now (r # rs) expiration_count c =
     (if is_expired (rec_expires_at r) now then
        and_then (store_call (ps_remove vt (rec_key r)) c) (\<lambda>_ c1.
          load_records vt now rs (sat_add expiration_count 1) (upd_stats bump_expirations c1))
      else
        load_records vt now rs expiration_count
          (upd_inner (\<lambda>i. i\<lparr> tick := max (tick i) (rec_last_access r),
                             disk_bytes := sat_add (disk_bytes i) (rec_stored_bytes r),
                             disk := AList.update (rec_key r) r (disk i) \<rparr>) c))"

definition from_builder :: "'s cache_config \<Rightarrow> 's \<Rightarrow> unit io_result \<times> 's cache" where
  "from_builder cfg s =
     (let c0 = \<lparr> inner = inner_default, cache_store = s, clock_reads = 0, events = [] \<rparr> in
      and_then
        (if max_disk_bytes cfg > 0 then
           (case store cfg of
              None \<Rightarrow> (Inr (0, 0, 0), c0)
            | Some vt \<Rightarrow>
                and_then (store_call (ps_load_index vt) c0) (\<lambda>snapshot c1.
                  let (now, c2) = now_seconds cfg c1;
                      c3 = upd_stats (\<lambda>st. st\<lparr> st_corruptions :=
                             sat_add (st_corruptions st) (snap_corruptions snapshot) \<rparr>) c2 in
                  and_then (load_records vt now (snap_entries snapshot) 0 c3) (\<lambda>expiration_count c4.
                    and_then (evict_disk_locked cfg 0 c4) (\<lambda>eviction_count c5.
                      (Inr (snap_corruptions snapshot, expiration_count, eviction_count), c5)))))
         else (Inr (0, 0, 0), c0)) (\<lambda>(corruption_count, expiration_count, eviction_count) c.
        (Inr (), record_count eviction_count PersistentEviction
                   (record_count expiration_count Expiration
                     (record_count corruption_count Corruption c)))))"

text \<open>
  \<open>ContextCache::new\<close> selects the filesystem store only when a directory and a disk budget are
  given; the directory is created by \<open>FileStore::new\<close>, whose outcome is an argument.
\<close>

definition cache_new ::
  "crypto \<Rightarrow> (nat \<Rightarrow> u64) \<Rightarrow> (string list \<Rightarrow> string list) \<Rightarrow> fs io_result option
   \<Rightarrow> u64 \<Rightarrow> u64 \<Rightarrow> duration \<Rightarrow> fs \<Rightarrow> (fs cache_config \<times> fs cache) io_result" where
  "cache_new cr system_clock order root max_memory max_disk ttl no_store =
     (let cfg = builder_default_ttl ttl (builder_persistent_capacity max_disk
                  (builder_memory_capacity max_memory (builder_default cr system_clock order)));
          build = (\<lambda>cfg s. case from_builder cfg s of (Inl e, _) \<Rightarrow> Inl e | (Inr _, c) \<Rightarrow> Inr (cfg, c)) in
      if max_disk > 0 then
        (case root of
           Some dir \<Rightarrow> result_bind dir (\<lambda>s. build (builder_persistent_store (file_vt cr order) cfg) s)
         | None \<Rightarrow> build cfg no_store)
      else build cfg no_store)"

definition make_key :: "'s cache_config \<Rightarrow> string \<Rightarrow> string \<Rightarrow> string \<Rightarrow> string" where
  "make_key cfg namespace model_fingerprint payload =
     ks_make_key (key_strategy cfg) namespace model_fingerprint payload"

section \<open>Operations\<close>

text \<open>A miss that drops the index entry, without counting an expiration.\<close>

definition drop_index_miss :: "string \<Rightarrow> 's cache \<Rightarrow> 's cache" where
  "drop_index_miss key c = upd_stats bump_misses (upd_inner (remove_disk_index key) c)"

text \<open>The corrupt entry is removed from the store and the index; the read is a miss.\<close>

definition discard_corrupt ::
  "'s persistent_store \<Rightarrow> string \<Rightarrow> 's cache \<Rightarrow> u8 list option io_result \<times> 's cache" where
  "discard_corrupt vt key c =
     and_then (store_call (ps_remove vt key) c) (\<lambda>_ c1.
       (Inr None, record_event Miss (record_event (Corruption 1)
                    (upd_stats bump_misses (upd_stats bump_corruptions
                      (upd_inner (remove_disk_index key) c1))))))"

text \<open>The guarded insertion into memory that reads and writes share.\<close>

definition put_memory ::
  "'s cache_config \<Rightarrow> string \<Rightarrow> u8 list \<Rightarrow> u64 \<Rightarrow> bool \<Rightarrow> cache_inner \<Rightarrow> u64 \<times> cache_inner" where
  "put_memory cfg key v expires_at pinned i =
     (if max_memory_bytes cfg > 0 \<and> len64 v \<le> max_memory_bytes cfg
      then evict_memory_locked cfg 0 (insert_memory_locked key v expires_at pinned i)
      else (0, i))"

definition touch_disk :: "string \<Rightarrow> cache_inner \<Rightarrow> cache_inner" where
  "touch_disk key i =
     (let (t, i1) = next_tick i in
      case map_of (disk i1) key of
        None \<Rightarrow> i1
      | Some r \<Rightarrow> i1\<lparr> disk := AList.update key (r\<lparr> rec_last_access := t \<rparr>) (disk i1) \<rparr>)"

text \<open>A hit in the persistent tier, promoted to memory when it fits.\<close>

definition persistent_hit ::
  "'s cache_config \<Rightarrow> string \<Rightarrow> u64 \<Rightarrow> stored_entry \<Rightarrow> 's cache \<Rightarrow> u8 list option io_result \<times> 's cache" where
  "persistent_hit cfg key expiration_count entry c =
     (let c1 = upd_stats (\<lambda>st. st\<lparr> st_disk_hits := sat_add (st_disk_hits st) 1 \<rparr>)
                 (upd_inner (touch_disk key) c);
          (memory_evictions, i2) =
            put_memory cfg key (entry_value entry) (entry_expires_at entry) (entry_pinned entry) (inner c1) in
      (Inr (Some (entry_value entry)),
       record_event PersistentHit
         (record_count memory_evictions MemoryEviction
           (record_count expiration_count Expiration (c1\<lparr> inner := i2 \<rparr>)))))"

definition get_persistent ::
  "'s cache_config \<Rightarrow> string \<Rightarrow> u64 \<Rightarrow> u64 \<Rightarrow> 's cache \<Rightarrow> u8 list option io_result \<times> 's cache" where
  "get_persistent cfg key now expiration_count c =
     (case map_of (disk (inner c)) key of
        None \<Rightarrow>
          (Inr None, record_event Miss (record_count expiration_count Expiration (upd_stats bump_misses c)))
      | Some disk_record \<Rightarrow>
          if is_expired (rec_expires_at disk_record) now then
            and_then (remove_disk_record_locked cfg key True c) (\<lambda>_ c1.
              (Inr None, record_event Miss (record_event (Expiration (sat_add expiration_count 1))
                           (upd_stats bump_misses c1))))
          else (case store cfg of
              None \<Rightarrow> (Inr None, record_event Miss (drop_index_miss key c))
            | Some vt \<Rightarrow>
                (case store_call (ps_get vt key) c of
                   (Inr None, c1) \<Rightarrow> (Inr None, record_event Miss (drop_index_miss key c1))
                 | (Inl e, c1) \<Rightarrow> if is_corruption_error e then discard_corrupt vt key c1 else (Inl e, c1)
                 | (Inr (Some entry), c1) \<Rightarrow>
                     if entry_expires_at entry \<noteq> rec_expires_at disk_record \<or>
                        entry_pinned entry \<noteq> rec_pinned disk_record
                     then discard_corrupt vt key c1
                     else persistent_hit cfg key expiration_count entry c1)))"

definition memory_hit :: "string \<Rightarrow> memory_record \<Rightarrow> cache_inner \<Rightarrow> cache_inner" where
  "memory_hit key r i =
     (let (t, i1) = next_tick i in
      i1\<lparr> memory := AList.update key (r\<lparr> mem_last_access := t \<rparr>) (memory i1),
          stats := (stats i1)\<lparr> st_memory_hits := sat_add (st_memory_hits (stats i1)) 1 \<rparr> \<rparr>)"

definition cache_get :: "'s cache_config \<Rightarrow> string \<Rightarrow> 's cache \<Rightarrow> u8 list option io_result \<times> 's cache" where
  "cache_get cfg key c =
     check_then (ks_validate (key_strategy cfg) key) c (\<lambda>_.
       let (now, c1) = now_seconds cfg c in
       case map_of (memory (inner c1)) key of
         None \<Rightarrow> get_persistent cfg key now 0 c1
       | Some r \<Rightarrow>
           if is_expired (mem_expires_at r) now
           then get_persistent cfg key now 1 (upd_stats bump_expirations (upd_inner (remove_memory key) c1))
           else (Inr (Some (mem_value r)), record_event MemoryHit (upd_inner (memory_hit key r) c1)))"

definition put_expiry :: "u64 \<Rightarrow> duration \<Rightarrow> u64" where
  "put_expiry now ttl = (if dur_is_zero ttl then 0 else sat_add now (max (dur_secs ttl) 1))"

text \<open>An expired index entry is removed before the write; the result counts it.\<close>

definition expire_disk :: "'s cache_config \<Rightarrow> string \<Rightarrow> u64 \<Rightarrow> 's cache \<Rightarrow> u64 io_result \<times> 's cache" where
  "expire_disk cfg key now c =
     (case map_of (disk (inner c)) key of
        None \<Rightarrow> (Inr 0, c)
      | Some existing \<Rightarrow>
          if is_expired (rec_expires_at existing) now
          then and_then (remove_disk_record_locked cfg key True c) (\<lambda>_ c1. (Inr (sat_add 0 1), c1))
          else (Inr 0, c))"

definition index_inserted :: "string \<Rightarrow> u64 \<Rightarrow> u64 \<Rightarrow> bool \<Rightarrow> cache_inner \<Rightarrow> cache_inner" where
  "index_inserted key stored_bytes expires_at pinned i =
     (let (t, i1) = next_tick i in
      i1\<lparr> disk_bytes := sat_add (disk_bytes i1) stored_bytes,
          disk := AList.update key
            \<lparr> rec_key = key, rec_stored_bytes = stored_bytes, rec_expires_at = expires_at,
              rec_pinned = pinned, rec_last_access = t \<rparr> (disk i1) \<rparr>)"

text \<open>The write of a key that is not indexed; it returns the number of evictions.\<close>

definition insert_disk ::
  "'s cache_config \<Rightarrow> 's persistent_store \<Rightarrow> string \<Rightarrow> stored_entry \<Rightarrow> 's cache \<Rightarrow> u64 io_result \<times> 's cache" where
  "insert_disk cfg vt key entry c =
     and_then (store_call (ps_put_if_absent vt key entry) c) (\<lambda>outcome c1.
       if out_inserted outcome
       then evict_disk_locked cfg 0
              (upd_inner (index_inserted key (out_stored_bytes outcome) (entry_expires_at entry)
                            (entry_pinned entry)) c1)
       else (Inr 0, c1))"

text \<open>The write to the persistent tier; it returns the numbers of expirations and evictions.\<close>

definition put_persistent ::
  "'s cache_config \<Rightarrow> string \<Rightarrow> u8 list \<Rightarrow> u64 \<Rightarrow> bool \<Rightarrow> u64 \<Rightarrow> 's cache \<Rightarrow> (u64 \<times> u64) io_result \<times> 's cache" where
  "put_persistent cfg key v expires_at pinned now c =
     (if max_disk_bytes cfg > 0 \<and> len64 v \<le> max_disk_bytes cfg then
        (case store cfg of
           None \<Rightarrow> (Inr (0, 0), c)
         | Some vt \<Rightarrow>
             and_then (expire_disk cfg key now c) (\<lambda>expiration_count c1.
               if map_of (disk (inner c1)) key \<noteq> None then (Inr (expiration_count, 0), c1)
               else and_then (insert_disk cfg vt key
                       \<lparr> entry_value = v, entry_expires_at = expires_at, entry_pinned = pinned \<rparr> c1)
                     (\<lambda>disk_evictions c2. (Inr (expiration_count, disk_evictions), c2))))
      else (Inr (0, 0), c))"

definition cache_put ::
  "'s cache_config \<Rightarrow> string \<Rightarrow> u8 list \<Rightarrow> duration option \<Rightarrow> bool \<Rightarrow> 's cache \<Rightarrow> unit io_result \<times> 's cache" where
  "cache_put cfg key v ttl pinned c =
     check_then (ks_validate (key_strategy cfg) key) c (\<lambda>_.
       if v = [] then (Inr (), c)
       else
         (let (now, c1) = now_seconds cfg c;
              expires_at = put_expiry now (case ttl of Some d \<Rightarrow> d | None \<Rightarrow> default_ttl cfg) in
          and_then (put_persistent cfg key v expires_at pinned now c1)
            (\<lambda>(expiration_count, disk_evictions) c2.
               let (memory_evictions, i3) = put_memory cfg key v expires_at pinned (inner c2);
                   c4 = upd_stats (\<lambda>st. st\<lparr> st_writes := sat_add (st_writes st) 1 \<rparr>) (c2\<lparr> inner := i3 \<rparr>) in
               (Inr (), record_event WriteEvent
                          (record_count disk_evictions PersistentEviction
                            (record_count memory_evictions MemoryEviction
                              (record_count expiration_count Expiration c4)))))))"

fun cache_get_many ::
  "'s cache_config \<Rightarrow> string list \<Rightarrow> 's cache \<Rightarrow> u8 list option list io_result \<times> 's cache" where
  "cache_get_many cfg [] c = (Inr [], c)"
| "cache_get_many cfg (key # keys) c =
     and_then (cache_get cfg key c) (\<lambda>r c1.
       and_then (cache_get_many cfg keys c1) (\<lambda>rs c2. (Inr (r # rs), c2)))"

fun validate_all :: "'s cache_config \<Rightarrow> string list \<Rightarrow> unit io_result" where
  "validate_all cfg [] = Inr ()"
| "validate_all cfg (key # keys) =
     result_bind (ks_validate (key_strategy cfg) key) (\<lambda>_. validate_all cfg keys)"

fun put_each ::
  "'s cache_config \<Rightarrow> (string \<times> u8 list \<times> duration option \<times> bool) list \<Rightarrow> 's cache \<Rightarrow> unit io_result \<times> 's cache" where
  "put_each cfg [] c = (Inr (), c)"
| "put_each cfg ((key, v, ttl, pinned) # entries) c =
     and_then (cache_put cfg key v ttl pinned c) (\<lambda>_ c1. put_each cfg entries c1)"

definition cache_put_many ::
  "'s cache_config \<Rightarrow> (string \<times> u8 list \<times> duration option \<times> bool) list \<Rightarrow> 's cache \<Rightarrow> unit io_result \<times> 's cache" where
  "cache_put_many cfg entries c =
     check_then (validate_all cfg (map fst entries)) c (\<lambda>_. put_each cfg entries c)"

definition cache_invalidate :: "'s cache_config \<Rightarrow> string \<Rightarrow> 's cache \<Rightarrow> unit io_result \<times> 's cache" where
  "cache_invalidate cfg key c =
     check_then (ks_validate (key_strategy cfg) key) c (\<lambda>_.
       and_then (case store cfg of None \<Rightarrow> (Inr (), c) | Some vt \<Rightarrow> store_call (ps_remove vt key) c) (\<lambda>_ c1.
         (Inr (), record_event (Invalidation 1)
                    (upd_inner (remove_disk_index key) (upd_inner (remove_memory key) c1)))))"

fun invalidate_each :: "'s cache_config \<Rightarrow> string list \<Rightarrow> 's cache \<Rightarrow> unit io_result \<times> 's cache" where
  "invalidate_each cfg [] c = (Inr (), c)"
| "invalidate_each cfg (key # keys) c =
     and_then (cache_invalidate cfg key c) (\<lambda>_ c1. invalidate_each cfg keys c1)"

definition cache_invalidate_many :: "'s cache_config \<Rightarrow> string list \<Rightarrow> 's cache \<Rightarrow> unit io_result \<times> 's cache" where
  "cache_invalidate_many cfg keys c =
     check_then (validate_all cfg keys) c (\<lambda>_. invalidate_each cfg keys c)"

definition cache_clear :: "'s cache_config \<Rightarrow> 's cache \<Rightarrow> unit io_result \<times> 's cache" where
  "cache_clear cfg c =
     and_then (case store cfg of None \<Rightarrow> (Inr (), c) | Some vt \<Rightarrow> store_call (ps_clear vt) c) (\<lambda>_ c1.
       (Inr (), record_event ClearEvent (upd_inner (\<lambda>i. i\<lparr> memory := [], disk := [],
                  memory_bytes := 0, disk_bytes := 0 \<rparr>) c1)))"

definition cache_stats_of :: "'s cache \<Rightarrow> cache_stats" where
  "cache_stats_of c =
     (stats (inner c))\<lparr> st_memory_entries := len64 (memory (inner c)),
        st_disk_entries := len64 (disk (inner c)),
        st_memory_bytes := memory_bytes (inner c), st_disk_bytes := disk_bytes (inner c) \<rparr>"

section \<open>The memory tier\<close>

definition mem_size :: "memory_record \<Rightarrow> nat" where
  "mem_size r = length (mem_value r)"

text \<open>The byte counter is the number of resident bytes.\<close>

definition mem_accounted :: "cache_inner \<Rightarrow> bool" where
  "mem_accounted i \<longleftrightarrow> hm_ok (memory i) \<and> unat (memory_bytes i) = hm_sum mem_size (memory i)"

text \<open>The memory budget holds, unless everything left is pinned.\<close>

definition mem_bounded :: "'s cache_config \<Rightarrow> cache_inner \<Rightarrow> bool" where
  "mem_bounded cfg i \<longleftrightarrow> memory_bytes i \<le> max_memory_bytes cfg \<or>
     (\<forall>k r. map_of (memory i) k = Some r \<longrightarrow> mem_pinned r)"

definition same_mem :: "cache_inner \<Rightarrow> cache_inner \<Rightarrow> bool" where
  "same_mem i i' \<longleftrightarrow> memory i' = memory i \<and> memory_bytes i' = memory_bytes i"

lemma same_mem_refl [simp]: "same_mem i i"
  by (simp add: same_mem_def)

lemma same_mem_trans: "same_mem i j \<Longrightarrow> same_mem j k \<Longrightarrow> same_mem i k"
  by (simp add: same_mem_def)

lemma remove_memory_map [simp]: "map_of (memory (remove_memory key i)) = (map_of (memory i))(key := None)"
  by (auto simp: remove_memory_def hm_simps fun_eq_iff split: option.splits)

lemma len64_mem:
  assumes "mem_accounted i" "map_of (memory i) k = Some r"
  shows "unat (len64 (mem_value r)) = mem_size r"
proof -
  have "mem_size r \<le> hm_sum mem_size (memory i)"
    using assms hm_sum_member unfolding mem_accounted_def by metis
  also have "\<dots> < 2 ^ 64" using assms(1) unat64_bound [of "memory_bytes i"] by (simp add: mem_accounted_def)
  finally show ?thesis by (simp add: mem_size_def sat_simps)
qed

lemma remove_memory_accounted: "mem_accounted i \<Longrightarrow> mem_accounted (remove_memory key i)"
  using len64_mem [of i key] hm_sum_delete [of "memory i" key _ mem_size]
  by (auto simp: remove_memory_def mem_accounted_def sat_simps split: option.splits)

lemma remove_memory_sum:
  "hm_ok (memory i) \<Longrightarrow> hm_sum mem_size (memory (remove_memory key i)) \<le> hm_sum mem_size (memory i)"
  by (auto simp: remove_memory_def hm_sum_delete_le split: option.splits)

lemma remove_memory_bytes: "memory_bytes (remove_memory key i) \<le> memory_bytes i"
  by (auto simp: remove_memory_def word_le_nat_alt sat_simps split: option.splits)

lemma insert_memory_map [simp]:
  "map_of (memory (insert_memory_locked key v e p i)) =
     (map_of (memory i))(key \<mapsto> \<lparr> mem_value = v, mem_expires_at = e, mem_pinned = p,
                                mem_last_access = sat_add (tick i) 1 \<rparr>)"
  by (auto simp: insert_memory_locked_def next_tick_def Let_def hm_simps remove_memory_def fun_eq_iff
      split: option.splits)

lemma insert_memory_accounted:
  assumes "mem_accounted i" "hm_sum mem_size (memory i) + length v < 2 ^ 64"
  shows "mem_accounted (insert_memory_locked key v e p i)"
proof -
  let ?i = "remove_memory key i"
  have acc: "mem_accounted ?i" using remove_memory_accounted [OF assms(1)] .
  have absent: "map_of (memory ?i) key = None" by simp
  have "hm_sum mem_size (memory ?i) + length v < 2 ^ 64"
    using remove_memory_sum [of i key] assms by (simp add: mem_accounted_def)
  then show ?thesis
    using acc absent
    by (simp add: insert_memory_locked_def next_tick_def Let_def mem_accounted_def sat_simps
        hm_sum_update hm_simps mem_size_def)
qed

subsection \<open>Eviction\<close>

text \<open>What the loop may do under any policy: it only drops records that are not pinned.\<close>

definition evicted_from :: "cache_inner \<Rightarrow> cache_inner \<Rightarrow> bool" where
  "evicted_from i i' \<longleftrightarrow>
     (\<forall>k. map_of (memory i') k = map_of (memory i) k \<or>
          map_of (memory i') k = None \<and> (\<exists>r. map_of (memory i) k = Some r \<and> \<not> mem_pinned r))"

lemma evict_memory_step:
  assumes "chosen_key cfg (memory_candidates order i) = Some key"
  obtains r where "map_of (memory i) key = Some r" "\<not> mem_pinned r"
  using memory_candidate_resident [OF chosen_key_candidate [OF assms]] by blast

lemma evict_memory_frame:
  assumes "evict_memory_locked cfg n i = (n', i')"
  shows "evicted_from i i' \<and> (mem_accounted i \<longrightarrow> mem_accounted i') \<and>
    disk i' = disk i \<and> disk_bytes i' = disk_bytes i \<and> tick i' = tick i \<and> (hm_ok (memory i) \<longrightarrow> hm_ok (memory i'))"
  using assms
proof (induction cfg n i rule: evict_memory_locked.induct)
  case (1 cfg n i)
  show ?case
  proof (cases "max_memory_bytes cfg < memory_bytes i \<and>
      chosen_key cfg (memory_candidates (map_order cfg) i) \<noteq> None")
    case False
    with 1(2) have "i' = i" by (subst (asm) evict_memory_locked.simps) (auto split: if_splits option.splits)
    then show ?thesis by (simp add: evicted_from_def)
  next
    case True
    then obtain key where key: "chosen_key cfg (memory_candidates (map_order cfg) i) = Some key" by auto
    let ?j = "remove_memory key i"
    let ?k = "?j\<lparr> stats := (stats ?j)\<lparr> st_memory_evictions := sat_add (st_memory_evictions (stats ?j)) 1 \<rparr> \<rparr>"
    obtain r where r: "map_of (memory i) key = Some r" "\<not> mem_pinned r" by (rule evict_memory_step [OF key])
    have "evict_memory_locked cfg (sat_add n 1) ?k = (n', i')"
      using 1(2) True key by (subst (asm) evict_memory_locked.simps) (simp add: Let_def)
    with 1(1) [OF _ key refl refl] True have ih: "evicted_from ?k i'" "mem_accounted ?k \<longrightarrow> mem_accounted i'"
        "disk i' = disk ?k" "disk_bytes i' = disk_bytes ?k" "tick i' = tick ?k"
        "hm_ok (memory ?k) \<longrightarrow> hm_ok (memory i')"
      by blast+
    have "evicted_from i i'"
      using ih(1) r unfolding evicted_from_def by (simp del: not_None_eq) (metis fun_upd_apply)
    moreover have "mem_accounted ?k" if "mem_accounted i"
      using remove_memory_accounted [OF that, of key] by (simp add: mem_accounted_def)
    ultimately show ?thesis using ih by (auto simp: remove_memory_def split: option.splits)
  qed
qed

text \<open>A lawful policy that picks nothing was offered nothing.\<close>

lemma chosen_none:
  "lawful_eviction (eviction_policy cfg) \<Longrightarrow> chosen_key cfg cs = None \<Longrightarrow> cs = []"
  using lawful_eviction.choose_in_range lawful_eviction.choose_total
  by (fastforce simp: chosen_key_def split: option.splits if_splits)

lemma no_memory_candidates:
  assumes "memory_candidates order i = []" "hash_order_ok order" "hm_ok (memory i)"
    and "map_of (memory i) k = Some r"
  shows "mem_pinned r"
  using assms set_hm_iter [of order "memory i"] map_of_in_hm [of "memory i" k r]
  by (auto simp: memory_candidates_def filter_empty_conv)

lemma evict_memory_bounded:
  assumes "lawful_eviction (eviction_policy cfg)" "hash_order_ok (map_order cfg)"
    and "evict_memory_locked cfg n i = (n', i')" "hm_ok (memory i)"
  shows "mem_bounded cfg i'"
  using assms
proof (induction cfg n i rule: evict_memory_locked.induct)
  case (1 cfg n i)
  show ?case
  proof (cases "chosen_key cfg (memory_candidates (map_order cfg) i)")
    case None
    then have "i' = i" using 1(4) by (subst (asm) evict_memory_locked.simps) (auto split: if_splits)
    then show ?thesis
      using no_memory_candidates [OF chosen_none [OF 1(2) None] 1(3,5)] by (auto simp: mem_bounded_def)
  next
    case (Some key)
    let ?j = "remove_memory key i"
    let ?k = "?j\<lparr> stats := (stats ?j)\<lparr> st_memory_evictions := sat_add (st_memory_evictions (stats ?j)) 1 \<rparr> \<rparr>"
    show ?thesis
    proof (cases "max_memory_bytes cfg < memory_bytes i")
      case True
      then have "evict_memory_locked cfg (sat_add n 1) ?k = (n', i')"
        using 1(4) Some by (subst (asm) evict_memory_locked.simps) (simp add: Let_def)
      moreover have "hm_ok (memory ?k)" using 1(5) by (auto simp: remove_memory_def split: option.splits)
      ultimately show ?thesis using 1(1) [OF True Some refl refl 1(2,3)] by blast
    next
      case False
      then have "i' = i" using 1(4) by (subst (asm) evict_memory_locked.simps) simp
      with False show ?thesis by (simp add: mem_bounded_def not_less)
    qed
  qed
qed

text \<open>Least recently used first, along the whole loop.\<close>

lemma lru_chosen_least:
  assumes lru: "eviction_policy cfg = lru_choose_victim" and ord: "hash_order_ok order"
    and "hm_ok (memory i)" and key: "chosen_key cfg (memory_candidates order i) = Some key"
    and r: "map_of (memory i) key = Some r" and r': "map_of (memory i) k = Some r'" "\<not> mem_pinned r'"
  shows "mem_last_access r \<le> mem_last_access r'"
proof -
  let ?cs = "memory_candidates order i"
  from key lru obtain ix where ix: "lru_choose_victim ?cs = Some ix" "cand_key (?cs ! ix) = key"
    by (auto simp: chosen_key_def split: option.splits if_splits)
  note least = lru_Some [OF ix(1)]
  have cand: "cand_last_access c = mem_last_access q"
    if "c \<in> set ?cs" "map_of (memory i) (cand_key c) = Some q" for c q
    using that by (auto simp: memory_candidates_def dest: hm_iter_member)
  have "(k, r') \<in> set (hm_iter order (memory i))"
    using set_hm_iter [OF ord assms(3)] map_of_SomeD [OF r'(1)] by simp
  then have "\<lparr> cand_key = k, cand_last_access = mem_last_access r', cand_size_bytes = len64 (mem_value r') \<rparr> \<in> set ?cs"
    using r'(2) by (force simp: memory_candidates_def)
  then obtain j where "j < length ?cs" "cand_last_access (?cs ! j) = mem_last_access r'"
    by (metis eviction_candidate.select_convs(2) in_set_conv_nth)
  moreover have "cand_last_access (?cs ! ix) = mem_last_access r"
    using cand [of "?cs ! ix" r] least ix(2) r by simp
  ultimately show ?thesis using least by metis
qed

lemma evict_memory_lru:
  assumes "eviction_policy cfg = lru_choose_victim" "hash_order_ok (map_order cfg)"
    and "evict_memory_locked cfg n i = (n', i')" "hm_ok (memory i)"
    and "map_of (memory i) k = Some r" "map_of (memory i') k = None"
    and "map_of (memory i') k' = Some r'" "\<not> mem_pinned r'"
  shows "mem_last_access r \<le> mem_last_access r'"
  using assms
proof (induction cfg n i rule: evict_memory_locked.induct)
  case (1 cfg n i)
  show ?case
  proof (cases "max_memory_bytes cfg < memory_bytes i \<and>
      chosen_key cfg (memory_candidates (map_order cfg) i) \<noteq> None")
    case False
    with 1(4) have "i' = i" by (subst (asm) evict_memory_locked.simps) (auto split: if_splits option.splits)
    with 1 show ?thesis by simp
  next
    case True
    then obtain key where key: "chosen_key cfg (memory_candidates (map_order cfg) i) = Some key" by auto
    let ?j = "remove_memory key i"
    let ?k = "?j\<lparr> stats := (stats ?j)\<lparr> st_memory_evictions := sat_add (st_memory_evictions (stats ?j)) 1 \<rparr> \<rparr>"
    have run: "evict_memory_locked cfg (sat_add n 1) ?k = (n', i')"
      using 1(4) True key by (subst (asm) evict_memory_locked.simps) (simp add: Let_def)
    have "map_of (memory i) k' = Some r'"
      using evict_memory_frame [OF 1(4)] 1(8) unfolding evicted_from_def by (metis option.distinct(1))
    note least = lru_chosen_least [OF 1(2,3,5) key _ this 1(9)]
    show ?thesis
    proof (cases "k = key")
      case True
      with least 1(6) show ?thesis by simp
    next
      case False
      have "hm_ok (memory ?k)" using 1(5) by (auto simp: remove_memory_def split: option.splits)
      moreover have "map_of (memory ?k) k = Some r" using False 1(6) by simp
      moreover have "max_memory_bytes cfg < memory_bytes i" using True by blast
      ultimately show ?thesis using 1(1) [OF _ key refl refl 1(2,3) run _ _ 1(7,8,9)] by blast
    qed
  qed
qed

subsection \<open>Effects of the operations on memory\<close>

inductive mem_effect :: "'s cache_config \<Rightarrow> string \<Rightarrow> nat \<Rightarrow> cache_inner \<Rightarrow> cache_inner \<Rightarrow> bool"
  for cfg key len i i' where
  kept: "same_mem i i' \<Longrightarrow> mem_effect cfg key len i i'"
| removed: "same_mem (remove_memory key i) i' \<Longrightarrow> mem_effect cfg key len i i'"
| touched: "map_of (memory i) key = Some r \<Longrightarrow>
     memory i' = AList.update key (r\<lparr> mem_last_access := t \<rparr>) (memory i) \<Longrightarrow>
     memory_bytes i' = memory_bytes i \<Longrightarrow> mem_effect cfg key len i i'"
| stored: "same_mem i j \<or> same_mem (remove_memory key i) j \<Longrightarrow> length v = len \<Longrightarrow>
     put_memory cfg key v e p j = (n, j') \<Longrightarrow> same_mem j' i' \<Longrightarrow> mem_effect cfg key len i i'"

lemma same_mem_inv:
  assumes "same_mem i j"
  shows "mem_accounted j = mem_accounted i" "mem_bounded cfg j = mem_bounded cfg i"
    "hm_ok (memory j) = hm_ok (memory i)"
  using assms by (simp_all add: same_mem_def mem_accounted_def mem_bounded_def)

lemma put_memory_frame:
  assumes "put_memory cfg key v e p i = (n, i')" "k \<noteq> key" "map_of (memory i) k = Some r" "mem_pinned r"
  shows "map_of (memory i') k = Some r"
proof (cases "max_memory_bytes cfg > 0 \<and> len64 v \<le> max_memory_bytes cfg")
  case True
  with assms(1) have "evict_memory_locked cfg 0 (insert_memory_locked key v e p i) = (n, i')"
    by (simp add: put_memory_def)
  then have "evicted_from (insert_memory_locked key v e p i) i'" using evict_memory_frame by blast
  then have "map_of (memory i') k = map_of (memory (insert_memory_locked key v e p i)) k"
    using assms(2-) unfolding evicted_from_def by (metis fun_upd_apply insert_memory_map option.inject)
  then show ?thesis using assms(2,3) by simp
next
  case False
  with assms show ?thesis by (auto simp: put_memory_def split: if_splits)
qed

lemma mem_effect_pinned:
  assumes "mem_effect cfg key len i i'" "k \<noteq> key" "map_of (memory i) k = Some r" "mem_pinned r"
  shows "map_of (memory i') k = Some r"
  using assms(1)
proof cases
  case (stored j v e p n j')
  then have "map_of (memory j) k = Some r" using assms(2,3) by (auto simp: same_mem_def)
  with put_memory_frame [OF stored(3) assms(2) _ assms(4)] stored(4) show ?thesis
    by (simp add: same_mem_def)
qed (use assms(2-) in \<open>auto simp: same_mem_def hm_simps\<close>)

lemma put_memory_accounted:
  assumes "put_memory cfg key v e p i = (n, i')" "mem_accounted i"
    and "hm_sum mem_size (memory i) + length v < 2 ^ 64"
  shows "mem_accounted i'"
  using assms insert_memory_accounted [OF assms(2,3)]
  by (auto simp: put_memory_def split: if_splits dest!: evict_memory_frame)

lemma mem_effect_accounted:
  assumes "mem_effect cfg key len i i'" "mem_accounted i" "hm_sum mem_size (memory i) + len < 2 ^ 64"
  shows "mem_accounted i'"
  using assms(1)
proof cases
  case kept
  with assms(2) show ?thesis by (simp add: same_mem_inv)
next
  case removed
  with remove_memory_accounted [OF assms(2)] show ?thesis by (simp add: same_mem_inv)
next
  case (touched r t)
  then show ?thesis
    using assms(2) hm_sum_delete [of "memory i" key r mem_size]
    by (simp add: mem_accounted_def hm_sum_update mem_size_def)
next
  case (stored j v e p n j')
  have "mem_accounted j" "hm_sum mem_size (memory j) \<le> hm_sum mem_size (memory i)"
    using stored(1) assms(2) remove_memory_accounted [OF assms(2), of key] remove_memory_sum [of i key]
    by (auto simp: same_mem_def mem_accounted_def)
  with put_memory_accounted [OF stored(3)] assms(3) stored(2,4) show ?thesis by (simp add: same_mem_inv)
qed

lemma put_memory_bounded:
  assumes "lawful_eviction (eviction_policy cfg)" "hash_order_ok (map_order cfg)"
    and "put_memory cfg key v e p i = (n, i')" "hm_ok (memory i)" "mem_bounded cfg i"
  shows "mem_bounded cfg i'"
proof -
  have "hm_ok (memory (insert_memory_locked key v e p i))"
    using assms(4) by (auto simp: insert_memory_locked_def remove_memory_def next_tick_def Let_def split: option.splits)
  with assms evict_memory_bounded [OF assms(1,2)] show ?thesis
    by (auto simp: put_memory_def split: if_splits)
qed

lemma remove_memory_bounded: "mem_bounded cfg i \<Longrightarrow> mem_bounded cfg (remove_memory key i)"
  using remove_memory_bytes [of key i] by (auto simp: mem_bounded_def split: if_splits)

lemma mem_effect_bounded:
  assumes "lawful_eviction (eviction_policy cfg)" "hash_order_ok (map_order cfg)"
    and "mem_effect cfg key len i i'" "hm_ok (memory i)" "mem_bounded cfg i"
  shows "mem_bounded cfg i' \<and> hm_ok (memory i')"
proof -
  have rm: "hm_ok (memory (remove_memory key i))"
    using assms(4) by (auto simp: remove_memory_def split: option.splits)
  note rmb = remove_memory_bounded [OF assms(5), of key]
  show ?thesis using assms(3)
  proof cases
    case kept
    with assms(4,5) show ?thesis by (simp add: same_mem_inv)
  next
    case removed
    with rm rmb show ?thesis by (simp add: same_mem_inv)
  next
    case (touched r t)
    with assms(4,5) show ?thesis by (auto simp: mem_bounded_def hm_simps)
  next
    case (stored j v e p n j')
    then have j: "hm_ok (memory j)" "mem_bounded cfg j" using assms(4,5) rm rmb by (auto simp: same_mem_inv)
    have "hm_ok (memory (insert_memory_locked key v e p j))"
      using j(1) by (auto simp: insert_memory_locked_def remove_memory_def next_tick_def Let_def split: option.splits)
    then have "hm_ok (memory j')"
      using stored(3) j(1) evict_memory_frame by (fastforce simp: put_memory_def split: if_splits)
    with put_memory_bounded [OF assms(1,2) stored(3) j] stored(4) show ?thesis by (simp add: same_mem_inv)
  qed
qed

subsection \<open>The persistent tier leaves memory alone\<close>

lemma inner_simps [simp]:
  "inner (record_event ev c) = inner c"
  "inner (record_count n evf c) = inner c"
  "memory (inner (upd_stats f c)) = memory (inner c)"
  "memory_bytes (inner (upd_stats f c)) = memory_bytes (inner c)"
  "disk_bytes (inner (upd_stats f c)) = disk_bytes (inner c)"
  "tick (inner (upd_stats f c)) = tick (inner c)"
  "cache_store (record_event ev c) = cache_store c"
  "cache_store (record_count n evf c) = cache_store c"
  "cache_store (upd_stats f c) = cache_store c"
  "cache_store (upd_inner g c) = cache_store c"
  by (simp_all add: record_event_def record_count_def upd_stats_def upd_inner_def)

lemma now_seconds_inner:
  "now_seconds cfg c = (t, c') \<Longrightarrow> inner c' = inner c"
  "now_seconds cfg c = (t, c') \<Longrightarrow> cache_store c' = cache_store c"
  by (auto simp: now_seconds_def)

lemma remove_disk_index_mem [simp]:
  "memory (remove_disk_index key i) = memory i" "memory_bytes (remove_disk_index key i) = memory_bytes i"
  by (simp_all add: remove_disk_index_def split: option.splits)

lemma touch_disk_mem [simp]:
  "memory (touch_disk key i) = memory i" "memory_bytes (touch_disk key i) = memory_bytes i"
  by (simp_all add: touch_disk_def next_tick_def Let_def split: option.splits)

lemma remove_disk_record_mem:
  "remove_disk_record_locked cfg key b c = (r, c') \<Longrightarrow> same_mem (inner c) (inner c')"
  by (auto simp: remove_disk_record_locked_def Let_def and_then_def same_mem_def
      split: option.splits prod.splits sum.splits if_splits dest!: store_call_inner)

lemma evict_disk_mem:
  "evict_disk_locked cfg n c = (r, c') \<Longrightarrow> same_mem (inner c) (inner c')"
proof (induction cfg n c rule: evict_disk_locked.induct)
  case (1 cfg n c)
  show ?case
  proof (cases "max_disk_bytes cfg < disk_bytes (inner c) \<and>
      chosen_key cfg (disk_candidates (map_order cfg) (inner c)) \<noteq> None")
    case False
    with 1(2) show ?thesis by (subst (asm) evict_disk_locked.simps) (auto split: if_splits option.splits)
  next
    case True
    then obtain key where key: "chosen_key cfg (disk_candidates (map_order cfg) (inner c)) = Some key" by auto
    obtain r1 c1 where rm: "remove_disk_record_locked cfg key False c = (r1, c1)" by fastforce
    note mem = remove_disk_record_mem [OF rm]
    let ?c2 = "upd_stats (\<lambda>st. st\<lparr> st_disk_evictions := sat_add (st_disk_evictions st) 1 \<rparr>) c1"
    show ?thesis
    proof (cases r1)
      case (Inl e)
      with 1(2) True key rm mem show ?thesis by (subst (asm) evict_disk_locked.simps) simp
    next
      case (Inr u)
      then have "evict_disk_locked cfg (sat_add n 1) ?c2 = (r, c')"
        using 1(2) True key rm by (subst (asm) evict_disk_locked.simps) simp
      with 1(1) [OF _ key rm [symmetric] Inr] True have "same_mem (inner ?c2) (inner c')" by blast
      with mem show ?thesis by (simp add: same_mem_def)
    qed
  qed
qed

lemma expire_disk_mem: "expire_disk cfg key now c = (r, c') \<Longrightarrow> same_mem (inner c) (inner c')"
  by (auto simp: expire_disk_def and_then_def split: option.splits if_splits prod.splits sum.splits
      dest: remove_disk_record_mem)

lemma index_inserted_mem [simp]: "same_mem i (index_inserted key b e p i)"
  by (simp add: same_mem_def index_inserted_def next_tick_def Let_def)

lemma insert_disk_mem:
  assumes "insert_disk cfg vt key x c = (r, c')"
  shows "same_mem (inner c) (inner c')"
proof -
  obtain r1 c1 where put: "store_call (ps_put_if_absent vt key x) c = (r1, c1)" by fastforce
  then have [simp]: "inner c1 = inner c" by (rule store_call_inner)
  show ?thesis
  proof (cases "isl r1 \<or> \<not> out_inserted (projr r1)")
    case True
    with assms put show ?thesis by (cases r1) (auto simp: insert_disk_def dest!: store_call_inner)
  next
    case False
    then obtain out where out: "r1 = Inr out" "out_inserted out" by (cases r1) auto
    let ?f = "index_inserted key (out_stored_bytes out) (entry_expires_at x) (entry_pinned x)"
    from out assms put have "evict_disk_locked cfg 0 (upd_inner ?f c1) = (r, c')"
      by (simp add: insert_disk_def)
    from evict_disk_mem [OF this] show ?thesis
      using same_mem_trans [OF index_inserted_mem [of "inner c"]] by simp
  qed
qed

lemma put_persistent_mem:
  assumes "put_persistent cfg key v e p now c = (r, c')"
  shows "same_mem (inner c) (inner c')"
proof (cases "max_disk_bytes cfg > 0 \<and> len64 v \<le> max_disk_bytes cfg \<and> store cfg \<noteq> None")
  case False
  with assms show ?thesis by (auto simp: put_persistent_def split: if_splits option.splits)
next
  case True
  then obtain vt where vt: "store cfg = Some vt" by auto
  let ?x = "\<lparr> entry_value = v, entry_expires_at = e, entry_pinned = p \<rparr>"
  obtain r1 c1 where pre: "expire_disk cfg key now c = (r1, c1)" by fastforce
  obtain r2 c2 where ins: "insert_disk cfg vt key ?x c1 = (r2, c2)" by fastforce
  have "c' \<in> {c1, c2}"
    using assms True vt pre ins by (cases r1; cases r2) (auto simp: put_persistent_def split: if_splits)
  then show ?thesis
    using expire_disk_mem [OF pre] insert_disk_mem [OF ins] same_mem_trans by blast
qed

subsection \<open>Effects of the operations\<close>

lemma discard_corrupt_mem: "discard_corrupt vt key c = (r, c') \<Longrightarrow> same_mem (inner c) (inner c') \<and> (\<forall>y. r = Inr y \<longrightarrow> y = None)"
  by (auto simp: discard_corrupt_def and_then_def same_mem_def split: prod.splits sum.splits
      dest!: store_call_inner)

definition hit_length :: "u8 list option io_result \<Rightarrow> nat" where
  "hit_length r = (case r of Inr (Some v) \<Rightarrow> length v | _ \<Rightarrow> 0)"

lemma persistent_hit_mem:
  assumes "persistent_hit cfg key n x c = (r, c')"
  shows "r = Inr (Some (entry_value x)) \<and> (\<exists>j m j'. same_mem (inner c) j \<and>
     put_memory cfg key (entry_value x) (entry_expires_at x) (entry_pinned x) j = (m, j') \<and> same_mem j' (inner c'))"
proof -
  let ?c1 = "upd_stats (\<lambda>st. st\<lparr> st_disk_hits := sat_add (st_disk_hits st) 1 \<rparr>) (upd_inner (touch_disk key) c)"
  obtain m j' where put: "put_memory cfg key (entry_value x) (entry_expires_at x) (entry_pinned x) (inner ?c1) = (m, j')"
    by fastforce
  have "same_mem (inner c) (inner ?c1)" by (simp add: same_mem_def)
  moreover have "r = Inr (Some (entry_value x))" "same_mem j' (inner c')"
    using assms put by (auto simp: persistent_hit_def Let_def)
  ultimately show ?thesis using put by blast
qed

lemma get_persistent_mem:
  assumes "get_persistent cfg key now n c = (r, c')"
  shows "same_mem (inner c) (inner c') \<or> (\<exists>j v e p m j'. same_mem (inner c) j \<and> r = Inr (Some v) \<and>
     put_memory cfg key v e p j = (m, j') \<and> same_mem j' (inner c'))"
proof (cases "map_of (disk (inner c)) key")
  case None
  with assms show ?thesis by (auto simp: get_persistent_def same_mem_def)
next
  case (Some d)
  show ?thesis
  proof (cases "is_expired (rec_expires_at d) now")
    case True
    obtain r1 c1 where rm: "remove_disk_record_locked cfg key True c = (r1, c1)" by fastforce
    then have "same_mem (inner c) (inner c')"
      using assms Some True remove_disk_record_mem [OF rm]
      by (cases r1) (auto simp: get_persistent_def same_mem_def)
    then show ?thesis ..
  next
    case False
    show ?thesis
    proof (cases "store cfg")
      case None
      with assms Some False show ?thesis by (auto simp: get_persistent_def drop_index_miss_def same_mem_def)
    next
      case vt: (Some vt)
      obtain r1 c1 where g: "store_call (ps_get vt key) c = (r1, c1)" by fastforce
      then have c1: "inner c1 = inner c" by (rule store_call_inner)
      consider (miss) "c' = record_event Miss (drop_index_miss key c1)"
        | (failed) e where "r1 = Inl e" "c' = c1"
        | (bad) "discard_corrupt vt key c1 = (r, c')"
        | (hit) x where "persistent_hit cfg key n x c1 = (r, c')"
        using assms Some False vt g
        by (cases r1; cases "projr r1") (auto simp: get_persistent_def split: if_splits)
      then show ?thesis
      proof cases
        case miss
        then show ?thesis by (simp add: same_mem_def drop_index_miss_def c1)
      next
        case failed
        then show ?thesis by (simp add: same_mem_def c1)
      next
        case bad
        from discard_corrupt_mem [OF this] show ?thesis by (simp add: c1)
      next
        case hit
        from persistent_hit_mem [OF this] show ?thesis by (auto simp: c1)
      qed
    qed
  qed
qed

lemma cache_get_effect:
  assumes "cache_get cfg key c = (r, c')"
  shows "mem_effect cfg key (hit_length r) (inner c) (inner c')"
proof (cases "ks_validate (key_strategy cfg) key")
  case (Inl e)
  with assms show ?thesis by (auto simp: cache_get_def intro: mem_effect.kept)
next
  case (Inr u)
  obtain now c1 where now: "now_seconds cfg c = (now, c1)" by fastforce
  then have c1: "inner c1 = inner c" by (rule now_seconds_inner)
  have through: "mem_effect cfg key (hit_length r) (inner c) (inner c')"
    if "get_persistent cfg key now n c2 = (r, c')"
      "same_mem (inner c) (inner c2) \<or> same_mem (remove_memory key (inner c)) (inner c2)" for n c2
    using get_persistent_mem [OF that(1)] that(2)
  proof (elim disjE exE conjE, goal_cases)
    case 1
    then show ?case by (meson mem_effect.kept same_mem_trans)
  next
    case 2
    then show ?case by (meson mem_effect.removed same_mem_trans)
  next
    case (3 j v e p m j')
    then show ?case by (intro mem_effect.stored [of _ j _ v]) (auto simp: hit_length_def intro: same_mem_trans)
  next
    case (4 j v e p m j')
    then show ?case by (intro mem_effect.stored [of _ j _ v]) (auto simp: hit_length_def intro: same_mem_trans)
  qed
  show ?thesis
  proof (cases "map_of (memory (inner c)) key")
    case None
    with assms Inr now c1 through [of 0 c1] show ?thesis by (simp add: cache_get_def)
  next
    case (Some m)
    show ?thesis
    proof (cases "is_expired (mem_expires_at m) now")
      case True
      let ?c2 = "upd_stats bump_expirations (upd_inner (remove_memory key) c1)"
      have "get_persistent cfg key now 1 ?c2 = (r, c')"
        using assms Inr now c1 Some True by (simp add: cache_get_def)
      then show ?thesis by (rule through) (simp add: same_mem_def c1)
    next
      case False
      then have "inner c' = memory_hit key m (inner c)"
        using assms Inr now c1 Some by (auto simp: cache_get_def)
      then show ?thesis
        using Some by (intro mem_effect.touched) (auto simp: memory_hit_def next_tick_def Let_def)
    qed
  qed
qed

lemma cache_put_effect:
  assumes "cache_put cfg key v ttl p c = (r, c')"
  shows "mem_effect cfg key (length v) (inner c) (inner c')"
proof (cases "isl (ks_validate (key_strategy cfg) key) \<or> v = []")
  case True
  with assms show ?thesis
    by (cases "ks_validate (key_strategy cfg) key") (auto simp: cache_put_def intro: mem_effect.kept)
next
  case False
  then obtain u where ok: "ks_validate (key_strategy cfg) key = Inr u" "v \<noteq> []"
    by (cases "ks_validate (key_strategy cfg) key") auto
  obtain now c1 where now: "now_seconds cfg c = (now, c1)" by fastforce
  let ?e = "put_expiry now (case ttl of Some d \<Rightarrow> d | None \<Rightarrow> default_ttl cfg)"
  obtain r2 c2 where pp: "put_persistent cfg key v ?e p now c1 = (r2, c2)" by fastforce
  have m2: "same_mem (inner c) (inner c2)" using put_persistent_mem [OF pp] now_seconds_inner(1) [OF now] by simp
  show ?thesis
  proof (cases r2)
    case (Inl e)
    with assms ok now pp m2 show ?thesis by (auto simp: cache_put_def intro: mem_effect.kept)
  next
    case (Inr ns)
    obtain m j where pm: "put_memory cfg key v ?e p (inner c2) = (m, j)" by fastforce
    have "same_mem j (inner c')"
      using assms ok now pp Inr pm by (auto simp: cache_put_def Let_def same_mem_def split: prod.splits)
    with m2 pm show ?thesis by (intro mem_effect.stored [of _ "inner c2" _ v]) auto
  qed
qed

lemma cache_invalidate_effect:
  assumes "cache_invalidate cfg key c = (r, c')"
  shows "mem_effect cfg key 0 (inner c) (inner c')"
  using assms
  by (auto simp: cache_invalidate_def check_then_def and_then_def same_mem_def
      split: sum.splits option.splits prod.splits dest!: store_call_inner
      intro: mem_effect.kept mem_effect.removed)

end
