(* ===== verification/CacheProps.thy ===== *)
theory CacheProps
  imports ContextCache
begin

text \<open>
  What the bounded cache guarantees: the memory budget, the byte accounting and the fate of
  pinned entries along any sequence of operations, the meaning of a read, and the effect of
  invalidation and of batches. The store below the cache is any backend with the contract of
  \<open>fallible_store\<close>.
\<close>

section \<open>Sequences of operations\<close>

datatype cache_op =
    OpGet string
  | OpPut string "u8 list" "duration option" bool
  | OpInvalidate string
  | OpClear

fun run_op :: "'s cache_config \<Rightarrow> cache_op \<Rightarrow> 's cache \<Rightarrow> 's cache" where
  "run_op cfg (OpGet key) c = snd (cache_get cfg key c)"
| "run_op cfg (OpPut key v ttl pinned) c = snd (cache_put cfg key v ttl pinned c)"
| "run_op cfg (OpInvalidate key) c = snd (cache_invalidate cfg key c)"
| "run_op cfg OpClear c = snd (cache_clear cfg c)"

definition run_ops :: "'s cache_config \<Rightarrow> cache_op list \<Rightarrow> 's cache \<Rightarrow> 's cache" where
  "run_ops cfg ops c = fold (run_op cfg) ops c"

lemma run_ops_simps [simp]:
  "run_ops cfg [] c = c"
  "run_ops cfg (op # ops) c = run_ops cfg ops (run_op cfg op c)"
  by (simp_all add: run_ops_def)

lemma cache_clear_mem:
  assumes "cache_clear cfg c = (r, c')"
  shows "same_mem (inner c) (inner c') \<or> (memory (inner c') = [] \<and> memory_bytes (inner c') = 0)"
  using assms by (auto simp: cache_clear_def and_then_def same_mem_def
      split: option.splits prod.splits sum.splits dest!: store_call_inner)

lemma run_op_effect:
  "(\<exists>key len. mem_effect cfg key len (inner c) (inner (run_op cfg op c))) \<or>
   (memory (inner (run_op cfg op c)) = [] \<and> memory_bytes (inner (run_op cfg op c)) = 0)"
proof (cases op)
  case (OpGet key)
  show ?thesis by (cases "cache_get cfg key c") (auto simp: OpGet dest: cache_get_effect)
next
  case (OpPut key v ttl p)
  show ?thesis by (cases "cache_put cfg key v ttl p c") (auto simp: OpPut dest: cache_put_effect)
next
  case (OpInvalidate key)
  show ?thesis by (cases "cache_invalidate cfg key c") (auto simp: OpInvalidate dest: cache_invalidate_effect)
next
  case OpClear
  obtain r c' where cl: "cache_clear cfg c = (r, c')" by fastforce
  from cache_clear_mem [OF cl] cl OpClear show ?thesis by (auto intro: mem_effect.kept)
qed

lemma run_op_bounded:
  assumes "lawful_eviction (eviction_policy cfg)" "hash_order_ok (map_order cfg)"
    and "hm_ok (memory (inner c))" "mem_bounded cfg (inner c)"
  shows "hm_ok (memory (inner (run_op cfg op c))) \<and> mem_bounded cfg (inner (run_op cfg op c))"
  using run_op_effect [of cfg c op]
proof
  assume "\<exists>key len. mem_effect cfg key len (inner c) (inner (run_op cfg op c))"
  then show ?thesis using mem_effect_bounded [OF assms(1,2) _ assms(3,4)] by blast
qed (simp add: mem_bounded_def)

lemma load_records_mem:
  "load_records vt now rs n c = (r, c') \<Longrightarrow> same_mem (inner c) (inner c')"
proof (induction rs arbitrary: n c)
  case Nil
  then show ?case by simp
next
  case (Cons x rs)
  show ?case
  proof (cases "is_expired (rec_expires_at x) now")
    case True
    obtain r1 c1 where rm: "store_call (ps_remove vt (rec_key x)) c = (r1, c1)" by fastforce
    then have c1: "inner c1 = inner c" by (rule store_call_inner)
    show ?thesis
    proof (cases r1)
      case (Inl e)
      with Cons.prems True rm c1 show ?thesis by (auto simp: same_mem_def)
    next
      case (Inr u)
      with Cons.prems True rm
      have "load_records vt now rs (sat_add n 1) (upd_stats bump_expirations c1) = (r, c')" by simp
      from Cons.IH [OF this] c1 show ?thesis by (simp add: same_mem_def)
    qed
  next
    case False
    with Cons.prems Cons.IH show ?thesis by (fastforce simp: same_mem_def)
  qed
qed

lemma from_builder_mem:
  assumes "from_builder cfg s = (r, c)"
  shows "memory (inner c) = [] \<and> memory_bytes (inner c) = 0"
proof -
  let ?c0 = "\<lparr> inner = inner_default, cache_store = s, clock_reads = 0, events = [] \<rparr>"
  have init: "memory (inner ?c0) = []" "memory_bytes (inner ?c0) = 0" by (simp_all add: inner_default_def)
  show ?thesis
  proof (cases "max_disk_bytes cfg > 0 \<and> store cfg \<noteq> None")
    case False
    with assms init show ?thesis
      by (auto simp: from_builder_def Let_def split: if_splits option.splits)
  next
    case True
    then obtain vt where vt: "store cfg = Some vt" by auto
    obtain r1 c1 where l: "store_call (ps_load_index vt) ?c0 = (r1, c1)" by fastforce
    then have c1: "inner c1 = inner ?c0" by (rule store_call_inner)
    obtain now c2 where n: "now_seconds cfg c1 = (now, c2)" by fastforce
    show ?thesis
    proof (cases r1)
      case (Inl e)
      with assms True vt l c1 init show ?thesis by (auto simp: from_builder_def)
    next
      case (Inr snap)
      let ?c3 = "upd_stats (\<lambda>st. st\<lparr> st_corruptions := sat_add (st_corruptions st) (snap_corruptions snap) \<rparr>) c2"
      obtain r4 c4 where lr: "load_records vt now (snap_entries snap) 0 ?c3 = (r4, c4)" by fastforce
      obtain r5 c5 where ev: "evict_disk_locked cfg 0 c4 = (r5, c5)" by fastforce
      have "same_mem (inner ?c0) (inner c4)" "same_mem (inner ?c0) (inner c5)"
        using load_records_mem [OF lr] evict_disk_mem [OF ev] now_seconds_inner(1) [OF n] c1 by (simp_all add: same_mem_def)
      moreover have "inner c \<in> {inner c4, inner c5}"
        using assms True vt l Inr n lr ev by (cases r4; cases r5) (auto simp: from_builder_def)
      ultimately show ?thesis using init by (auto simp: same_mem_def)
    qed
  qed
qed

subsection \<open>Entries that stay\<close>

fun spares :: "string \<Rightarrow> cache_op \<Rightarrow> bool" where
  "spares key (OpGet k) = True"
| "spares key (OpPut k v ttl p) = (k \<noteq> key)"
| "spares key (OpInvalidate k) = (k \<noteq> key)"
| "spares key OpClear = False"

definition holds_forever :: "string \<Rightarrow> u8 list \<Rightarrow> cache_inner \<Rightarrow> bool" where
  "holds_forever key v i \<longleftrightarrow>
     (\<exists>r. map_of (memory i) key = Some r \<and> mem_pinned r \<and> mem_expires_at r = 0 \<and> mem_value r = v)"

lemma cache_get_memory_hit:
  assumes "ks_validate (key_strategy cfg) key = Inr u" "map_of (memory (inner c)) key = Some r"
    and "\<not> is_expired (mem_expires_at r) (clock cfg (clock_reads c))"
  shows "\<exists>c'. cache_get cfg key c = (Inr (Some (mem_value r)), c') \<and>
    (\<exists>t. map_of (memory (inner c')) = (map_of (memory (inner c)))(key \<mapsto> r\<lparr> mem_last_access := t \<rparr>))"
proof -
  obtain now c1 where now: "now_seconds cfg c = (now, c1)" by fastforce
  have c1: "inner c1 = inner c" "now = clock cfg (clock_reads c)" using now by (auto simp: now_seconds_def)
  have "cache_get cfg key c = (Inr (Some (mem_value r)), record_event MemoryHit (upd_inner (memory_hit key r) c1))"
    using assms now c1 by (simp add: cache_get_def)
  moreover have "map_of (memory (memory_hit key r (inner c))) =
      (map_of (memory (inner c)))(key \<mapsto> r\<lparr> mem_last_access := sat_add (tick (inner c)) 1 \<rparr>)"
    by (simp add: memory_hit_def next_tick_def Let_def hm_simps)
  ultimately show ?thesis using c1 by auto
qed

lemma holds_forever_get: "holds_forever key v (inner c) \<Longrightarrow> holds_forever key v (inner (run_op cfg (OpGet key) c))"
proof (cases "ks_validate (key_strategy cfg) key")
  case (Inl e)
  then show "holds_forever key v (inner c) \<Longrightarrow> ?thesis" by (simp add: cache_get_def)
next
  case (Inr u)
  assume "holds_forever key v (inner c)"
  then obtain r where r: "map_of (memory (inner c)) key = Some r" "mem_pinned r" "mem_expires_at r = 0" "mem_value r = v"
    by (auto simp: holds_forever_def)
  then have "\<not> is_expired (mem_expires_at r) (clock cfg (clock_reads c))" by (simp add: is_expired_def)
  from cache_get_memory_hit [OF Inr r(1) this] r show ?thesis by (auto simp: holds_forever_def)
qed

lemma holds_forever_step:
  assumes "holds_forever key v (inner c)" "spares key op"
  shows "holds_forever key v (inner (run_op cfg op c))"
proof -
  obtain r where r: "map_of (memory (inner c)) key = Some r" "mem_pinned r" "mem_expires_at r = 0" "mem_value r = v"
    using assms(1) by (auto simp: holds_forever_def)
  have other: "holds_forever key v (inner c')" if "mem_effect cfg k len (inner c) (inner c')" "k \<noteq> key" for k len c'
    using mem_effect_pinned [OF that(1) _ r(1,2)] that(2) r by (simp add: holds_forever_def)
  show ?thesis
  proof (cases op)
    case (OpGet k)
    show ?thesis
    proof (cases "k = key")
      case True
      with holds_forever_get [OF assms(1)] OpGet show ?thesis by simp
    next
      case False
      then show ?thesis using other cache_get_effect OpGet
        by (metis prod.collapse run_op.simps(1))
    qed
  next
    case (OpPut k w ttl p)
    with assms(2) other cache_put_effect show ?thesis
      by (metis prod.collapse run_op.simps(2) spares.simps(2))
  next
    case (OpInvalidate k)
    with assms(2) other cache_invalidate_effect show ?thesis
      by (metis prod.collapse run_op.simps(3) spares.simps(3))
  next
    case OpClear
    with assms(2) show ?thesis by simp
  qed
qed

subsection \<open>The value a read stands for\<close>

definition persistent_value ::
  "('s \<Rightarrow> string \<Rightarrow> stored_entry option) \<Rightarrow> cache_inner \<Rightarrow> 's \<Rightarrow> string \<Rightarrow> u64 \<Rightarrow> u8 list option" where
  "persistent_value view i s key now =
     (case map_of (disk i) key of
        None \<Rightarrow> None
      | Some d \<Rightarrow> if is_expired (rec_expires_at d) now then None
                  else (case view s key of
                          None \<Rightarrow> None
                        | Some x \<Rightarrow> if describes d x then Some (entry_value x) else None))"

definition visible ::
  "('s \<Rightarrow> string \<Rightarrow> stored_entry option) \<Rightarrow> 's cache \<Rightarrow> string \<Rightarrow> u64 \<Rightarrow> u8 list option" where
  "visible view c key now =
     (case map_of (memory (inner c)) key of
        Some r \<Rightarrow> if is_expired (mem_expires_at r) now
                   then persistent_value view (inner c) (cache_store c) key now else Some (mem_value r)
      | None \<Rightarrow> persistent_value view (inner c) (cache_store c) key now)"

lemma get_persistent_value:
  assumes st: "fallible_store vt view invar" and "store cfg = Some vt" "invar (cache_store c)"
    and run: "get_persistent cfg key now n c = (Inr r, c')"
  shows "r = persistent_value view (inner c) (cache_store c) key now \<or>
    (r = None \<and> (\<exists>e. fst (ps_get vt key (cache_store c)) = Inl e \<and> is_corruption_error e))"
proof (cases "map_of (disk (inner c)) key")
  case None
  with run show ?thesis by (auto simp: get_persistent_def persistent_value_def)
next
  case (Some d)
  show ?thesis
  proof (cases "is_expired (rec_expires_at d) now")
    case True
    with run Some show ?thesis by (auto simp: get_persistent_def persistent_value_def and_then_eq_Inr)
  next
    case False
    obtain r1 s1 where g: "ps_get vt key (cache_store c) = (r1, s1)" by fastforce
    let ?c1 = "c\<lparr> cache_store := s1 \<rparr>"
    have call: "store_call (ps_get vt key) c = (r1, ?c1)" using g by (simp add: store_call_def)
    have corrupt: "r = None" if "discard_corrupt vt key ?c1 = (Inr r, c')"
      using discard_corrupt_mem [OF that] by blast
    show ?thesis
    proof (cases r1)
      case (Inl e)
      with run Some False assms(2) call corrupt g show ?thesis
        by (auto simp: get_persistent_def split: if_splits)
    next
      case (Inr y)
      then have y: "y = view (cache_store c) key"
        using fallible_store.get_result [OF st assms(3)] g by blast
      show ?thesis
      proof (cases y)
        case None
        with run Some False assms(2) call Inr y show ?thesis
          by (auto simp: get_persistent_def persistent_value_def)
      next
        case x: (Some x)
        show ?thesis
        proof (cases "describes d x")
          case True
          then have "persistent_hit cfg key n x ?c1 = (Inr r, c')"
            using run Some False assms(2) call Inr x by (auto simp: get_persistent_def describes_def)
          then have "r = Some (entry_value x)" using persistent_hit_mem by fastforce
          with True Some False x y show ?thesis by (auto simp: persistent_value_def)
        next
          case bad: False
          then have "discard_corrupt vt key ?c1 = (Inr r, c')"
            using run Some False assms(2) call Inr x by (auto simp: get_persistent_def describes_def)
          with corrupt bad Some x y show ?thesis by (auto simp: persistent_value_def)
        qed
      qed
    qed
  qed
qed

section \<open>Properties\<close>

text \<open>
  C4: with a lawful eviction policy, after any sequence of reads, writes, invalidations and
  clears on a freshly built cache (failed calls included) the byte counter of the memory tier is
  within the configured budget, or every entry left in memory is pinned.
\<close>

theorem memory_budget_always_holds:
  assumes "lawful_eviction (eviction_policy cfg)" and "hash_order_ok (map_order cfg)"
    and "from_builder cfg s = (r, c)"
  shows "mem_bounded cfg (inner (run_ops cfg ops c))"
proof -
  have "hm_ok (memory (inner c)) \<and> mem_bounded cfg (inner c)"
    using from_builder_mem [OF assms(3)] by (simp add: mem_bounded_def)
  then have "hm_ok (memory (inner (run_ops cfg ops c))) \<and> mem_bounded cfg (inner (run_ops cfg ops c))"
    using run_op_bounded [OF assms(1,2)] by (induction ops arbitrary: c) simp_all
  then show ?thesis ..
qed

definition demo_config :: "volatile_store cache_config" where
  "demo_config = (builder_default demo_crypto (\<lambda>n. of_nat n) (\<lambda>ks. ks))
     \<lparr> max_memory_bytes := 3, max_disk_bytes := 100, store := Some (volatile_vt (\<lambda>ks. ks)),
       key_strategy := \<lparr> ks_make_key = sha256_make_key demo_crypto,
         ks_validate = (\<lambda>k. if k = [] then Inl (IoError InvalidInput ''empty key'') else Inr ()) \<rparr> \<rparr>"

lemma demo_config_simps [simp]:
  "eviction_policy demo_config = lru_choose_victim" "map_order demo_config = (\<lambda>ks. ks)"
  "store demo_config = Some (volatile_vt (\<lambda>ks. ks))" "clock demo_config n = of_nat n"
  "max_memory_bytes demo_config = 3" "max_disk_bytes demo_config = 100"
  "default_ttl demo_config = dur_zero" "ks_validate (key_strategy demo_config) ''k'' = Inr ()"
  by (simp_all add: demo_config_def builder_default_def)

theorem memory_budget_always_holds_witness:
  "mem_bounded demo_config (inner (run_ops demo_config
     [OpPut ''a'' [1, 2] None False, OpPut ''b'' [3, 4] None False, OpGet ''b'']
     (snd (from_builder demo_config volatile_new))))"
  by (rule memory_budget_always_holds [OF _ _ surjective_pairing])
    (simp_all add: lru.lawful_eviction_axioms)

text \<open>
  The memory counter is exact. If the counter equals the number of resident bytes and the
  incoming value fits in the address space beside them, it still does after a read, a write or
  an invalidation, whether the call succeeds or fails.
\<close>

theorem memory_accounting_is_exact:
  assumes "mem_accounted (inner c)"
  shows "(cache_get cfg key c = (rg, cg) \<and> hm_sum mem_size (memory (inner c)) + hit_length rg < 2 ^ 64 \<longrightarrow>
            mem_accounted (inner cg)) \<and>
         (cache_put cfg key v ttl p c = (rp, cp) \<and> hm_sum mem_size (memory (inner c)) + length v < 2 ^ 64 \<longrightarrow>
            mem_accounted (inner cp)) \<and>
         (cache_invalidate cfg key c = (ri, ci) \<longrightarrow> mem_accounted (inner ci))"
proof -
  have "hm_sum mem_size (memory (inner c)) < 2 ^ 64"
    using assms unat64_bound [of "memory_bytes (inner c)"] by (simp add: mem_accounted_def)
  then show ?thesis
    using assms mem_effect_accounted [OF cache_get_effect] mem_effect_accounted [OF cache_put_effect]
      mem_effect_accounted [OF cache_invalidate_effect] by auto
qed

theorem memory_accounting_is_exact_witness:
  "mem_accounted (inner (snd (cache_put demo_config ''k'' [1, 2] None False
     (snd (from_builder demo_config volatile_new)))))"
proof -
  let ?c = "snd (from_builder demo_config volatile_new)"
  have m: "memory (inner ?c) = [] \<and> memory_bytes (inner ?c) = 0"
    using from_builder_mem [of demo_config volatile_new] by (metis surjective_pairing)
  then have acc: "mem_accounted (inner ?c)" by (simp add: mem_accounted_def)
  obtain r c' where put: "cache_put demo_config ''k'' [1, 2] None False ?c = (r, c')" by fastforce
  have "mem_accounted (inner c')"
    using memory_accounting_is_exact [OF acc, THEN conjunct2, THEN conjunct1, rule_format, OF conjI [OF put]] m
    by simp
  with put show ?thesis by simp
qed

text \<open>
  C11: under any eviction policy, an entry pinned in memory without an expiry survives every
  sequence of operations that does not overwrite, invalidate or clear it, and a read of it then
  returns its value.
\<close>

theorem pinned_entry_survives:
  assumes "holds_forever key v (inner c)"
    and "list_all (spares key) ops"
    and "ks_validate (key_strategy cfg) key = Inr u"
  shows "\<exists>c'. cache_get cfg key (run_ops cfg ops c) = (Inr (Some v), c')"
proof -
  have "holds_forever key v (inner (run_ops cfg ops c))"
    using assms(1,2) by (induction ops arbitrary: c) (simp_all add: holds_forever_step)
  then obtain r where r: "map_of (memory (inner (run_ops cfg ops c))) key = Some r" "mem_expires_at r = 0" "mem_value r = v"
    by (auto simp: holds_forever_def)
  from cache_get_memory_hit [OF assms(3) r(1)] r show ?thesis by (auto simp: is_expired_def)
qed

definition demo_pinned :: "volatile_store cache" where
  "demo_pinned = \<lparr> inner = inner_default\<lparr> memory := [(''k'', \<lparr> mem_value = [9], mem_expires_at = 0,
       mem_pinned = True, mem_last_access = 1 \<rparr>)], memory_bytes := 1, tick := 1 \<rparr>,
     cache_store = volatile_new, clock_reads = 0, events = [] \<rparr>"

theorem pinned_entry_survives_witness:
  "\<exists>c'. cache_get demo_config ''k'' (run_ops demo_config
     [OpPut ''a'' [1, 2, 3] None False, OpGet ''k'', OpInvalidate ''a''] demo_pinned) = (Inr (Some [9]), c')"
  by (rule pinned_entry_survives [where u = "()"])
    (simp_all add: holds_forever_def demo_pinned_def)

text \<open>
  With the default policy the memory tier evicts least recently used entries first: no
  unpinned entry that stays was used before an entry the eviction loop dropped.
\<close>

theorem lru_evicts_oldest_first:
  assumes "eviction_policy cfg = lru_choose_victim" and "hash_order_ok (map_order cfg)"
    and "hm_ok (memory i)" and "evict_memory_locked cfg n i = (n', i')"
    and "map_of (memory i) k = Some r" and "map_of (memory i') k = None"
    and "map_of (memory i') k' = Some r'" and "\<not> mem_pinned r'"
  shows "mem_last_access r \<le> mem_last_access r'"
  by (rule evict_memory_lru [OF assms(1,2,4,3,5-)])

definition demo_full :: cache_inner where
  "demo_full = inner_default\<lparr> memory :=
     [(''a'', \<lparr> mem_value = [1, 2], mem_expires_at = 0, mem_pinned = False, mem_last_access = 1 \<rparr>),
      (''b'', \<lparr> mem_value = [3, 4], mem_expires_at = 0, mem_pinned = False, mem_last_access = 2 \<rparr>)],
     memory_bytes := 4, tick := 2 \<rparr>"

theorem lru_evicts_oldest_first_witness:
  "map_of (memory (snd (evict_memory_locked demo_config 0 demo_full))) ''a'' = None \<and> (1::u64) \<le> 2"
proof -
  let ?e = "evict_memory_locked demo_config 0 demo_full"
  have ev: "map_of (memory (snd ?e)) ''a'' = None"
    "map_of (memory (snd ?e)) ''b'' = map_of (memory demo_full) ''b''" by code_simp+
  have ok: "hm_ok (memory demo_full)" by (simp add: demo_full_def hm_ok_def)
  have "mem_last_access (the (map_of (memory demo_full) ''a'')) \<le> mem_last_access (the (map_of (memory demo_full) ''b''))"
    by (rule lru_evicts_oldest_first [OF _ _ ok surjective_pairing [of ?e] _ ev(1), where k' = "''b''"])
      (simp_all add: ev(2), simp_all add: demo_full_def)
  with ev(1) show ?thesis by (simp add: demo_full_def)
qed

text \<open>
  C2: a read that succeeds returns the value the cache stands for at that moment: the unexpired
  memory record, else the unexpired persistent entry whose metadata agrees with the index, else
  nothing. The only other outcome is a miss on an entry the store itself reports as corrupt.
\<close>

theorem get_returns_visible_value:
  assumes "fallible_store vt view invar" and "store cfg = Some vt" and "invar (cache_store c)"
    and "cache_get cfg key c = (Inr r, c')"
  shows "r = visible view c key (clock cfg (clock_reads c)) \<or>
    (r = None \<and> (\<exists>e. fst (ps_get vt key (cache_store c)) = Inl e \<and> is_corruption_error e))"
proof -
  obtain u where ok: "ks_validate (key_strategy cfg) key = Inr u"
    using assms(4) by (auto simp: cache_get_def check_then_eq_Inr)
  obtain now c1 where now: "now_seconds cfg c = (now, c1)" by fastforce
  have c1: "inner c1 = inner c" "cache_store c1 = cache_store c" "now = clock cfg (clock_reads c)"
    using now by (auto simp: now_seconds_def)
  show ?thesis
  proof (cases "map_of (memory (inner c)) key")
    case None
    with assms(4) ok now c1 have "get_persistent cfg key now 0 c1 = (Inr r, c')" by (simp add: cache_get_def)
    from get_persistent_value [OF assms(1,2) _ this] assms(3) c1 None show ?thesis by (simp add: visible_def)
  next
    case (Some m)
    show ?thesis
    proof (cases "is_expired (mem_expires_at m) now")
      case True
      let ?c2 = "upd_stats bump_expirations (upd_inner (remove_memory key) c1)"
      have disk: "disk (remove_memory key i) = disk i" for i by (simp add: remove_memory_def split: option.splits)
      have "get_persistent cfg key now 1 ?c2 = (Inr r, c')"
        using assms(4) ok now c1 Some True by (simp add: cache_get_def)
      from get_persistent_value [OF assms(1,2) _ this] assms(3) c1 Some True disk show ?thesis
        by (simp add: visible_def persistent_value_def)
    next
      case False
      with assms(4) ok now c1 Some show ?thesis by (auto simp: cache_get_def visible_def)
    qed
  qed
qed

theorem get_returns_visible_value_witness:
  "visible volatile_view demo_pinned ''k'' 0 = Some [9]"
proof -
  have run: "cache_get demo_config ''k'' demo_pinned = (Inr (Some [9]), snd (cache_get demo_config ''k'' demo_pinned))"
    by (simp add: cache_get_def now_seconds_def demo_pinned_def is_expired_def)
  have "volatile_inv (cache_store demo_pinned)" by (simp add: demo_pinned_def volatile_inv_def volatile_new_def)
  from get_returns_visible_value [OF volatile.fallible_store_axioms _ this run] show ?thesis
    by (simp add: demo_pinned_def)
qed

text \<open>
  An invalidation that succeeds leaves no trace of the key: it is gone from memory, from the
  index and from the store, so nothing is visible under it at any time; every other key keeps its
  store entry.
\<close>

theorem invalidate_removes_everywhere:
  assumes "fallible_store vt view invar" and "store cfg = Some vt" and "invar (cache_store c)"
    and "cache_invalidate cfg key c = (Inr u, c')"
  shows "visible view c' key now = None \<and> view (cache_store c') = (view (cache_store c))(key := None) \<and>
    map_of (memory (inner c')) = (map_of (memory (inner c)))(key := None)"
proof -
  obtain s1 where rm: "ps_remove vt key (cache_store c) = (Inr (), s1)"
    and c': "c' = record_event (Invalidation 1) (upd_inner (remove_disk_index key)
        (upd_inner (remove_memory key) (c\<lparr> cache_store := s1 \<rparr>)))"
    using assms(2,4) by (auto simp: cache_invalidate_def io_simps store_call_def split: prod.splits)
  have "view s1 = (view (cache_store c))(key := None)"
    using fallible_store.remove_result [OF assms(1,3) rm] by blast
  moreover have "map_of (disk (remove_disk_index key i)) key = None" for i
    by (simp add: remove_disk_index_def hm_simps split: option.splits)
  ultimately show ?thesis by (simp add: c' visible_def persistent_value_def)
qed

theorem invalidate_removes_everywhere_witness:
  "visible volatile_view (snd (cache_invalidate demo_config ''k'' demo_pinned)) ''k'' 7 = None"
proof -
  have run: "cache_invalidate demo_config ''k'' demo_pinned =
      (Inr (), snd (cache_invalidate demo_config ''k'' demo_pinned))"
    by (simp add: cache_invalidate_def store_call_def volatile_vt_def volatile_remove_def)
  have "volatile_inv (cache_store demo_pinned)" by (simp add: demo_pinned_def volatile_inv_def volatile_new_def)
  from invalidate_removes_everywhere [OF volatile.fallible_store_axioms _ this run] show ?thesis by simp
qed

text \<open>
  Batches validate before they act. When any key of a batch is rejected, neither
  \<open>put_many\<close> nor \<open>invalidate_many\<close> changes the cache, its store, its clock or its metrics.
\<close>

theorem batches_validate_first:
  assumes "ks_validate (key_strategy cfg) k = Inl e"
  shows "(k \<in> fst ` set entries \<longrightarrow> (\<exists>e'. cache_put_many cfg entries c = (Inl e', c))) \<and>
         (k \<in> set keys \<longrightarrow> (\<exists>e'. cache_invalidate_many cfg keys c = (Inl e', c)))"
proof -
  have "\<exists>e'. validate_all cfg ks = Inl e'" if "k \<in> set ks" for ks
    using that
  proof (induction ks)
    case (Cons x ks)
    then show ?case using assms by (cases "ks_validate (key_strategy cfg) x") auto
  qed simp
  from this [of "map fst entries"] this [of keys] show ?thesis
    unfolding cache_put_many_def cache_invalidate_many_def
    by (metis check_then_simps(1) set_map)
qed

theorem batches_validate_first_witness:
  "\<exists>e'. cache_put_many demo_config [(''a'', [1], None, False), ([], [2], None, False)] demo_pinned = (Inl e', demo_pinned)"
proof -
  have "ks_validate (key_strategy demo_config) [] = Inl (IoError InvalidInput ''empty key'')"
    by (simp add: demo_config_def)
  from batches_validate_first [OF this] show ?thesis by fastforce
qed

end
