(* ===== verification/CachePersistence.thy ===== *)
theory CachePersistence
  imports CacheProps
begin

text \<open>
  The persistent tier of the bounded cache: what writes, evictions and a restart do to the store,
  for any backend with the contract of \<open>fallible_store\<close>, and the survival of a pinned entry
  across a restart on the filesystem store.
\<close>

section \<open>Effects on the store\<close>

definition disk_kept ::
  "('s \<Rightarrow> string \<Rightarrow> stored_entry option) \<Rightarrow> string \<Rightarrow> 's cache \<Rightarrow> 's cache \<Rightarrow> bool" where
  "disk_kept view k c c' \<longleftrightarrow>
     map_of (disk (inner c')) k = map_of (disk (inner c)) k \<and>
     view (cache_store c') k = view (cache_store c) k"

lemma disk_kept_refl [simp]: "disk_kept view k c c"
  by (simp add: disk_kept_def)

lemma disk_kept_trans: "disk_kept view k c c1 \<Longrightarrow> disk_kept view k c1 c2 \<Longrightarrow> disk_kept view k c c2"
  by (simp add: disk_kept_def)

lemma store_upd [simp]:
  "disk_kept view k c (upd_stats f c') = disk_kept view k c c'"
  "disk_kept view k c (record_event ev c') = disk_kept view k c c'"
  "disk_kept view k c (record_count n evf c') = disk_kept view k c c'"
  by (simp_all add: disk_kept_def)

lemma remove_disk_record_store:
  assumes st: "fallible_store vt view invar" and "store cfg = Some vt" "invar (cache_store c)"
    and run: "remove_disk_record_locked cfg key b c = (r, c')"
  shows "invar (cache_store c') \<and> (\<forall>k. k \<noteq> key \<longrightarrow> disk_kept view k c c')"
proof (cases "map_of (disk (inner c)) key")
  case None
  with run assms(3) show ?thesis by (simp add: remove_disk_record_locked_def)
next
  case (Some d)
  let ?c1 = "upd_inner (\<lambda>i. i\<lparr> disk := AList.delete key (disk i) \<rparr>) c"
  obtain r2 s2 where rm: "ps_remove vt key (cache_store c) = (r2, s2)" by fastforce
  let ?c2 = "?c1\<lparr> cache_store := s2 \<rparr>"
  have s2: "invar s2 \<and> (\<forall>k. k \<noteq> key \<longrightarrow> view s2 k = view (cache_store c) k)"
    using fallible_store.remove_error [OF st assms(3)] fallible_store.remove_result [OF st assms(3)] rm
    by (cases r2) auto
  have call: "store_call (ps_remove vt key) ?c1 = (r2, ?c2)" using rm by (simp add: store_call_def)
  have "inner c' \<in> {inner ?c2} \<or> disk (inner c') = disk (inner ?c2)" "cache_store c' = s2"
    using run Some assms(2) call
    by (cases r2; auto simp: remove_disk_record_locked_def Let_def)+
  then have "disk (inner c') = AList.delete key (disk (inner c))" by auto
  with s2 \<open>cache_store c' = s2\<close> show ?thesis by (simp add: disk_kept_def hm_simps)
qed

lemma evict_disk_store:
  assumes st: "fallible_store vt view invar"
    and "store cfg = Some vt" "invar (cache_store c)" "evict_disk_locked cfg n c = (r, c')"
  shows "invar (cache_store c') \<and>
    (\<forall>k. (\<forall>d. map_of (disk (inner c)) k = Some d \<longrightarrow> rec_pinned d) \<longrightarrow> disk_kept view k c c')"
  using assms(2-)
proof (induction cfg n c rule: evict_disk_locked.induct)
  case (1 cfg n c)
  show ?case
  proof (cases "max_disk_bytes cfg < disk_bytes (inner c) \<and>
      chosen_key cfg (disk_candidates (map_order cfg) (inner c)) \<noteq> None")
    case False
    then have "c' = c" using 1(4) by (subst (asm) evict_disk_locked.simps) (auto split: if_splits option.splits)
    with 1(3) show ?thesis by simp
  next
    case True
    then obtain key where key: "chosen_key cfg (disk_candidates (map_order cfg) (inner c)) = Some key" by auto
    obtain d where d: "map_of (disk (inner c)) key = Some d" "\<not> rec_pinned d"
      using disk_candidate_resident [OF chosen_key_candidate [OF key]] by blast
    obtain r1 c1 where rm: "remove_disk_record_locked cfg key False c = (r1, c1)" by fastforce
    note store1 = remove_disk_record_store [OF st 1(2,3) rm]
    let ?c2 = "upd_stats (\<lambda>st. st\<lparr> st_disk_evictions := sat_add (st_disk_evictions st) 1 \<rparr>) c1"
    have kept: "k \<noteq> key" if "\<forall>d. map_of (disk (inner c)) k = Some d \<longrightarrow> rec_pinned d" for k
      using that d by auto
    show ?thesis
    proof (cases r1)
      case (Inl e)
      then have "c' = c1" using 1(4) True key rm by (subst (asm) evict_disk_locked.simps) simp
      with store1 kept show ?thesis by blast
    next
      case (Inr u)
      then have "evict_disk_locked cfg (sat_add n 1) ?c2 = (r, c')"
        using 1(4) True key rm by (subst (asm) evict_disk_locked.simps) simp
      moreover have "invar (cache_store ?c2)" using store1 by simp
      ultimately have ih: "invar (cache_store c') \<and>
          (\<forall>k. (\<forall>d. map_of (disk (inner ?c2)) k = Some d \<longrightarrow> rec_pinned d) \<longrightarrow> disk_kept view k ?c2 c')"
        using 1(1) [OF _ key rm [symmetric] Inr 1(2)] True by blast
      have "disk_kept view k c c'" if pin: "\<forall>d. map_of (disk (inner c)) k = Some d \<longrightarrow> rec_pinned d" for k
      proof -
        have "disk_kept view k c ?c2" using store1 kept [OF pin] by simp
        moreover from this pin have "disk_kept view k ?c2 c'" using ih by (simp add: disk_kept_def)
        ultimately show ?thesis by (rule disk_kept_trans)
      qed
      with ih show ?thesis by blast
    qed
  qed
qed

text \<open>The store holds the entry and the index describes it.\<close>

definition persisted ::
  "('s \<Rightarrow> string \<Rightarrow> stored_entry option) \<Rightarrow> string \<Rightarrow> stored_entry \<Rightarrow> 's cache \<Rightarrow> bool" where
  "persisted view key x c \<longleftrightarrow> view (cache_store c) key = Some x \<and>
     (\<exists>d. map_of (disk (inner c)) key = Some d \<and> describes d x)"

lemma insert_disk_pinned:
  assumes st: "fallible_store vt view invar" and "store cfg = Some vt" "invar (cache_store c)"
    and "view (cache_store c) key = None" "entry_pinned x" "length (entry_value x) < 2 ^ 63"
    and run: "insert_disk cfg vt key x c = (Inr n, c')"
  shows "invar (cache_store c') \<and> persisted view key x c'"
proof -
  obtain out s1 where put: "ps_put_if_absent vt key x (cache_store c) = (Inr out, s1)"
    using run by (auto simp: insert_disk_def and_then_eq_Inr store_call_def split: prod.splits)
  have s1: "out_inserted out" "invar s1" "view s1 key = Some x"
    using fallible_store.put_result [OF st assms(3,6) put] assms(4) by auto
  let ?c1 = "upd_inner (index_inserted key (out_stored_bytes out) (entry_expires_at x) (entry_pinned x))
               (c\<lparr> cache_store := s1 \<rparr>)"
  have ev: "evict_disk_locked cfg 0 ?c1 = (Inr n, c')"
    using run put s1 by (simp add: insert_disk_def store_call_def)
  have idx: "\<exists>d. map_of (disk (inner ?c1)) key = Some d \<and> describes d x \<and> rec_pinned d"
    using assms(5) by (simp add: index_inserted_def next_tick_def Let_def hm_simps describes_def)
  have inv1: "invar (cache_store ?c1)" using s1 by simp
  note e = evict_disk_store [OF st assms(2) inv1 ev]
  have "\<forall>d. map_of (disk (inner ?c1)) key = Some d \<longrightarrow> rec_pinned d" using idx by auto
  with e have "disk_kept view key ?c1 c'" by blast
  with idx s1(3) e show ?thesis by (auto simp: persisted_def disk_kept_def)
qed

lemma put_pinned_persists:
  assumes st: "fallible_store vt view invar" and vt: "store cfg = Some vt" and inv: "invar (cache_store c)"
    and absent: "view (cache_store c) key = None" "map_of (disk (inner c)) key = None"
    and fits: "v \<noteq> []" "length v < 2 ^ 63" "max_disk_bytes cfg > 0" "len64 v \<le> max_disk_bytes cfg"
    and run: "cache_put cfg key v ttl True c = (Inr u, c')"
  shows "invar (cache_store c') \<and>
    persisted view key \<lparr> entry_value = v,
      entry_expires_at = put_expiry (clock cfg (clock_reads c)) (case ttl of Some d \<Rightarrow> d | None \<Rightarrow> default_ttl cfg),
      entry_pinned = True \<rparr> c'"
proof -
  obtain now c1 where now: "now_seconds cfg c = (now, c1)" by fastforce
  have c1: "inner c1 = inner c" "cache_store c1 = cache_store c" "now = clock cfg (clock_reads c)"
    using now by (auto simp: now_seconds_def)
  let ?e = "put_expiry now (case ttl of Some d \<Rightarrow> d | None \<Rightarrow> default_ttl cfg)"
  let ?x = "\<lparr> entry_value = v, entry_expires_at = ?e, entry_pinned = True \<rparr>"
  obtain w where ok: "ks_validate (key_strategy cfg) key = Inr w"
    using run by (auto simp: cache_put_def check_then_eq_Inr)
  obtain ns c2 where pp: "put_persistent cfg key v ?e True now c1 = (Inr ns, c2)"
    using run ok now fits(1) by (auto simp: cache_put_def and_then_eq_Inr Let_def)
  have "expire_disk cfg key now c1 = (Inr 0, c1)" using absent(2) c1(1) by (simp add: expire_disk_def)
  then obtain m where ins: "insert_disk cfg vt key ?x c1 = (Inr m, c2)"
    using pp vt fits absent(2) c1 by (auto simp: put_persistent_def and_then_eq_Inr)
  have p2: "invar (cache_store c2) \<and> persisted view key ?x c2"
    by (rule insert_disk_pinned [OF st vt _ _ _ _ ins]) (use inv absent c1 fits in simp_all)
  obtain me j where pm: "put_memory cfg key v ?e True (inner c2) = (me, j)" by fastforce
  have "disk (insert_memory_locked key v ?e True i) = disk i" for i
    by (simp add: insert_memory_locked_def remove_memory_def next_tick_def Let_def split: option.splits)
  then have disk: "disk j = disk (inner c2)"
    using pm evict_memory_frame by (fastforce simp: put_memory_def split: if_splits)
  have "disk (inner c') = disk j" "cache_store c' = cache_store c2"
    using run ok now fits(1) pp pm by (auto simp: cache_put_def Let_def split: prod.splits)
  with p2 disk c1(3) show ?thesis by (simp add: persisted_def)
qed

section \<open>Reopening\<close>

lemma load_records_store:
  assumes st: "fallible_store vt view invar" and "invar (cache_store c)" "distinct (map rec_key rs)"
    and "load_records vt now rs n c = (Inr m, c')"
  shows "invar (cache_store c') \<and>
    (\<forall>k. k \<notin> rec_key ` set rs \<longrightarrow> disk_kept view k c c') \<and>
    (\<forall>r \<in> set rs. \<not> is_expired (rec_expires_at r) now \<longrightarrow>
       map_of (disk (inner c')) (rec_key r) = Some r \<and>
       view (cache_store c') (rec_key r) = view (cache_store c) (rec_key r))"
  using assms(2-)
proof (induction rs arbitrary: n c)
  case Nil
  then show ?case by simp
next
  case (Cons x rs)
  obtain c1 n1 where c1: "load_records vt now rs n1 c1 = (Inr m, c')" "invar (cache_store c1)"
    and other: "\<forall>k. k \<noteq> rec_key x \<longrightarrow> disk_kept view k c c1"
    and here: "\<not> is_expired (rec_expires_at x) now \<longrightarrow> map_of (disk (inner c1)) (rec_key x) = Some x \<and>
        view (cache_store c1) (rec_key x) = view (cache_store c) (rec_key x)"
  proof (cases "is_expired (rec_expires_at x) now")
    case True
    then obtain u s1 where rm: "ps_remove vt (rec_key x) (cache_store c) = (Inr u, s1)"
      and l: "load_records vt now rs (sat_add n 1) (upd_stats bump_expirations (c\<lparr> cache_store := s1 \<rparr>)) = (Inr m, c')"
      using Cons.prems(3) by (auto simp: and_then_eq_Inr store_call_def split: prod.splits)
    have "view s1 = (view (cache_store c))(rec_key x := None) \<and> invar s1"
      using fallible_store.remove_result [OF st Cons.prems(1) rm] .
    with True l that show ?thesis by (force simp: disk_kept_def)
  next
    case False
    let ?c1 = "upd_inner (\<lambda>i. i\<lparr> tick := max (tick i) (rec_last_access x),
       disk_bytes := sat_add (disk_bytes i) (rec_stored_bytes x), disk := AList.update (rec_key x) x (disk i) \<rparr>) c"
    have "load_records vt now rs n ?c1 = (Inr m, c')" using Cons.prems(3) False by simp
    then show ?thesis using that Cons.prems(1) by (force simp: disk_kept_def hm_simps)
  qed
  have ih: "invar (cache_store c') \<and>
    (\<forall>k. k \<notin> rec_key ` set rs \<longrightarrow> disk_kept view k c1 c') \<and>
    (\<forall>r \<in> set rs. \<not> is_expired (rec_expires_at r) now \<longrightarrow>
       map_of (disk (inner c')) (rec_key r) = Some r \<and>
       view (cache_store c') (rec_key r) = view (cache_store c1) (rec_key r))"
    using Cons.IH [OF c1(2) _ c1(1)] Cons.prems(2) by simp
  have x: "rec_key x \<notin> rec_key ` set rs" using Cons.prems(2) by auto
  then have kx: "disk_kept view (rec_key x) c1 c'" using ih by blast
  have "map_of (disk (inner c')) (rec_key r) = Some r \<and>
       view (cache_store c') (rec_key r) = view (cache_store c) (rec_key r)"
    if "r \<in> set (x # rs)" "\<not> is_expired (rec_expires_at r) now" for r
  proof (cases "r = x")
    case True
    with here kx that show ?thesis by (simp add: disk_kept_def)
  next
    case False
    with that have "r \<in> set rs" by simp
    moreover from this x have "rec_key r \<noteq> rec_key x" by (metis imageI)
    ultimately show ?thesis using that(2) ih other by (simp add: disk_kept_def)
  qed
  moreover have "disk_kept view k c c'" if "k \<notin> rec_key ` set (x # rs)" for k
  proof -
    from that have "k \<noteq> rec_key x" "k \<notin> rec_key ` set rs" by auto
    with other ih show ?thesis by (blast intro: disk_kept_trans)
  qed
  ultimately show ?case using ih by blast
qed

lemma from_builder_indexes:
  assumes st: "fallible_store vt view invar" and vt: "store cfg = Some vt" and disk: "max_disk_bytes cfg > 0"
    and run: "from_builder cfg s = (Inr u, c)"
    and load: "ps_load_index vt s = (Inr snap, s1)" "invar s1" "distinct (map rec_key (snap_entries snap))"
    and r: "r \<in> set (snap_entries snap)" "rec_pinned r" "\<not> is_expired (rec_expires_at r) (clock cfg 0)"
  shows "invar (cache_store c) \<and> map_of (disk (inner c)) (rec_key r) = Some r \<and>
    view (cache_store c) (rec_key r) = view s1 (rec_key r)"
proof -
  let ?c2 = "\<lparr> inner = inner_default, cache_store = s1, clock_reads = Suc 0, events = [] \<rparr> :: _ cache"
  let ?c3 = "upd_stats (\<lambda>st. st\<lparr> st_corruptions := sat_add (st_corruptions st) (snap_corruptions snap) \<rparr>) ?c2"
  obtain m c4 k c5 where lr: "load_records vt (clock cfg 0) (snap_entries snap) 0 ?c3 = (Inr m, c4)"
    and ev: "evict_disk_locked cfg 0 c4 = (Inr k, c5)"
    and c: "inner c = inner c5" "cache_store c = cache_store c5"
    using run vt disk load(1)
    by (auto simp: from_builder_def Let_def store_call_def now_seconds_def and_then_eq_Inr)
  have inv3: "invar (cache_store ?c3)" using load(2) by simp
  note l = load_records_store [OF st inv3 load(3) lr]
  then have r4: "map_of (disk (inner c4)) (rec_key r) = Some r" "view (cache_store c4) (rec_key r) = view s1 (rec_key r)"
    using r by auto
  have "disk_kept view (rec_key r) c4 c5 \<and> invar (cache_store c5)"
    using evict_disk_store [OF st vt _ ev] l r4(1) r(2) by auto
  with r4 c show ?thesis by (simp add: disk_kept_def)
qed

section \<open>Properties\<close>

text \<open>
  A pinned write that succeeds is durable on any backend that keeps the storage contract:
  afterwards the store holds exactly the written bytes with their expiry, and the index
  describes them, whatever else the write had to evict.
\<close>

theorem pinned_write_is_durable:
  assumes "fallible_store vt view invar" and "store cfg = Some vt" and "invar (cache_store c)"
    and "view (cache_store c) key = None" and "map_of (disk (inner c)) key = None"
    and "v \<noteq> []" and "length v < 2 ^ 63" and "max_disk_bytes cfg > 0" and "len64 v \<le> max_disk_bytes cfg"
    and "cache_put cfg key v ttl True c = (Inr u, c')"
  shows "persisted view key \<lparr> entry_value = v,
      entry_expires_at = put_expiry (clock cfg (clock_reads c)) (case ttl of Some d \<Rightarrow> d | None \<Rightarrow> default_ttl cfg),
      entry_pinned = True \<rparr> c'"
  using put_pinned_persists [OF assms] by blast

definition demo_empty :: "volatile_store cache" where
  "demo_empty = \<lparr> inner = inner_default, cache_store = volatile_new, clock_reads = 0, events = [] \<rparr>"

theorem pinned_write_is_durable_witness:
  "persisted volatile_view ''k'' \<lparr> entry_value = [1, 2], entry_expires_at = 0, entry_pinned = True \<rparr>
     (snd (cache_put demo_config ''k'' [1, 2] None True demo_empty))"
proof -
  have "fst (cache_put demo_config ''k'' [1, 2] None True demo_empty) = Inr ()" by code_simp
  then obtain c' where run: "cache_put demo_config ''k'' [1, 2] None True demo_empty = (Inr (), c')"
    by (metis prod.collapse)
  have "put_expiry n dur_zero = 0" for n by (simp add: put_expiry_def dur_is_zero_def dur_zero_def)
  then show ?thesis
    using pinned_write_is_durable [OF volatile.fallible_store_axioms _ _ _ _ _ _ _ _ run] run
    by (simp add: demo_empty_def inner_default_def volatile_defs volatile_new_def len64_def word_le_nat_alt)
qed


definition demo_disk_config :: "fs cache_config" where
  "demo_disk_config = (builder_default demo_crypto (\<lambda>n. of_nat n) (\<lambda>ks. ks))
     \<lparr> max_memory_bytes := 64, max_disk_bytes := 100, store := Some (file_vt demo_crypto (\<lambda>ks. ks)),
       key_strategy := \<lparr> ks_make_key = sha256_make_key demo_crypto, ks_validate = (\<lambda>k. Inr ()) \<rparr> \<rparr>"

definition demo_disk_cache :: "fs cache" where
  "demo_disk_cache = \<lparr> inner = inner_default, cache_store = demo_dir, clock_reads = 0, events = [] \<rparr>"


text \<open>
  When the store refuses to delete an entry, \<open>remove_disk_record_locked\<close> has already dropped
  it from the index but keeps its bytes in the counter: the entry stays in the store, the cache no
  longer finds it, and \<open>disk_bytes\<close> overstates the index by its size.
\<close>

theorem failed_removal_leaks_bytes:
  assumes "fallible_store vt view invar" and "store cfg = Some vt" and "invar (cache_store c)"
    and "hm_ok (disk (inner c))" and "map_of (disk (inner c)) key = Some d"
    and "unat (disk_bytes (inner c)) = hm_sum (\<lambda>r. unat (rec_stored_bytes r)) (disk (inner c))"
    and "remove_disk_record_locked cfg key expired c = (Inl e, c')"
  shows "map_of (disk (inner c')) key = None \<and> view (cache_store c') = view (cache_store c) \<and>
    unat (disk_bytes (inner c')) =
      hm_sum (\<lambda>r. unat (rec_stored_bytes r)) (disk (inner c')) + unat (rec_stored_bytes d)"
proof -
  let ?c1 = "upd_inner (\<lambda>i. i\<lparr> disk := AList.delete key (disk i) \<rparr>) c"
  obtain s2 where rm: "ps_remove vt key (cache_store c) = (Inl e, s2)" "c' = ?c1\<lparr> cache_store := s2 \<rparr>"
  proof -
    obtain r2 s2 where rm: "ps_remove vt key (cache_store c) = (r2, s2)" by fastforce
    with assms(2,5,7) show ?thesis
      by (cases r2) (auto simp: remove_disk_record_locked_def store_call_def Let_def intro: that)
  qed
  have "view s2 = view (cache_store c)" using fallible_store.remove_error [OF assms(1,3) rm(1)] by blast
  with rm(2) assms(4-6) hm_sum_delete [OF assms(4,5), of "\<lambda>r. unat (rec_stored_bytes r)"]
  show ?thesis by (simp add: hm_simps)
qed

definition demo_stuck :: "fs cache" where
  "demo_stuck = \<lparr> inner = inner_default\<lparr> disk := [(''k'', \<lparr> rec_key = ''k'', rec_stored_bytes = 59,
       rec_expires_at = 0, rec_pinned = True, rec_last_access = 1 \<rparr>)], disk_bytes := 59 \<rparr>,
     cache_store = demo_stored_dir\<lparr> fs_faults := (\<lambda>_. Some (io_other ''busy'')) \<rparr>,
     clock_reads = 0, events = [] \<rparr>"

theorem failed_removal_leaks_bytes_witness:
  "map_of (disk (inner (snd (remove_disk_record_locked demo_disk_config ''k'' True demo_stuck)))) ''k'' = None \<and>
   unat (disk_bytes (inner (snd (remove_disk_record_locked demo_disk_config ''k'' True demo_stuck)))) = 59"
proof -
  let ?flt = "\<lambda>_. Some (io_other ''busy'')"
  have inv: "file_inv demo_crypto (\<lambda>ks. ks) ?flt (cache_store demo_stuck)"
    using demo_stored_dir_inv by (auto simp: demo_stuck_def file_inv_def io_other_def)
  have cfg: "store demo_disk_config = Some (file_vt demo_crypto (\<lambda>ks. ks))"
    by (simp add: demo_disk_config_def builder_default_def)
  have "fst (remove_disk_record_locked demo_disk_config ''k'' True demo_stuck) = Inl (io_other ''busy'')"
    by code_simp
  then obtain c' where run: "remove_disk_record_locked demo_disk_config ''k'' True demo_stuck = (Inl (io_other ''busy''), c')"
    by (metis prod.collapse)
  have d: "map_of (disk (inner demo_stuck)) ''k'' = Some \<lparr> rec_key = ''k'', rec_stored_bytes = 59,
       rec_expires_at = 0, rec_pinned = True, rec_last_access = 1 \<rparr>" and h: "hm_ok (disk (inner demo_stuck))"
    by (simp_all add: demo_stuck_def hm_ok_def)
  have acc: "unat (disk_bytes (inner demo_stuck)) = hm_sum (\<lambda>r. unat (rec_stored_bytes r)) (disk (inner demo_stuck))"
    by (simp add: demo_stuck_def hm_sum_def)
  have "disk (inner c') = []"
    using run by (auto simp: remove_disk_record_locked_def Let_def demo_stuck_def and_then_def
        split: option.splits prod.splits sum.splits dest!: store_call_inner)
  with failed_removal_leaks_bytes [OF disk.fallible_store_axioms cfg inv h d acc run] run show ?thesis by simp
qed

end
