(* ===== verification/Kv.thy ===== *)
theory Kv
  imports ContextCache "HOL-Library.Sublist"
begin

text \<open>
  The data model of \<open>src/kv.rs\<close>: block identities, tier entries and their envelope, the
  \<open>KvTier\<close> trait as a table of methods, the tier over a bounded cache, the block keys of a
  capture request and the prefix index. The locale \<open>coherent_tier\<close> is the contract of a cache
  tier: it may forget, but never answers with something that was not stored last.
\<close>

section \<open>Block identity\<close>

record kv_block_range =
  rng_block_index :: u32
  rng_token_start :: u32
  rng_token_count :: u32
  rng_layer_start :: u32
  rng_layer_count :: u32
  rng_layout_version :: u32

record kv_block_key =
  key_model_fingerprint :: string
  key_sequence_hash :: "u8 list"
  key_block_index :: u32
  key_token_start :: u32
  key_token_count :: u32
  key_layer_start :: u32
  key_layer_count :: u32
  key_layout_version :: u32

definition kv_key_domain :: "u8 list" where
  "kv_key_domain = as_bytes ''RIVET_KV_V1'' @ [0]"

text \<open>The bytes fed to the digest of a token prefix.\<close>

definition sequence_input :: "u32 list \<Rightarrow> u8 list" where
  "sequence_input prefix_tokens =
     kv_key_domain @ u64_le (len64 prefix_tokens) @ concat (map u32_le prefix_tokens)"

definition from_prefix :: "crypto \<Rightarrow> string \<Rightarrow> u32 list \<Rightarrow> kv_block_range \<Rightarrow> kv_block_key" where
  "from_prefix cr model_fingerprint prefix_tokens rng =
     \<lparr> key_model_fingerprint = model_fingerprint,
       key_sequence_hash = sha256 cr (sequence_input prefix_tokens),
       key_block_index = rng_block_index rng, key_token_start = rng_token_start rng,
       key_token_count = rng_token_count rng, key_layer_start = rng_layer_start rng,
       key_layer_count = rng_layer_count rng, key_layout_version = rng_layout_version rng \<rparr>"

definition cache_key_input :: "kv_block_key \<Rightarrow> u8 list" where
  "cache_key_input k =
     kv_key_domain @ length_prefixed (as_bytes (key_model_fingerprint k)) @ key_sequence_hash k @
     u32_le (key_block_index k) @ u32_le (key_token_start k) @ u32_le (key_token_count k) @
     u32_le (key_layer_start k) @ u32_le (key_layer_count k) @ u32_le (key_layout_version k)"

definition cache_key :: "crypto \<Rightarrow> kv_block_key \<Rightarrow> string" where
  "cache_key cr k = hex_encode cr (sha256 cr (cache_key_input k))"

record kv_block =
  blk_key :: kv_block_key
  blk_bytes :: "u8 list"

definition kv_block_new :: "kv_block_key \<Rightarrow> u8 list \<Rightarrow> kv_block io_result" where
  "kv_block_new k bs =
     (if bs = [] then Inl (IoError InvalidInput ''KV block payload must not be empty'')
      else Inr \<lparr> blk_key = k, blk_bytes = bs \<rparr>)"

record kv_tier_entry =
  te_block :: kv_block
  te_expires_at :: u64
  te_pinned :: bool

abbreviation te_key :: "kv_tier_entry \<Rightarrow> kv_block_key" where
  "te_key e \<equiv> blk_key (te_block e)"

abbreviation te_bytes :: "kv_tier_entry \<Rightarrow> u8 list" where
  "te_bytes e \<equiv> blk_bytes (te_block e)"

section \<open>Tiers\<close>

record 's kv_tier =
  kt_name :: string
  kt_get :: "kv_block_key \<Rightarrow> 's \<Rightarrow> kv_tier_entry option io_result \<times> 's"
  kt_put :: "kv_tier_entry \<Rightarrow> 's \<Rightarrow> unit io_result \<times> 's"
  kt_remove :: "kv_block_key \<Rightarrow> 's \<Rightarrow> unit io_result \<times> 's"
  kt_clear :: "'s \<Rightarrow> unit io_result \<times> 's"
  kt_health :: "'s \<Rightarrow> unit io_result \<times> 's"

text \<open>The provided methods of the trait.\<close>

definition default_clear :: "string \<Rightarrow> 's \<Rightarrow> unit io_result \<times> 's" where
  "default_clear name s = (Inl (IoError Unsupported (''KV tier '' @ name @ '' does not implement clear'')), s)"

definition default_health :: "'s \<Rightarrow> unit io_result \<times> 's" where
  "default_health s = (Inr (), s)"

subsection \<open>The envelope\<close>

definition tier_envelope_magic :: "u8 list" where
  "tier_envelope_magic = as_bytes ''RKV01'' @ [10]"

definition encode_tier_entry :: "kv_tier_entry \<Rightarrow> u8 list io_result" where
  "encode_tier_entry e =
     (if te_bytes e = [] then Inl (IoError InvalidInput ''KV tier entry payload must not be empty'')
      else Inr (tier_envelope_magic @ u64_le (te_expires_at e) @ [bool_byte (te_pinned e)] @
                u64_le (len64 (te_bytes e)) @ te_bytes e))"

definition cursor_u64 :: "u8 list \<Rightarrow> nat \<Rightarrow> (u64 \<times> nat) io_result" where
  "cursor_u64 bytes cursor =
     (let stop = usize_sat_add cursor 8 in
      if cursor \<le> stop \<and> stop \<le> length bytes
      then Inr (le_word (take (stop - cursor) (drop cursor bytes)), stop)
      else Inl (IoError UnexpectedEof ''truncated KV tier envelope''))"

definition decode_tier_entry :: "kv_block_key \<Rightarrow> u8 list \<Rightarrow> kv_tier_entry io_result" where
  "decode_tier_entry k encoded =
     (if length encoded < 6 + 8 + 1 + 8 \<or> take 6 encoded \<noteq> tier_envelope_magic
      then Inl (IoError InvalidData ''invalid KV tier envelope'')
      else result_bind (cursor_u64 encoded 6) (\<lambda>(expires_at, cursor).
        if cursor < length encoded \<and> encoded ! cursor \<le> 1 then
          result_bind (cursor_u64 encoded (cursor + 1)) (\<lambda>(payload_len, cursor2).
            if length encoded - cursor2 \<noteq> unat payload_len \<or> unat payload_len = 0
            then Inl (IoError InvalidData ''invalid KV tier payload length'')
            else Inr \<lparr> te_block = \<lparr> blk_key = k, blk_bytes = drop cursor2 encoded \<rparr>,
                       te_expires_at = expires_at, te_pinned = (encoded ! cursor = 1) \<rparr>)
        else Inl (IoError InvalidData ''invalid KV tier pin flag'')))"

subsection \<open>ContextCacheTier\<close>

definition context_cache_tier_new :: "string \<Rightarrow> 's cache \<Rightarrow> (string \<times> 's cache) io_result" where
  "context_cache_tier_new name c =
     (if blank name then Inl (IoError InvalidInput ''tier name must not be empty'') else Inr (name, c))"

definition cct_get ::
  "crypto \<Rightarrow> 's cache_config \<Rightarrow> kv_block_key \<Rightarrow> 's cache \<Rightarrow> kv_tier_entry option io_result \<times> 's cache" where
  "cct_get cr cfg k c =
     and_then (cache_get cfg (cache_key cr k) c) (\<lambda>r c1.
       case r of None \<Rightarrow> (Inr None, c1)
               | Some encoded \<Rightarrow> (result_bind (decode_tier_entry k encoded) (\<lambda>e. Inr (Some e)), c1))"

definition cct_put :: "crypto \<Rightarrow> 's cache_config \<Rightarrow> kv_tier_entry \<Rightarrow> 's cache \<Rightarrow> unit io_result \<times> 's cache" where
  "cct_put cr cfg e c =
     check_then (encode_tier_entry e) c (\<lambda>encoded.
       cache_put cfg (cache_key cr (te_key e)) encoded (Some dur_zero) (te_pinned e) c)"

definition cct_remove :: "crypto \<Rightarrow> 's cache_config \<Rightarrow> kv_block_key \<Rightarrow> 's cache \<Rightarrow> unit io_result \<times> 's cache" where
  "cct_remove cr cfg k c = cache_invalidate cfg (cache_key cr k) c"

definition cct_vt :: "crypto \<Rightarrow> 's cache_config \<Rightarrow> string \<Rightarrow> 's cache kv_tier" where
  "cct_vt cr cfg name =
     \<lparr> kt_name = name, kt_get = cct_get cr cfg, kt_put = cct_put cr cfg,
       kt_remove = cct_remove cr cfg, kt_clear = cache_clear cfg, kt_health = default_health \<rparr>"

section \<open>Allocators, transports, policies\<close>

type_synonym kv_allocator = "u8 list \<Rightarrow> u8 list io_result"
type_synonym kv_transport = "kv_block_key \<Rightarrow> u8 list \<Rightarrow> string \<Rightarrow> string \<Rightarrow> u8 list io_result"

definition vec_allocator :: kv_allocator where
  "vec_allocator bytes = Inr bytes"

definition copy_transport :: kv_transport where
  "copy_transport key bytes source destination = Inr bytes"

datatype kv_write_policy = Primary | AllTiers

section \<open>Capture requests\<close>

record kv_capture_request =
  req_model_fingerprint :: string
  req_tokens :: "u32 list"
  req_block_tokens :: nat
  req_layer_start :: u32
  req_layer_count :: u32
  req_layout_version :: u32

text \<open>\<open>slice::chunks\<close>; the size is positive wherever it is called.\<close>

function chunks :: "nat \<Rightarrow> 'a list \<Rightarrow> 'a list list" where
  "chunks n xs = (if n = 0 \<or> xs = [] then [] else take n xs # chunks n (drop n xs))"
  by pat_completeness auto
termination by (relation "measure (\<lambda>(n, xs). length xs)") auto

declare chunks.simps [simp del]

definition div_ceil :: "nat \<Rightarrow> nat \<Rightarrow> nat" where
  "div_ceil a b = (a div b) + (if a mod b > 0 then 1 else 0)"

definition block_key_at :: "crypto \<Rightarrow> kv_capture_request \<Rightarrow> nat \<Rightarrow> u32 list \<Rightarrow> kv_block_key" where
  "block_key_at cr req block_index chunk =
     (let token_start = usize_sat_mul block_index (req_block_tokens req);
          prefix_end = usize_sat_add token_start (length chunk) in
      from_prefix cr (req_model_fingerprint req) (take prefix_end (req_tokens req))
        \<lparr> rng_block_index = of_nat block_index, rng_token_start = of_nat token_start,
          rng_token_count = of_nat (length chunk), rng_layer_start = req_layer_start req,
          rng_layer_count = req_layer_count req, rng_layout_version = req_layout_version req \<rparr>)"

definition block_keys :: "crypto \<Rightarrow> kv_capture_request \<Rightarrow> kv_block_key list io_result" where
  "block_keys cr req =
     (if req_block_tokens req = 0
      then Inl (IoError InvalidInput ''block_tokens must be greater than zero'')
      else if req_layer_count req = 0
      then Inl (IoError InvalidInput ''layer_count must be greater than zero'')
      else if 0xFFFFFFFF < int (length (req_tokens req))
      then Inl (IoError InvalidInput ''token sequence is too large for KV block identity'')
      else if 0xFFFFFFFF < int (div_ceil (length (req_tokens req)) (req_block_tokens req))
      then Inl (IoError InvalidInput ''block count is too large for KV block identity'')
      else Inr (map (\<lambda>(block_index, chunk). block_key_at cr req block_index chunk)
                  (enumerate 0 (chunks (req_block_tokens req) (req_tokens req)))))"

section \<open>PrefixIndex\<close>

record prefix_record =
  pr_model_fingerprint :: string
  pr_tokens :: "u32 list"
  pr_block_keys :: "kv_block_key list"

record prefix_match =
  pm_matched_tokens :: nat
  pm_block_keys :: "kv_block_key list"

definition prefix_register ::
  "string \<Rightarrow> u32 list \<Rightarrow> kv_block_key list \<Rightarrow> prefix_record list \<Rightarrow> unit io_result \<times> prefix_record list" where
  "prefix_register model_fingerprint tokens keys records =
     (if tokens = [] \<or> keys = []
      then (Inl (IoError InvalidInput ''prefix records require tokens and block keys''), records)
      else if list_ex (\<lambda>k. key_model_fingerprint k \<noteq> model_fingerprint) keys
      then (Inl (IoError InvalidInput ''prefix block keys must match the registered model fingerprint''), records)
      else (Inr (), filter (\<lambda>r. pr_model_fingerprint r \<noteq> model_fingerprint \<or> pr_tokens r \<noteq> tokens) records @
              [\<lparr> pr_model_fingerprint = model_fingerprint, pr_tokens = tokens, pr_block_keys = keys \<rparr>]))"

definition longest_prefix :: "string \<Rightarrow> u32 list \<Rightarrow> prefix_record list \<Rightarrow> prefix_match option" where
  "longest_prefix model_fingerprint tokens records =
     map_option (\<lambda>r. \<lparr> pm_matched_tokens = length (pr_tokens r), pm_block_keys = pr_block_keys r \<rparr>)
       (max_by_key (\<lambda>r. length (pr_tokens r))
         (filter (\<lambda>r. pr_model_fingerprint r = model_fingerprint \<and> prefix (pr_tokens r) tokens) records))"

definition remove_model :: "string \<Rightarrow> prefix_record list \<Rightarrow> nat \<times> prefix_record list" where
  "remove_model model_fingerprint records =
     (let kept = filter (\<lambda>r. pr_model_fingerprint r \<noteq> model_fingerprint) records in
      (length records - length kept, kept))"

section \<open>Requests to a tier\<close>

datatype tier_request = GetBlock kv_block_key | PutEntry kv_tier_entry | RemoveBlock kv_block_key | ClearTier

datatype tier_reply = Found "kv_tier_entry option io_result" | Done "unit io_result"

fun tier_step :: "'s kv_tier \<Rightarrow> tier_request \<Rightarrow> 's \<Rightarrow> tier_reply \<times> 's" where
  "tier_step vt (GetBlock k) s = apfst Found (kt_get vt k s)"
| "tier_step vt (PutEntry e) s = apfst Done (kt_put vt e s)"
| "tier_step vt (RemoveBlock k) s = apfst Done (kt_remove vt k s)"
| "tier_step vt ClearTier s = apfst Done (kt_clear vt s)"

fun run_tier :: "('c \<Rightarrow> 's \<Rightarrow> 'a \<times> 's) \<Rightarrow> 'c list \<Rightarrow> 's \<Rightarrow> 'a list \<times> 's" where
  "run_tier step [] s = ([], s)"
| "run_tier step (c # cs) s = (case step c s of (a, s1) \<Rightarrow> apfst (Cons a) (run_tier step cs s1))"

text \<open>What no request changes, no sequence of requests changes.\<close>

lemma run_tier_keeps:
  assumes "\<And>c s a s'. step c s = (a, s') \<Longrightarrow> f s' = f s"
  shows "run_tier step cs s = (answers, s') \<Longrightarrow> f s' = f s"
proof (induction cs arbitrary: s answers)
  case (Cons c cs)
  obtain a s1 where a: "step c s = (a, s1)" by fastforce
  obtain as s2 where as: "run_tier step cs s1 = (as, s2)" by fastforce
  then have "s' = s2" using Cons.prems a by simp
  with Cons.IH [of s1 as] as assms [OF a] show ?case by simp
qed simp

section \<open>The contract of a cache tier\<close>

text \<open>
  A tier may forget entries at any time, so its contents only ever shrink except for the entry a
  write names. Keys are taken from a set on which the storage key is collision free; \<open>fits\<close> are
  the entries small enough for the tier to take.
\<close>

locale coherent_tier =
  fixes vt :: "'s kv_tier"
    and view :: "'s \<Rightarrow> kv_block_key \<Rightarrow> kv_tier_entry option"
    and invar :: "'s \<Rightarrow> bool"
    and used :: "kv_block_key set"
    and fits :: "kv_tier_entry \<Rightarrow> bool"
  assumes get_error: "invar s \<Longrightarrow> k \<in> used \<Longrightarrow> kt_get vt k s = (Inl e, s') \<Longrightarrow> view s' \<subseteq>\<^sub>m view s \<and> invar s'"
    and get_result: "invar s \<Longrightarrow> k \<in> used \<Longrightarrow> kt_get vt k s = (Inr r, s') \<Longrightarrow>
          (r = None \<or> r = view s k) \<and> view s' \<subseteq>\<^sub>m view s \<and> invar s'"
    and put_any: "invar s \<Longrightarrow> te_key x \<in> used \<Longrightarrow> length (te_bytes x) < 2 ^ 63 \<Longrightarrow>
          kt_put vt x s = (w, s') \<Longrightarrow>
          invar s' \<and> (\<forall>k. k \<noteq> te_key x \<longrightarrow> view s' k \<in> {None, view s k}) \<and>
          view s' (te_key x) \<in> {None, view s (te_key x), Some x}"
    and put_result: "invar s \<Longrightarrow> te_key x \<in> used \<Longrightarrow> length (te_bytes x) < 2 ^ 63 \<Longrightarrow> fits x \<Longrightarrow>
          kt_put vt x s = (Inr u, s') \<Longrightarrow>
          view s' (te_key x) \<in> {None, Some x}"
    and remove_any: "invar s \<Longrightarrow> k \<in> used \<Longrightarrow> kt_remove vt k s = (w, s') \<Longrightarrow> view s' \<subseteq>\<^sub>m view s \<and> invar s'"
    and remove_result: "invar s \<Longrightarrow> k \<in> used \<Longrightarrow> kt_remove vt k s = (Inr u, s') \<Longrightarrow> view s' k = None"
    and view_key: "invar s \<Longrightarrow> view s k = Some x \<Longrightarrow> te_key x = k"

section \<open>Lemmas\<close>

subsection \<open>The envelope\<close>

lemma envelope_magic_length [simp]: "length tier_envelope_magic = 6"
  by (simp add: tier_envelope_magic_def)

lemma cursor_u64_at:
  "cursor + 8 \<le> length bs \<Longrightarrow> cursor + 8 \<le> usize_max \<Longrightarrow>
   cursor_u64 bs cursor = Inr (le_word (take 8 (drop cursor bs)), cursor + 8)"
  by (simp add: cursor_u64_def usize_sat_add_def Let_def)

lemma usize_max_big: "n < 1000 \<Longrightarrow> n \<le> usize_max"
  by (simp add: usize_max_def)

lemma decode_encode:
  assumes "encode_tier_entry e = Inr bs" "length (te_bytes e) < 2 ^ 64"
  shows "decode_tier_entry (te_key e) bs = Inr e"
proof -
  let ?p = "te_bytes e"
  have bs: "bs = tier_envelope_magic @ u64_le (te_expires_at e) @ [bool_byte (te_pinned e)] @
      u64_le (len64 ?p) @ ?p" and ne: "?p \<noteq> []"
    using assms(1) by (auto simp: encode_tier_entry_def split: if_splits)
  have len: "length bs = 23 + length ?p" by (simp add: bs)
  have parts: "take 6 bs = tier_envelope_magic" "take 8 (drop 6 bs) = u64_le (te_expires_at e)"
    "bs ! 14 = bool_byte (te_pinned e)" "take 8 (drop 15 bs) = u64_le (len64 ?p)" "drop 23 bs = ?p"
    by (simp_all add: bs nth_append)
  have "cursor_u64 bs 6 = Inr (te_expires_at e, 14)" "cursor_u64 bs 15 = Inr (len64 ?p, 23)"
    using len parts by (simp_all add: cursor_u64_at usize_max_big)
  moreover have "unat (len64 ?p) = length ?p" using assms(2) by (simp add: sat_simps)
  ultimately show ?thesis
    using len parts ne by (simp add: decode_tier_entry_def)
qed

lemma decode_key: "decode_tier_entry k bs = Inr e \<Longrightarrow> te_key e = k \<and> te_bytes e \<noteq> []"
  by (auto simp: decode_tier_entry_def io_simps split: if_splits)

lemma encode_decode:
  assumes "decode_tier_entry k bs = Inr e" "length bs < 2 ^ 64"
  shows "encode_tier_entry e = Inr bs"
proof -
  from assms(1) have len: "23 \<le> length bs" and m: "take 6 bs = tier_envelope_magic"
    by (auto simp: decode_tier_entry_def split: if_splits)
  have c: "cursor_u64 bs 6 = Inr (le_word (take 8 (drop 6 bs)), 14)"
    "cursor_u64 bs 15 = Inr (le_word (take 8 (drop 15 bs)), 23)"
    using len by (simp_all add: cursor_u64_at usize_max_big)
  let ?n = "le_word (take 8 (drop 15 bs)) :: u64"
  from assms(1) len m have pin: "bs ! 14 \<le> 1" and plen: "length bs - 23 = unat ?n" "unat ?n \<noteq> 0"
    and e: "e = \<lparr> te_block = \<lparr> blk_key = k, blk_bytes = drop 23 bs \<rparr>,
        te_expires_at = le_word (take 8 (drop 6 bs)), te_pinned = (bs ! 14 = 1) \<rparr>"
    by (auto simp: decode_tier_entry_def c split: if_splits)
  have "bs ! 14 = bool_byte (bs ! 14 = 1)"
    using pin by (auto simp: bool_byte_def word_le_1_iff)
  moreover have "len64 (drop 23 bs) = ?n" using plen(1) by (simp add: len64_def)
  moreover have "drop 23 bs \<noteq> []" using plen by auto
  moreover have "bs = take 6 bs @ take 8 (drop 6 bs) @ [bs ! 14] @ take 8 (drop 15 bs) @ drop 23 bs"
  proof -
    have "drop 14 bs = bs ! 14 # drop 15 bs" using len Cons_nth_drop_Suc [of 14 bs] by simp
    moreover have "bs = take 6 bs @ drop 6 bs" by simp
    moreover have "drop 6 bs = take 8 (drop 6 bs) @ drop 14 bs"
      using append_take_drop_id [of 8 "drop 6 bs"] by (simp add: add.commute)
    moreover have "drop 15 bs = take 8 (drop 15 bs) @ drop 23 bs"
      using append_take_drop_id [of 8 "drop 15 bs"] by (simp add: add.commute)
    ultimately show ?thesis by (metis append_Cons append_Nil)
  qed
  ultimately show ?thesis using len m by (simp add: encode_tier_entry_def e)
qed

subsection \<open>Chunks and block keys\<close>

lemma chunks_nth:
  assumes "0 < n" "i < length (chunks n xs)"
  shows "chunks n xs ! i = take n (drop (i * n) xs)" and "i * n < length xs"
proof -
  have "chunks n xs ! i = take n (drop (i * n) xs) \<and> i * n < length xs"
    using assms
  proof (induction n xs arbitrary: i rule: chunks.induct)
    case (1 n xs)
    show ?case
    proof (cases "xs = []")
      case True
      with 1(3) show ?thesis by (simp add: chunks.simps)
    next
      case False
      then have ch: "chunks n xs = take n xs # chunks n (drop n xs)" using 1(2) by (subst chunks.simps) simp
      show ?thesis
      proof (cases i)
        case 0
        with ch False show ?thesis by simp
      next
        case (Suc j)
        then have "j < length (chunks n (drop n xs))" using 1(3) ch by simp
        with 1(1) [of j] 1(2) False
        have "chunks n (drop n xs) ! j = take n (drop (j * n) (drop n xs)) \<and> j * n < length (drop n xs)"
          by blast
        with Suc ch show ?thesis by (auto simp: add.commute)
      qed
    qed
  qed
  then show "chunks n xs ! i = take n (drop (i * n) xs)" "i * n < length xs" by blast+
qed

lemma concat_chunks: "0 < n \<Longrightarrow> concat (chunks n xs) = xs"
  by (induction n xs rule: chunks.induct) (subst chunks.simps, simp)

lemma length_chunks: "0 < n \<Longrightarrow> length (chunks n xs) = div_ceil (length xs) n"
proof (induction n xs rule: chunks.induct)
  case (1 n xs)
  show ?case
  proof (cases "xs = []")
    case True
    then show ?thesis by (simp add: chunks.simps div_ceil_def)
  next
    case False
    then have "length (chunks n xs) = Suc (div_ceil (length xs - n) n)"
      using 1 by (subst chunks.simps) simp
    moreover have "div_ceil (length xs) n = Suc (div_ceil (length xs - n) n)"
    proof (cases "n \<le> length xs")
      case True
      then show ?thesis using 1(2) by (simp add: div_ceil_def le_div_geq le_mod_geq)
    next
      case less: False
      then show ?thesis using False by (simp add: div_ceil_def)
    qed
    ultimately show ?thesis by simp
  qed
qed

subsection \<open>A memory-only ContextCacheTier keeps the contract\<close>

definition cct_view :: "crypto \<Rightarrow> kv_block_key set \<Rightarrow> 's cache \<Rightarrow> kv_block_key \<Rightarrow> kv_tier_entry option" where
  "cct_view cr used c k =
     (if k \<in> used then
        (case map_of (memory (inner c)) (cache_key cr k) of
           None \<Rightarrow> None
         | Some r \<Rightarrow> (case decode_tier_entry k (mem_value r) of Inr e \<Rightarrow> Some e | Inl _ \<Rightarrow> None))
      else None)"

definition cct_inv :: "crypto \<Rightarrow> 's cache_config \<Rightarrow> kv_block_key set \<Rightarrow> 's cache \<Rightarrow> bool" where
  "cct_inv cr cfg used c \<longleftrightarrow> store cfg = None \<and> disk (inner c) = [] \<and> inj_on (cache_key cr) used"

definition cct_fits :: "'s cache_config \<Rightarrow> kv_tier_entry \<Rightarrow> bool" where
  "cct_fits cfg x \<longleftrightarrow> max_memory_bytes cfg > 0 \<and>
     23 + length (te_bytes x) \<le> unat (max_memory_bytes cfg)"

definition mem_values :: "cache_inner \<Rightarrow> string \<Rightarrow> u8 list option" where
  "mem_values i k = map_option mem_value (map_of (memory i) k)"

lemma cct_view_values:
  "cct_view cr used c k = (if k \<in> used then
     (case mem_values (inner c) (cache_key cr k) of None \<Rightarrow> None
      | Some v \<Rightarrow> (case decode_tier_entry k v of Inr e \<Rightarrow> Some e | Inl _ \<Rightarrow> None)) else None)"
  by (simp add: cct_view_def mem_values_def split: option.splits)

lemma map_leI: "(\<And>k v. f k = Some v \<Longrightarrow> g k = Some v) \<Longrightarrow> f \<subseteq>\<^sub>m g"
  by (auto simp: map_le_def)

lemma cct_view_shrinks:
  "mem_values (inner c') \<subseteq>\<^sub>m mem_values (inner c) \<Longrightarrow> cct_view cr used c' \<subseteq>\<^sub>m cct_view cr used c"
proof (rule map_leI)
  fix k e
  assume le: "mem_values (inner c') \<subseteq>\<^sub>m mem_values (inner c)" and "cct_view cr used c' k = Some e"
  then obtain v where v: "k \<in> used" "mem_values (inner c') (cache_key cr k) = Some v" "decode_tier_entry k v = Inr e"
    by (auto simp: cct_view_values split: if_splits option.splits sum.splits)
  then have "mem_values (inner c) (cache_key cr k) = Some v" using le by (metis domI map_le_def)
  with v show "cct_view cr used c k = Some e" by (simp add: cct_view_values)
qed

lemma disk_mem_only [simp]:
  "disk (remove_memory key i) = disk i" "disk (memory_hit key r i) = disk i"
  "disk (insert_memory_locked key v e p i) = disk i"
  by (simp_all add: remove_memory_def memory_hit_def insert_memory_locked_def next_tick_def Let_def
      split: option.splits)

lemma mem_values_stats [simp]: "mem_values (inner (upd_stats f c)) = mem_values (inner c)"
  by (simp add: mem_values_def fun_eq_iff)

lemma mem_values_simps [simp]:
  "mem_values (remove_memory key i) = (mem_values i)(key := None)"
  "map_of (memory i) key = Some r \<Longrightarrow> mem_values (memory_hit key r i) = mem_values i"
  "mem_values (insert_memory_locked key v e p i) = (mem_values i)(key \<mapsto> v)"
  by (auto simp: mem_values_def fun_eq_iff memory_hit_def next_tick_def Let_def hm_simps)

lemma cache_get_memory_only:
  assumes "store cfg = None" "disk (inner c) = []" "cache_get cfg key c = (r, c')"
  shows "disk (inner c') = [] \<and> mem_values (inner c') \<subseteq>\<^sub>m mem_values (inner c) \<and>
    (\<forall>x. r = Inr x \<longrightarrow> x \<in> {None, mem_values (inner c) key})"
proof (cases "ks_validate (key_strategy cfg) key")
  case (Inl e)
  with assms show ?thesis by (auto simp: cache_get_def)
next
  case (Inr u)
  obtain now c1 where now: "now_seconds cfg c = (now, c1)" by fastforce
  have c1: "inner c1 = inner c" by (rule now_seconds_inner(1) [OF now])
  show ?thesis
  proof (cases "map_of (memory (inner c)) key")
    case None
    with assms Inr now c1 show ?thesis by (auto simp: cache_get_def get_persistent_def mem_values_def)
  next
    case (Some m)
    show ?thesis
    proof (cases "is_expired (mem_expires_at m) now")
      case True
      let ?c2 = "upd_stats bump_expirations (upd_inner (remove_memory key) c1)"
      have "get_persistent cfg key now 1 ?c2 = (r, c')"
        using assms(3) Inr now c1 Some True by (simp add: cache_get_def)
      then have "r = Inr None" "memory (inner c') = memory (remove_memory key (inner c))" "disk (inner c') = []"
        using assms(2) c1 by (auto simp: get_persistent_def)
      moreover from this(2) have "mem_values (inner c') = (mem_values (inner c))(key := None)"
        by (simp add: mem_values_def fun_eq_iff)
      ultimately show ?thesis by (simp add: map_le_def)
    next
      case False
      then have "r = Inr (Some (mem_value m))" "inner c' = memory_hit key m (inner c)"
        using assms(3) Inr now c1 Some by (auto simp: cache_get_def)
      with assms(2) Some show ?thesis by (simp add: mem_values_def [of _ key])
    qed
  qed
qed

lemma evicted_values: "evicted_from i i' \<Longrightarrow> mem_values i' \<subseteq>\<^sub>m mem_values i"
  unfolding evicted_from_def mem_values_def map_le_def by (metis domIff map_option_is_None)

lemma cache_put_memory_only:
  assumes "store cfg = None" "disk (inner c) = []" "v \<noteq> []" "cache_put cfg key v ttl p c = (r, c')"
  shows "disk (inner c') = [] \<and>
    (mem_values (inner c') = mem_values (inner c) \<and>
       \<not> (max_memory_bytes cfg > 0 \<and> len64 v \<le> max_memory_bytes cfg \<and> \<not> isl r) \<or>
     mem_values (inner c') \<subseteq>\<^sub>m (mem_values (inner c))(key \<mapsto> v))"
proof (cases "ks_validate (key_strategy cfg) key")
  case (Inl e)
  then have "r = Inl e" "c' = c" using assms(4) by (simp_all add: cache_put_def)
  with assms(2) show ?thesis by simp
next
  case (Inr u)
  obtain now c1 where now: "now_seconds cfg c = (now, c1)" by fastforce
  have c1: "inner c1 = inner c" by (rule now_seconds_inner(1) [OF now])
  let ?e = "put_expiry now (case ttl of Some d \<Rightarrow> d | None \<Rightarrow> default_ttl cfg)"
  obtain m j where pm: "put_memory cfg key v ?e p (inner c1) = (m, j)" by fastforce
  have "put_persistent cfg key v ?e p now c1 = (Inr (0, 0), c1)"
    using assms(1) by (simp add: put_persistent_def)
  then have c': "memory (inner c') = memory j" "disk (inner c') = disk j" "r = Inr ()"
    using assms(3,4) Inr now pm by (auto simp: cache_put_def Let_def)
  then have vals: "mem_values (inner c') = mem_values j" by (simp add: mem_values_def fun_eq_iff)
  show ?thesis
  proof (cases "max_memory_bytes cfg > 0 \<and> len64 v \<le> max_memory_bytes cfg")
    case True
    let ?i = "insert_memory_locked key v ?e p (inner c)"
    have "evict_memory_locked cfg 0 ?i = (m, j)"
      using pm True c1 by (simp add: put_memory_def)
    from evict_memory_frame [OF this] have "evicted_from ?i j" "disk j = disk (inner c)" by simp_all
    from evicted_values [OF this(1)] this(2) assms(2) vals c'(2) show ?thesis by simp
  next
    case False
    with pm c1 have "j = inner c" by (auto simp: put_memory_def split: if_splits)
    with vals c' False assms(2) show ?thesis by auto
  qed
qed

lemma cct_get_cases:
  assumes "cct_inv cr cfg used c" "k \<in> used" "cct_get cr cfg k c = (r, c')"
  shows "cct_inv cr cfg used c' \<and> cct_view cr used c' \<subseteq>\<^sub>m cct_view cr used c \<and>
    (\<forall>x. r = Inr x \<longrightarrow> x = None \<or> x = cct_view cr used c k)"
proof -
  obtain r1 where g: "cache_get cfg (cache_key cr k) c = (r1, c')"
    using assms(3) by (auto simp: cct_get_def and_then_def split: prod.splits sum.splits option.splits)
  have no: "store cfg = None" "disk (inner c) = []" using assms(1) by (auto simp: cct_inv_def)
  note m = cache_get_memory_only [OF no g]
  have "x = None \<or> x = cct_view cr used c k" if "r = Inr x" for x
  proof (cases r1)
    case (Inl e)
    with that assms(3) g show ?thesis by (simp add: cct_get_def)
  next
    case (Inr y)
    then have "y \<in> {None, mem_values (inner c) (cache_key cr k)}" using m by blast
    with that assms(2,3) g Inr show ?thesis
      by (auto simp: cct_get_def cct_view_values io_simps split: option.splits)
  qed
  with m cct_view_shrinks assms(1) show ?thesis by (auto simp: cct_inv_def)
qed

lemma cct_put_cases:
  assumes inv: "cct_inv cr cfg used c" and k: "te_key x \<in> used" and len: "length (te_bytes x) < 2 ^ 63"
    and put: "cct_put cr cfg x c = (r, c')"
  shows "cct_inv cr cfg used c' \<and>
    (\<forall>k. k \<noteq> te_key x \<longrightarrow> cct_view cr used c' k \<in> {None, cct_view cr used c k}) \<and>
    cct_view cr used c' (te_key x) \<in> {None, cct_view cr used c (te_key x), Some x} \<and>
    (cct_fits cfg x \<and> \<not> isl r \<longrightarrow> cct_view cr used c' (te_key x) \<in> {None, Some x})"
proof (cases "encode_tier_entry x")
  case (Inl e)
  with put have "c' = c" "r = Inl e" by (simp_all add: cct_put_def)
  with inv show ?thesis by simp
next
  case (Inr bs)
  let ?key = "cache_key cr (te_key x)"
  have p: "cache_put cfg ?key bs (Some dur_zero) (te_pinned x) c = (r, c')"
    using put Inr by (simp add: cct_put_def)
  have no: "store cfg = None" "disk (inner c) = []" and inj: "inj_on (cache_key cr) used"
    using inv by (auto simp: cct_inv_def)
  have bs: "bs \<noteq> []" "length bs = 23 + length (te_bytes x)"
    using Inr by (auto simp: encode_tier_entry_def split: if_splits)
  have dec: "decode_tier_entry (te_key x) bs = Inr x" using decode_encode [OF Inr] len by simp
  note m = cache_put_memory_only [OF no bs(1) p]
  have fit: "max_memory_bytes cfg > 0 \<and> len64 bs \<le> max_memory_bytes cfg" if "cct_fits cfg x"
    using that bs(2) len by (simp add: cct_fits_def word_le_nat_alt sat_simps)
  show ?thesis
  proof (cases "mem_values (inner c') \<subseteq>\<^sub>m (mem_values (inner c))(?key \<mapsto> bs)")
    case True
    then have le: "mem_values (inner c') q \<in> {None, ((mem_values (inner c))(?key \<mapsto> bs)) q}" for q
      by (metis domIff insertCI map_le_def)
    have other: "cct_view cr used c' k \<in> {None, cct_view cr used c k}" if "k \<noteq> te_key x" for k
    proof (cases "k \<in> used")
      case True
      then have "cache_key cr k \<noteq> ?key" using inj k that by (auto dest: inj_onD)
      with le [of "cache_key cr k"] show ?thesis by (auto simp: cct_view_values)
    qed (simp add: cct_view_values)
    have "cct_view cr used c' (te_key x) \<in> {None, Some x}"
      using le [of ?key] k dec by (auto simp: cct_view_values)
    with other m inv show ?thesis by (auto simp: cct_inv_def)
  next
    case False
    with m have "mem_values (inner c') = mem_values (inner c)"
      "\<not> (max_memory_bytes cfg > 0 \<and> len64 bs \<le> max_memory_bytes cfg \<and> \<not> isl r)" "disk (inner c') = []" by auto
    moreover from this(1) have "cct_view cr used c' = cct_view cr used c" by (simp add: cct_view_values fun_eq_iff)
    ultimately show ?thesis using fit inv by (auto simp: cct_inv_def)
  qed
qed

lemma cct_remove_cases:
  assumes inv: "cct_inv cr cfg used c" and k: "k \<in> used" and rm: "cct_remove cr cfg k c = (r, c')"
  shows "cct_inv cr cfg used c' \<and> cct_view cr used c' \<subseteq>\<^sub>m cct_view cr used c \<and>
    (\<not> isl r \<longrightarrow> cct_view cr used c' k = None)"
proof (cases "ks_validate (key_strategy cfg) (cache_key cr k)")
  case (Inl e)
  then have "c' = c" "r = Inl e" using rm by (simp_all add: cct_remove_def cache_invalidate_def)
  with inv show ?thesis by simp
next
  case (Inr u)
  have no: "store cfg = None" "disk (inner c) = []" using inv by (auto simp: cct_inv_def)
  have c': "memory (inner c') = memory (remove_memory (cache_key cr k) (inner c))" "disk (inner c') = []"
    using rm Inr no
    by (auto simp: cct_remove_def cache_invalidate_def remove_disk_index_def)
  then have v: "mem_values (inner c') = (mem_values (inner c))(cache_key cr k := None)"
    by (simp add: mem_values_def fun_eq_iff)
  then have "cct_view cr used c' \<subseteq>\<^sub>m cct_view cr used c"
    by (intro cct_view_shrinks) (simp add: map_le_def)
  with v c'(2) inv show ?thesis by (simp add: cct_inv_def cct_view_values)
qed

interpretation cct: coherent_tier "cct_vt cr cfg name" "cct_view cr used" "cct_inv cr cfg used" used "cct_fits cfg"
proof unfold_locales
  fix s k e s' r x w u
  assume inv: "cct_inv cr cfg used s"
  show "cct_view cr used s' \<subseteq>\<^sub>m cct_view cr used s \<and> cct_inv cr cfg used s'"
    if "k \<in> used" "kt_get (cct_vt cr cfg name) k s = (Inl e, s')"
    using cct_get_cases [OF inv that(1)] that by (simp add: cct_vt_def)
  show "(r = None \<or> r = cct_view cr used s k) \<and> cct_view cr used s' \<subseteq>\<^sub>m cct_view cr used s \<and> cct_inv cr cfg used s'"
    if "k \<in> used" "kt_get (cct_vt cr cfg name) k s = (Inr r, s')"
    using cct_get_cases [OF inv that(1)] that by (simp add: cct_vt_def)
  show "cct_inv cr cfg used s' \<and> (\<forall>k. k \<noteq> te_key x \<longrightarrow> cct_view cr used s' k \<in> {None, cct_view cr used s k}) \<and>
      cct_view cr used s' (te_key x) \<in> {None, cct_view cr used s (te_key x), Some x}"
    if "te_key x \<in> used" "length (te_bytes x) < 2 ^ 63" "kt_put (cct_vt cr cfg name) x s = (w, s')"
    using cct_put_cases [OF inv that(1,2)] that(3) by (simp add: cct_vt_def)
  show "cct_view cr used s' (te_key x) \<in> {None, Some x}"
    if "te_key x \<in> used" "length (te_bytes x) < 2 ^ 63" "cct_fits cfg x" "kt_put (cct_vt cr cfg name) x s = (Inr u, s')"
    using cct_put_cases [OF inv that(1,2)] that(3,4) by (simp add: cct_vt_def)
  show "cct_view cr used s' \<subseteq>\<^sub>m cct_view cr used s \<and> cct_inv cr cfg used s'"
    if "k \<in> used" "kt_remove (cct_vt cr cfg name) k s = (w, s')"
    using cct_remove_cases [OF inv that(1)] that by (simp add: cct_vt_def)
  show "cct_view cr used s' k = None" if "k \<in> used" "kt_remove (cct_vt cr cfg name) k s = (Inr u, s')"
    using cct_remove_cases [OF inv that(1)] that by (simp add: cct_vt_def)
  show "te_key x = k" if "cct_view cr used s k = Some x"
    using that decode_key by (auto simp: cct_view_values split: if_splits option.splits sum.splits)
qed

section \<open>Properties\<close>

text \<open>
  C10: the tier envelope loses nothing and accepts nothing else. An entry that encodes decodes
  back to itself under its key, and a byte string that decodes is exactly the encoding of the
  entry it decodes to.
\<close>

theorem tier_envelope_roundtrip:
  assumes "length (te_bytes e) < 2 ^ 64" and "length bs < 2 ^ 64"
  shows "(\<forall>enc. encode_tier_entry e = Inr enc \<longrightarrow> decode_tier_entry (te_key e) enc = Inr e) \<and>
         (\<forall>d. decode_tier_entry k bs = Inr d \<longrightarrow> te_key d = k \<and> encode_tier_entry d = Inr bs)"
  using decode_encode [of e] encode_decode [of k bs] decode_key [of k bs] assms by blast

definition demo_key :: kv_block_key where
  "demo_key = \<lparr> key_model_fingerprint = ''m'', key_sequence_hash = replicate 32 1, key_block_index = 0,
     key_token_start = 0, key_token_count = 2, key_layer_start = 0, key_layer_count = 1, key_layout_version = 1 \<rparr>"

definition demo_tier_entry :: kv_tier_entry where
  "demo_tier_entry = \<lparr> te_block = \<lparr> blk_key = demo_key, blk_bytes = [5, 6] \<rparr>, te_expires_at = 9, te_pinned = True \<rparr>"

theorem tier_envelope_roundtrip_witness:
  "\<exists>enc. encode_tier_entry demo_tier_entry = Inr enc \<and> decode_tier_entry demo_key enc = Inr demo_tier_entry"
proof -
  obtain enc where "encode_tier_entry demo_tier_entry = Inr enc"
    by (simp add: encode_tier_entry_def demo_tier_entry_def)
  with tier_envelope_roundtrip [of demo_tier_entry "[]" demo_key] show ?thesis
    by (simp add: demo_tier_entry_def)
qed

lemma unat_of_nat32: "n < 2 ^ 32 \<Longrightarrow> unat (of_nat n :: u32) = n"
  by (simp add: unat_of_nat)

lemma block_keys_Inr:
  assumes "block_keys cr req = Inr ks"
  shows "0 < req_block_tokens req \<and> length (req_tokens req) < 2 ^ 32 \<and>
    ks = map (\<lambda>(i, c). block_key_at cr req i c) (enumerate 0 (chunks (req_block_tokens req) (req_tokens req)))"
  using assms by (auto simp: block_keys_def split: if_splits)

lemma block_keys_nth:
  assumes "block_keys cr req = Inr ks" "i < length ks"
  shows "ks ! i = block_key_at cr req i (take (req_block_tokens req) (drop (i * req_block_tokens req) (req_tokens req)))"
    and "i * req_block_tokens req < length (req_tokens req)"
    and "length ks = div_ceil (length (req_tokens req)) (req_block_tokens req)"
  using block_keys_Inr [OF assms(1)] assms(2) chunks_nth [of "req_block_tokens req" i "req_tokens req"]
  by (simp_all add: nth_enumerate_eq length_chunks)

text \<open>
  The block keys of a request tile its token sequence. There are as many as blocks are
  needed, the i-th starts at token i times the block size without any 32-bit wrap-around, every
  block but the last is full, and each key is the digest of the whole prefix up to its last token.
\<close>

theorem block_keys_tile_the_sequence:
  assumes "block_keys cr req = Inr ks" and "i < length ks"
  shows "length ks = div_ceil (length (req_tokens req)) (req_block_tokens req) \<and>
    unat (key_block_index (ks ! i)) = i \<and>
    unat (key_token_start (ks ! i)) = i * req_block_tokens req \<and>
    unat (key_token_count (ks ! i)) = min (req_block_tokens req) (length (req_tokens req) - i * req_block_tokens req) \<and>
    key_sequence_hash (ks ! i) =
      sha256 cr (sequence_input (take ((i + 1) * req_block_tokens req) (req_tokens req)))"
proof -
  define b where "b = req_block_tokens req"
  define ts where "ts = req_tokens req"
  define start where "start = i * b"
  define n where "n = min b (length ts - start)"
  note nth = block_keys_nth [OF assms, folded b_def ts_def, folded start_def]
  have small: "length ts < 2 ^ 32" "0 < b" using block_keys_Inr [OF assms(1)] by (simp_all add: b_def ts_def)
  have len: "length (take b (drop start ts)) = n" by (simp add: n_def)
  have sat: "usize_sat_mul i b = start" "usize_sat_add start n = start + n"
    using nth(2) small by (simp_all add: usize_sat_mul_def usize_sat_add_def usize_max_def start_def n_def)
  have "i \<le> start" using small(2) by (cases b) (auto simp: start_def)
  then have bounds: "i < 2 ^ 32" "start < 2 ^ 32" "n < 2 ^ 32" using nth(2) small by (auto simp: n_def)
  have stop: "take (start + n) ts = take (start + b) ts"
  proof (cases "b \<le> length ts - start")
    case True
    then show ?thesis by (simp add: n_def)
  next
    case False
    then have "length ts \<le> start + n" "length ts \<le> start + b" using nth(2) by (auto simp: n_def)
    then show ?thesis by simp
  qed
  have "ks ! i = from_prefix cr (req_model_fingerprint req) (take (start + b) ts)
      \<lparr> rng_block_index = of_nat i, rng_token_start = of_nat start, rng_token_count = of_nat n,
        rng_layer_start = req_layer_start req, rng_layer_count = req_layer_count req,
        rng_layout_version = req_layout_version req \<rparr>"
    unfolding nth(1) block_key_at_def Let_def len b_def [symmetric] ts_def [symmetric] sat stop ..
  moreover have "(i + 1) * b = start + b" by (simp add: start_def)
  ultimately show ?thesis
    using nth(3) bounds unfolding b_def [symmetric] ts_def [symmetric]
    by (simp add: from_prefix_def unat_of_nat32 start_def [symmetric] n_def [symmetric] add.commute)
qed

definition demo_request :: kv_capture_request where
  "demo_request = \<lparr> req_model_fingerprint = ''m'', req_tokens = [1, 2, 3, 4, 5], req_block_tokens = 2,
     req_layer_start = 0, req_layer_count = 1, req_layout_version = 1 \<rparr>"

lemma demo_block_keys: "\<exists>ks. block_keys cr demo_request = Inr ks \<and> length ks = 3"
  by (simp add: block_keys_def demo_request_def div_ceil_def length_chunks)

theorem block_keys_tile_the_sequence_witness:
  "\<exists>ks. block_keys demo_crypto demo_request = Inr ks \<and> unat (key_token_start (ks ! 2)) = 4 \<and>
     unat (key_token_count (ks ! 2)) = 1"
proof -
  obtain ks where "block_keys demo_crypto demo_request = Inr ks" "length ks = 3"
    using demo_block_keys by blast
  with block_keys_tile_the_sequence [of demo_crypto demo_request ks 2] show ?thesis
    by (auto simp: demo_request_def)
qed

text \<open>
  C8: prefix sharing. Two requests for the same model, block size and layers whose token
  sequences agree up to the end of a block that is full in both derive the same key for that
  block, so the second request finds what the first one stored.
\<close>

theorem shared_prefix_shares_blocks:
  assumes "block_keys cr r1 = Inr ks1" and "block_keys cr r2 = Inr ks2"
    and "req_model_fingerprint r1 = req_model_fingerprint r2" and "req_block_tokens r1 = req_block_tokens r2"
    and "req_layer_start r1 = req_layer_start r2" and "req_layer_count r1 = req_layer_count r2"
    and "req_layout_version r1 = req_layout_version r2"
    and "take ((i + 1) * req_block_tokens r1) (req_tokens r1) = take ((i + 1) * req_block_tokens r1) (req_tokens r2)"
    and "(i + 1) * req_block_tokens r1 \<le> length (req_tokens r1)"
    and "(i + 1) * req_block_tokens r1 \<le> length (req_tokens r2)"
  shows "i < length ks1 \<and> i < length ks2 \<and> ks1 ! i = ks2 ! i"
proof -
  let ?b = "req_block_tokens r1"
  have b: "0 < ?b" and len: "length ks1 = div_ceil (length (req_tokens r1)) ?b"
      "length ks2 = div_ceil (length (req_tokens r2)) ?b"
    using block_keys_Inr [OF assms(1)] block_keys_Inr [OF assms(2)] assms(4) by (auto simp: length_chunks)
  have "Suc i \<le> n div ?b" if "(i + 1) * ?b \<le> n" for n
    using that b div_le_mono [of "(i + 1) * ?b" n ?b] by simp
  from this [OF assms(9)] this [OF assms(10)] have i: "i < length ks1" "i < length ks2"
    by (simp_all add: len div_ceil_def)
  have sat: "take (usize_sat_add (usize_sat_mul i ?b) ?b) (req_tokens r1) =
      take (usize_sat_add (usize_sat_mul i ?b) ?b) (req_tokens r2)"
  proof -
    have "usize_sat_add (usize_sat_mul i ?b) ?b \<le> (i + 1) * ?b"
      by (simp add: usize_sat_add_def usize_sat_mul_def)
    moreover have "take m xs = take m (take n xs)" if "m \<le> n" for m n and xs :: "u32 list"
      using that by (simp add: min_def)
    ultimately show ?thesis using assms(8) by metis
  qed
  have "length (take ?b (drop (i * ?b) (req_tokens r1))) = ?b" "length (take ?b (drop (i * ?b) (req_tokens r2))) = ?b"
    using assms(9,10) by auto
  then have "ks1 ! i = ks2 ! i"
    using block_keys_nth(1) [OF assms(1) i(1)] block_keys_nth(1) [OF assms(2) i(2)] assms(3-7) sat
    by (simp add: block_key_at_def Let_def)
  with i show ?thesis by simp
qed

theorem shared_prefix_shares_blocks_witness:
  "\<exists>ks1 ks2. block_keys demo_crypto demo_request = Inr ks1 \<and>
     block_keys demo_crypto (demo_request\<lparr> req_tokens := [1, 2, 3, 4, 9, 9, 9] \<rparr>) = Inr ks2 \<and> ks1 ! 1 = ks2 ! 1"
proof -
  let ?r2 = "demo_request\<lparr> req_tokens := [1, 2, 3, 4, 9, 9, 9] \<rparr>"
  obtain ks1 where 1: "block_keys demo_crypto demo_request = Inr ks1" using demo_block_keys by blast
  obtain ks2 where 2: "block_keys demo_crypto ?r2 = Inr ks2"
    by (simp add: block_keys_def demo_request_def div_ceil_def)
  from shared_prefix_shares_blocks [OF 1 2, of 1] 1 2 show ?thesis by (simp add: demo_request_def)
qed

text \<open>
  \<open>longest_prefix\<close> finds the best registered prefix: a match is a record of the model whose
  tokens are a prefix of the request and no other such record is longer, and nothing is found
  only when no record of the model is a prefix of the request.
\<close>

theorem longest_prefix_is_best:
  "case longest_prefix model tokens records of
     Some m \<Rightarrow> (\<exists>r \<in> set records. pr_model_fingerprint r = model \<and> prefix (pr_tokens r) tokens \<and>
        pm_matched_tokens m = length (pr_tokens r) \<and> pm_block_keys m = pr_block_keys r \<and>
        (\<forall>q \<in> set records. pr_model_fingerprint q = model \<and> prefix (pr_tokens q) tokens \<longrightarrow>
           length (pr_tokens q) \<le> pm_matched_tokens m))
   | None \<Rightarrow> (\<forall>q \<in> set records. \<not> (pr_model_fingerprint q = model \<and> prefix (pr_tokens q) tokens))"
proof -
  let ?ms = "filter (\<lambda>r. pr_model_fingerprint r = model \<and> prefix (pr_tokens r) tokens) records"
  show ?thesis
  proof (cases "max_by_key (\<lambda>r. length (pr_tokens r)) ?ms")
    case None
    then have "longest_prefix model tokens records = None" by (simp only: longest_prefix_def option.map)
    with None show ?thesis by (auto simp: filter_empty_conv)
  next
    case (Some r)
    then have "longest_prefix model tokens records =
        Some \<lparr> pm_matched_tokens = length (pr_tokens r), pm_block_keys = pr_block_keys r \<rparr>"
      by (simp only: longest_prefix_def option.map)
    with max_by_key_Some [OF Some] show ?thesis by auto
  qed
qed

theorem longest_prefix_is_best_witness:
  "longest_prefix ''m'' [1, 2, 3] [\<lparr> pr_model_fingerprint = ''m'', pr_tokens = [1, 2], pr_block_keys = [demo_key] \<rparr>]
     \<noteq> None"
  using longest_prefix_is_best [where model = "''m''" and tokens = "[1, 2, 3]" and
      records = "[\<lparr> pr_model_fingerprint = ''m'', pr_tokens = [1, 2], pr_block_keys = [demo_key] \<rparr>]"]
  by (auto split: option.splits)

text \<open>
  C13: an oversized write is reported as a success and leaves the previous value in place. On a
  cache without a persistent tier, writing a value larger than the memory budget returns
  \<open>Ok(())\<close>, and the next read of the key still returns the old value.
\<close>

theorem oversized_put_serves_stale_value:
  assumes "store cfg = None" and "ks_validate (key_strategy cfg) key = Inr u"
    and "map_of (memory (inner c)) key = Some r" and "mem_expires_at r = 0"
    and "v \<noteq> []" and "max_memory_bytes cfg < len64 v"
  shows "\<exists>c1 c2. cache_put cfg key v ttl p c = (Inr (), c1) \<and> cache_get cfg key c1 = (Inr (Some (mem_value r)), c2)"
proof -
  obtain now c0 where now: "now_seconds cfg c = (now, c0)" by fastforce
  have c0: "inner c0 = inner c" by (rule now_seconds_inner(1) [OF now])
  let ?e = "put_expiry now (case ttl of Some d \<Rightarrow> d | None \<Rightarrow> default_ttl cfg)"
  have pp: "put_persistent cfg key v ?e p now c0 = (Inr (0, 0), c0)"
    using assms(1) by (simp add: put_persistent_def)
  have pm: "put_memory cfg key v ?e p (inner c0) = (0, inner c0)"
    using assms(6) by (auto simp: put_memory_def)
  obtain c1 where put: "cache_put cfg key v ttl p c = (Inr (), c1)" and mem: "memory (inner c1) = memory (inner c)"
    using assms(2,5) now c0 pp pm by (simp add: cache_put_def Let_def)
  have "map_of (memory (inner c1)) key = Some r" using mem assms(3) by simp
  moreover have "\<not> is_expired (mem_expires_at r) t" for t using assms(4) by (simp add: is_expired_def)
  ultimately have "\<exists>c2. cache_get cfg key c1 = (Inr (Some (mem_value r)), c2)"
    using assms(2) by (cases "now_seconds cfg c1") (auto simp: cache_get_def dest: now_seconds_inner(1))
  with put show ?thesis by blast
qed

definition demo_mem_config :: "unit cache_config" where
  "demo_mem_config = (builder_default demo_crypto (\<lambda>n. of_nat n) (\<lambda>ks. ks))
     \<lparr> max_memory_bytes := 2, key_strategy := \<lparr> ks_make_key = sha256_make_key demo_crypto, ks_validate = (\<lambda>k. Inr ()) \<rparr> \<rparr>"

theorem oversized_put_serves_stale_value_witness:
  "\<exists>c1 c2. cache_put demo_mem_config ''k'' [1, 2, 3] None False
       \<lparr> inner = inner_default\<lparr> memory := [(''k'', \<lparr> mem_value = [9], mem_expires_at = 0, mem_pinned = False,
           mem_last_access = 1 \<rparr>)] \<rparr>, cache_store = (), clock_reads = 0, events = [] \<rparr> = (Inr (), c1) \<and>
     cache_get demo_mem_config ''k'' c1 = (Inr (Some [9]), c2)"
  using oversized_put_serves_stale_value [of demo_mem_config "''k''" "()"
      "\<lparr> inner = inner_default\<lparr> memory := [(''k'', \<lparr> mem_value = [9], mem_expires_at = 0, mem_pinned = False,
           mem_last_access = 1 \<rparr>)] \<rparr>, cache_store = (), clock_reads = 0, events = [] \<rparr>" _ "[1, 2, 3]" None False]
  by (simp add: demo_mem_config_def builder_default_def len64_def word_less_nat_alt)

end
