(* ===== verification/KvEngine.thy ===== *)
theory KvEngine
  imports Kv
begin

text \<open>
  The tiered engine of \<open>src/kv.rs\<close>: construction, writes under both policies, reads with
  promotion, moves, capture and restore through a runtime adapter, invalidation, pinning, clear,
  health and the prefetch worker. The tiers are trait objects, pairs of a method table and a
  state; transport, allocator and clock are parameters.
\<close>

section \<open>State\<close>

record kv_engine_stats =
  es_hits :: u64
  es_misses :: u64
  es_writes :: u64
  es_promotions :: u64
  es_transfers :: u64
  es_bytes_transferred :: u64
  es_invalidations :: u64
  es_expirations :: u64
  es_prefetches :: u64

definition engine_stats_default :: kv_engine_stats where
  "engine_stats_default = \<lparr> es_hits = 0, es_misses = 0, es_writes = 0, es_promotions = 0,
     es_transfers = 0, es_bytes_transferred = 0, es_invalidations = 0, es_expirations = 0, es_prefetches = 0 \<rparr>"

record kv_config =
  kc_transport :: kv_transport
  kc_allocator :: kv_allocator
  kc_clock :: "nat \<Rightarrow> u64"
  kc_promote_on_read :: bool
  kc_write_policy :: kv_write_policy

definition kv_config_default :: "(nat \<Rightarrow> u64) \<Rightarrow> kv_config" where
  "kv_config_default system_clock =
     \<lparr> kc_transport = copy_transport, kc_allocator = vec_allocator, kc_clock = system_clock,
       kc_promote_on_read = True, kc_write_policy = Primary \<rparr>"

text \<open>The setters of the builder.\<close>

definition engine_tier :: "'s kv_tier \<times> 's \<Rightarrow> ('s kv_tier \<times> 's) list \<Rightarrow> ('s kv_tier \<times> 's) list" where
  "engine_tier tier tiers = tiers @ [tier]"

definition engine_transport :: "kv_transport \<Rightarrow> kv_config \<Rightarrow> kv_config" where
  "engine_transport transport cfg = cfg\<lparr> kc_transport := transport \<rparr>"

definition engine_allocator :: "kv_allocator \<Rightarrow> kv_config \<Rightarrow> kv_config" where
  "engine_allocator allocator cfg = cfg\<lparr> kc_allocator := allocator \<rparr>"

definition engine_clock :: "(nat \<Rightarrow> u64) \<Rightarrow> kv_config \<Rightarrow> kv_config" where
  "engine_clock readings cfg = cfg\<lparr> kc_clock := readings \<rparr>"

definition engine_promote_on_read :: "bool \<Rightarrow> kv_config \<Rightarrow> kv_config" where
  "engine_promote_on_read enabled cfg = cfg\<lparr> kc_promote_on_read := enabled \<rparr>"

definition engine_write_policy :: "kv_write_policy \<Rightarrow> kv_config \<Rightarrow> kv_config" where
  "engine_write_policy policy cfg = cfg\<lparr> kc_write_policy := policy \<rparr>"

record 's kv_engine =
  eng_tiers :: "('s kv_tier \<times> 's) list"
  eng_stats :: kv_engine_stats
  eng_clock_reads :: nat

record kv_tier_health =
  th_name :: string
  th_healthy :: bool
  th_error :: "string option"

record prefetch_report =
  rep_requested :: u64
  rep_populated :: u64
  rep_missed :: u64

record 'a runtime_adapter =
  ra_runtime_name :: string
  ra_capture :: "kv_capture_request \<Rightarrow> 'a \<Rightarrow> kv_block list io_result \<times> 'a"
  ra_restore :: "kv_block list \<Rightarrow> 'a \<Rightarrow> unit io_result \<times> 'a"

section \<open>Construction\<close>

fun check_names :: "('s kv_tier \<times> 's) list \<Rightarrow> string set \<Rightarrow> unit io_result" where
  "check_names [] names = Inr ()"
| "check_names (t # ts) names =
     (if kt_name (fst t) \<in> names
      then Inl (IoError InvalidInput (''duplicate KV tier name: '' @ kt_name (fst t)))
      else check_names ts (insert (kt_name (fst t)) names))"

definition engine_build :: "('s kv_tier \<times> 's) list \<Rightarrow> 's kv_engine io_result" where
  "engine_build tiers =
     (if tiers = [] then Inl (IoError InvalidInput ''KV engine requires at least one tier'')
      else result_bind (check_names tiers {}) (\<lambda>_.
        Inr \<lparr> eng_tiers = tiers, eng_stats = engine_stats_default, eng_clock_reads = 0 \<rparr>))"

definition tier_names :: "'s kv_engine \<Rightarrow> string list" where
  "tier_names eng = map (\<lambda>t. kt_name (fst t)) (eng_tiers eng)"

section \<open>Helpers\<close>

definition tier_call ::
  "nat \<Rightarrow> ('s kv_tier \<Rightarrow> 's \<Rightarrow> 'r \<times> 's) \<Rightarrow> 's kv_engine \<Rightarrow> 'r \<times> 's kv_engine" where
  "tier_call ix f eng = (case obj_call (eng_tiers eng) ix f of (r, ts) \<Rightarrow> (r, eng\<lparr> eng_tiers := ts \<rparr>))"

definition upd_engine_stats :: "(kv_engine_stats \<Rightarrow> kv_engine_stats) \<Rightarrow> 's kv_engine \<Rightarrow> 's kv_engine" where
  "upd_engine_stats f eng = eng\<lparr> eng_stats := f (eng_stats eng) \<rparr>"

definition count_expiration :: "kv_engine_stats \<Rightarrow> kv_engine_stats" where
  "count_expiration st = st\<lparr> es_expirations := sat_add (es_expirations st) 1 \<rparr>"

definition count_write :: "kv_engine_stats \<Rightarrow> kv_engine_stats" where
  "count_write st = st\<lparr> es_writes := sat_add (es_writes st) 1 \<rparr>"

definition engine_now :: "kv_config \<Rightarrow> 's kv_engine \<Rightarrow> u64 \<times> 's kv_engine" where
  "engine_now cfg eng =
     (kc_clock cfg (eng_clock_reads eng), eng\<lparr> eng_clock_reads := Suc (eng_clock_reads eng) \<rparr>)"

definition require_tier :: "nat \<Rightarrow> 's kv_engine \<Rightarrow> unit io_result" where
  "require_tier tier_index eng =
     (if tier_index \<ge> length (eng_tiers eng)
      then Inl (IoError InvalidInput (''KV tier index '' @ show_nat tier_index @ '' is out of range''))
      else Inr ())"

text \<open>The clock is read only for a TTL that is present and not zero.\<close>

definition entry_expiry :: "kv_config \<Rightarrow> duration option \<Rightarrow> 's kv_engine \<Rightarrow> u64 \<times> 's kv_engine" where
  "entry_expiry cfg ttl eng =
     (case ttl of
        Some d \<Rightarrow> if dur_is_zero d then (0, eng)
                   else (case engine_now cfg eng of (now, eng1) \<Rightarrow> (sat_add now (max (dur_secs d) 1), eng1))
      | None \<Rightarrow> (0, eng))"

definition put_entry_to :: "nat \<Rightarrow> kv_tier_entry \<Rightarrow> 's kv_engine \<Rightarrow> unit io_result \<times> 's kv_engine" where
  "put_entry_to tier_index entry eng =
     check_then (require_tier tier_index eng) eng (\<lambda>_. tier_call tier_index (\<lambda>v. kt_put v entry) eng)"

definition transfer_entry ::
  "kv_config \<Rightarrow> kv_tier_entry \<Rightarrow> nat \<Rightarrow> nat \<Rightarrow> 's kv_engine \<Rightarrow> unit io_result \<times> 's kv_engine" where
  "transfer_entry cfg entry source_index destination_index eng =
     check_then (require_tier source_index eng) eng (\<lambda>_.
     check_then (require_tier destination_index eng) eng (\<lambda>_.
       if source_index = destination_index then tier_call destination_index (\<lambda>v. kt_put v entry) eng
       else
         (let source = kt_name (fst (eng_tiers eng ! source_index));
              destination = kt_name (fst (eng_tiers eng ! destination_index)) in
          check_then (kc_transport cfg (te_key entry) (te_bytes entry) source destination) eng (\<lambda>transported.
          check_then (kc_allocator cfg transported) eng (\<lambda>allocated.
            let transferred = \<lparr> te_block = \<lparr> blk_key = te_key entry, blk_bytes = allocated \<rparr>,
                                te_expires_at = te_expires_at entry, te_pinned = te_pinned entry \<rparr> in
            and_then (tier_call destination_index (\<lambda>v. kt_put v transferred) eng) (\<lambda>_ eng1.
              (Inr (), upd_engine_stats (\<lambda>st. st\<lparr> es_transfers := sat_add (es_transfers st) 1,
                 es_bytes_transferred := sat_add (es_bytes_transferred st) (len64 allocated) \<rparr>) eng1)))))))"

section \<open>Writes\<close>

fun engine_rollback :: "nat list \<Rightarrow> kv_block_key \<Rightarrow> 's kv_engine \<Rightarrow> 's kv_engine" where
  "engine_rollback [] key eng = eng"
| "engine_rollback (ix # ixs) key eng =
     engine_rollback ixs key (snd (tier_call ix (\<lambda>v. kt_remove v key) eng))"

fun put_all_loop :: "nat list \<Rightarrow> kv_tier_entry \<Rightarrow> nat list \<Rightarrow> 's kv_engine \<Rightarrow> unit io_result \<times> 's kv_engine" where
  "put_all_loop [] entry written eng = (Inr (), eng)"
| "put_all_loop (ix # ixs) entry written eng =
     (case put_entry_to ix entry eng of
        (Inl e, eng1) \<Rightarrow> (Inl e, engine_rollback written (te_key entry) eng1)
      | (Inr _, eng1) \<Rightarrow> put_all_loop ixs entry (written @ [ix]) eng1)"

definition engine_put ::
  "kv_config \<Rightarrow> kv_block \<Rightarrow> duration option \<Rightarrow> bool \<Rightarrow> 's kv_engine \<Rightarrow> unit io_result \<times> 's kv_engine" where
  "engine_put cfg block ttl pinned eng =
     (let (expires_at, eng1) = entry_expiry cfg ttl eng;
          entry = \<lparr> te_block = block, te_expires_at = expires_at, te_pinned = pinned \<rparr> in
      and_then (case kc_write_policy cfg of
                  Primary \<Rightarrow> put_entry_to 0 entry eng1
                | AllTiers \<Rightarrow> put_all_loop [0..<length (eng_tiers eng1)] entry [] eng1) (\<lambda>_ eng2.
        (Inr (), upd_engine_stats count_write eng2)))"

definition engine_put_to ::
  "kv_config \<Rightarrow> nat \<Rightarrow> kv_block \<Rightarrow> duration option \<Rightarrow> bool \<Rightarrow> 's kv_engine \<Rightarrow> unit io_result \<times> 's kv_engine" where
  "engine_put_to cfg tier_index block ttl pinned eng =
     (let (expires_at, eng1) = entry_expiry cfg ttl eng in
      and_then (put_entry_to tier_index
                  \<lparr> te_block = block, te_expires_at = expires_at, te_pinned = pinned \<rparr> eng1) (\<lambda>_ eng2.
        (Inr (), upd_engine_stats count_write eng2)))"

section \<open>Reads\<close>

fun promote_loop ::
  "kv_config \<Rightarrow> kv_tier_entry \<Rightarrow> nat \<Rightarrow> nat list \<Rightarrow> 's kv_engine \<Rightarrow> unit io_result \<times> 's kv_engine" where
  "promote_loop cfg entry source [] eng = (Inr (), eng)"
| "promote_loop cfg entry source (destination # ds) eng =
     and_then (transfer_entry cfg entry source destination eng) (\<lambda>_ eng1.
       promote_loop cfg entry source ds
         (upd_engine_stats (\<lambda>st. st\<lparr> es_promotions := sat_add (es_promotions st) 1 \<rparr>) eng1))"

fun engine_get_loop ::
  "kv_config \<Rightarrow> kv_block_key \<Rightarrow> u64 \<Rightarrow> nat list \<Rightarrow> 's kv_engine \<Rightarrow> kv_block option io_result \<times> 's kv_engine" where
  "engine_get_loop cfg key now [] eng =
     (Inr None, upd_engine_stats (\<lambda>st. st\<lparr> es_misses := sat_add (es_misses st) 1 \<rparr>) eng)"
| "engine_get_loop cfg key now (ix # ixs) eng =
     and_then (tier_call ix (\<lambda>v. kt_get v key) eng) (\<lambda>found eng1.
       case found of
         None \<Rightarrow> engine_get_loop cfg key now ixs eng1
       | Some entry \<Rightarrow>
           if is_expired (te_expires_at entry) now then
             and_then (tier_call ix (\<lambda>v. kt_remove v key) eng1) (\<lambda>_ eng2.
               engine_get_loop cfg key now ixs (upd_engine_stats count_expiration eng2))
           else
             (let eng2 = upd_engine_stats (\<lambda>st. st\<lparr> es_hits := sat_add (es_hits st) 1 \<rparr>) eng1 in
              and_then (if kc_promote_on_read cfg \<and> ix > 0
                        then promote_loop cfg entry ix (rev [0..<ix]) eng2 else (Inr (), eng2)) (\<lambda>_ eng3.
                check_then (kc_allocator cfg (te_bytes entry)) eng3 (\<lambda>bytes.
                  (Inr (Some \<lparr> blk_key = te_key entry, blk_bytes = bytes \<rparr>), eng3)))))"

definition engine_get ::
  "kv_config \<Rightarrow> kv_block_key \<Rightarrow> 's kv_engine \<Rightarrow> kv_block option io_result \<times> 's kv_engine" where
  "engine_get cfg key eng =
     (case engine_now cfg eng of (now, eng1) \<Rightarrow>
        engine_get_loop cfg key now [0..<length (eng_tiers eng1)] eng1)"

definition move_block ::
  "kv_config \<Rightarrow> kv_block_key \<Rightarrow> nat \<Rightarrow> nat \<Rightarrow> bool \<Rightarrow> 's kv_engine \<Rightarrow> bool io_result \<times> 's kv_engine" where
  "move_block cfg key source_index destination_index remove_source eng =
     check_then (require_tier source_index eng) eng (\<lambda>_.
     check_then (require_tier destination_index eng) eng (\<lambda>_.
       and_then (tier_call source_index (\<lambda>v. kt_get v key) eng) (\<lambda>found eng1.
         case found of
           None \<Rightarrow> (Inr False, eng1)
         | Some entry \<Rightarrow>
             (case engine_now cfg eng1 of (now, eng2) \<Rightarrow>
               if is_expired (te_expires_at entry) now then
                 and_then (tier_call source_index (\<lambda>v. kt_remove v key) eng2) (\<lambda>_ eng3.
                   (Inr False, upd_engine_stats count_expiration eng3))
               else
                 and_then (transfer_entry cfg entry source_index destination_index eng2) (\<lambda>_ eng3.
                   and_then (if remove_source \<and> source_index \<noteq> destination_index
                             then tier_call source_index (\<lambda>v. kt_remove v key) eng3 else (Inr (), eng3)) (\<lambda>_ eng4.
                     (Inr True, eng4)))))))"

section \<open>Runtime adapters\<close>

fun put_blocks ::
  "kv_config \<Rightarrow> kv_block list \<Rightarrow> duration option \<Rightarrow> bool \<Rightarrow> 's kv_engine \<Rightarrow> unit io_result \<times> 's kv_engine" where
  "put_blocks cfg [] ttl pinned eng = (Inr (), eng)"
| "put_blocks cfg (b # bs) ttl pinned eng =
     and_then (engine_put cfg b ttl pinned eng) (\<lambda>_ eng1. put_blocks cfg bs ttl pinned eng1)"

definition capture_from ::
  "crypto \<Rightarrow> kv_config \<Rightarrow> 'a runtime_adapter \<Rightarrow> kv_capture_request \<Rightarrow> duration option \<Rightarrow> bool
   \<Rightarrow> 'a \<times> 's kv_engine \<Rightarrow> nat io_result \<times> ('a \<times> 's kv_engine)" where
  "capture_from cr cfg adapter request ttl pinned st =
     check_then (block_keys cr request) st (\<lambda>expected.
       case ra_capture adapter request (fst st) of
         (Inl e, a1) \<Rightarrow> (Inl e, (a1, snd st))
       | (Inr blocks, a1) \<Rightarrow>
           if length blocks \<noteq> length expected \<or>
              list_ex (\<lambda>(b, k). blk_key b \<noteq> k) (zip blocks expected)
           then (Inl (IoError InvalidData (''runtime adapter '' @ ra_runtime_name adapter @
                   '' returned blocks that do not match the capture request'')), (a1, snd st))
           else (case put_blocks cfg blocks ttl pinned (snd st) of
               (Inl e, eng1) \<Rightarrow> (Inl e, (a1, eng1))
             | (Inr _, eng1) \<Rightarrow> (Inr (length blocks), (a1, eng1))))"

fun collect_blocks ::
  "kv_config \<Rightarrow> kv_block_key list \<Rightarrow> kv_block list \<Rightarrow> 's kv_engine \<Rightarrow> kv_block list option io_result \<times> 's kv_engine" where
  "collect_blocks cfg [] blocks eng = (Inr (Some blocks), eng)"
| "collect_blocks cfg (k # ks) blocks eng =
     and_then (engine_get cfg k eng) (\<lambda>r eng1.
       case r of None \<Rightarrow> (Inr None, eng1)
               | Some block \<Rightarrow> collect_blocks cfg ks (blocks @ [block]) eng1)"

definition restore_into ::
  "kv_config \<Rightarrow> 'a runtime_adapter \<Rightarrow> kv_block_key list
   \<Rightarrow> 'a \<times> 's kv_engine \<Rightarrow> bool io_result \<times> ('a \<times> 's kv_engine)" where
  "restore_into cfg adapter keys st =
     (case collect_blocks cfg keys [] (snd st) of
        (Inl e, eng1) \<Rightarrow> (Inl e, (fst st, eng1))
      | (Inr None, eng1) \<Rightarrow> (Inr False, (fst st, eng1))
      | (Inr (Some blocks), eng1) \<Rightarrow>
          (case ra_restore adapter blocks (fst st) of
             (Inl e, a1) \<Rightarrow> (Inl e, (a1, eng1))
           | (Inr _, a1) \<Rightarrow> (Inr True, (a1, eng1))))"

section \<open>Maintenance\<close>

fun invalidate_loop :: "kv_block_key \<Rightarrow> nat list \<Rightarrow> 's kv_engine \<Rightarrow> unit io_result \<times> 's kv_engine" where
  "invalidate_loop key [] eng = (Inr (), eng)"
| "invalidate_loop key (ix # ixs) eng =
     and_then (tier_call ix (\<lambda>v. kt_remove v key) eng) (\<lambda>_ eng1. invalidate_loop key ixs eng1)"

definition engine_invalidate :: "kv_block_key \<Rightarrow> 's kv_engine \<Rightarrow> unit io_result \<times> 's kv_engine" where
  "engine_invalidate key eng =
     and_then (invalidate_loop key [0..<length (eng_tiers eng)] eng) (\<lambda>_ eng1.
       (Inr (), upd_engine_stats (\<lambda>st. st\<lparr> es_invalidations := sat_add (es_invalidations st) 1 \<rparr>) eng1))"

fun set_pinned_loop ::
  "kv_block_key \<Rightarrow> bool \<Rightarrow> u64 \<Rightarrow> nat list \<Rightarrow> bool \<Rightarrow> 's kv_engine \<Rightarrow> bool io_result \<times> 's kv_engine" where
  "set_pinned_loop key pinned now [] found eng = (Inr found, eng)"
| "set_pinned_loop key pinned now (ix # ixs) found eng =
     and_then (tier_call ix (\<lambda>v. kt_get v key) eng) (\<lambda>r eng1.
       case r of
         None \<Rightarrow> set_pinned_loop key pinned now ixs found eng1
       | Some entry \<Rightarrow>
           if is_expired (te_expires_at entry) now then
             and_then (tier_call ix (\<lambda>v. kt_remove v key) eng1) (\<lambda>_ eng2.
               set_pinned_loop key pinned now ixs found (upd_engine_stats count_expiration eng2))
           else
             and_then (tier_call ix (\<lambda>v. kt_put v (entry\<lparr> te_pinned := pinned \<rparr>)) eng1) (\<lambda>_ eng2.
               set_pinned_loop key pinned now ixs True eng2))"

definition set_pinned :: "kv_config \<Rightarrow> kv_block_key \<Rightarrow> bool \<Rightarrow> 's kv_engine \<Rightarrow> bool io_result \<times> 's kv_engine" where
  "set_pinned cfg key pinned eng =
     (case engine_now cfg eng of (now, eng1) \<Rightarrow>
        set_pinned_loop key pinned now [0..<length (eng_tiers eng1)] False eng1)"

fun clear_loop :: "nat list \<Rightarrow> io_error option \<Rightarrow> 's kv_engine \<Rightarrow> unit io_result \<times> 's kv_engine" where
  "clear_loop [] first_error eng = ((case first_error of Some e \<Rightarrow> Inl e | None \<Rightarrow> Inr ()), eng)"
| "clear_loop (ix # ixs) first_error eng =
     (case tier_call ix kt_clear eng of
        (Inl e, eng1) \<Rightarrow> clear_loop ixs (if first_error = None then Some e else first_error) eng1
      | (Inr _, eng1) \<Rightarrow> clear_loop ixs first_error eng1)"

definition engine_clear :: "'s kv_engine \<Rightarrow> unit io_result \<times> 's kv_engine" where
  "engine_clear eng = clear_loop [0..<length (eng_tiers eng)] None eng"

fun health_loop :: "nat list \<Rightarrow> 's kv_engine \<Rightarrow> kv_tier_health list \<times> 's kv_engine" where
  "health_loop [] eng = ([], eng)"
| "health_loop (ix # ixs) eng =
     (let name = kt_name (fst (eng_tiers eng ! ix)) in
      case tier_call ix kt_health eng of (r, eng1) \<Rightarrow>
        (case health_loop ixs eng1 of (hs, eng2) \<Rightarrow>
           ((case r of
               Inr _ \<Rightarrow> \<lparr> th_name = name, th_healthy = True, th_error = None \<rparr>
             | Inl e \<Rightarrow> \<lparr> th_name = name, th_healthy = False, th_error = Some (error_string e) \<rparr>) # hs, eng2)))"

definition engine_health :: "'s kv_engine \<Rightarrow> kv_tier_health list \<times> 's kv_engine" where
  "engine_health eng = health_loop [0..<length (eng_tiers eng)] eng"

section \<open>Prefetch\<close>

text \<open>The search of the other tiers for a live copy.\<close>

fun find_source ::
  "kv_block_key \<Rightarrow> u64 \<Rightarrow> nat \<Rightarrow> nat list \<Rightarrow> 's kv_engine
   \<Rightarrow> (nat \<times> kv_tier_entry) option io_result \<times> 's kv_engine" where
  "find_source key now destination [] eng = (Inr None, eng)"
| "find_source key now destination (ix # ixs) eng =
     (if ix = destination then find_source key now destination ixs eng
      else and_then (tier_call ix (\<lambda>v. kt_get v key) eng) (\<lambda>r eng1.
        case r of
          None \<Rightarrow> find_source key now destination ixs eng1
        | Some entry \<Rightarrow>
            if is_expired (te_expires_at entry) now then
              and_then (tier_call ix (\<lambda>v. kt_remove v key) eng1) (\<lambda>_ eng2.
                find_source key now destination ixs (upd_engine_stats count_expiration eng2))
            else (Inr (Some (ix, entry)), eng1)))"

text \<open>One key; the result says whether the destination holds it.\<close>

definition prefetch_key ::
  "kv_config \<Rightarrow> nat \<Rightarrow> kv_block_key \<Rightarrow> 's kv_engine \<Rightarrow> bool io_result \<times> 's kv_engine" where
  "prefetch_key cfg destination key eng =
     (case engine_now cfg eng of (now, eng0) \<Rightarrow>
       and_then
         (and_then (tier_call destination (\<lambda>v. kt_get v key) eng0) (\<lambda>r eng1.
            case r of
              None \<Rightarrow> (Inr False, eng1)
            | Some entry \<Rightarrow>
                if is_expired (te_expires_at entry) now then
                  and_then (tier_call destination (\<lambda>v. kt_remove v key) eng1) (\<lambda>_ eng2.
                    (Inr False, upd_engine_stats count_expiration eng2))
                else (Inr True, eng1))) (\<lambda>present eng3.
          if present then (Inr True, eng3)
          else and_then (find_source key now destination [0..<length (eng_tiers eng3)] eng3) (\<lambda>found eng4.
            case found of
              None \<Rightarrow> (Inr False, eng4)
            | Some (source, entry) \<Rightarrow>
                and_then (transfer_entry cfg entry source destination eng4) (\<lambda>_ eng5. (Inr True, eng5)))))"

fun prefetch_loop ::
  "kv_config \<Rightarrow> nat \<Rightarrow> kv_block_key list \<Rightarrow> u64 \<Rightarrow> u64 \<Rightarrow> 's kv_engine \<Rightarrow> (u64 \<times> u64) io_result \<times> 's kv_engine" where
  "prefetch_loop cfg destination [] populated missed eng = (Inr (populated, missed), eng)"
| "prefetch_loop cfg destination (key # ks) populated missed eng =
     and_then (prefetch_key cfg destination key eng) (\<lambda>hit eng1.
       if hit then prefetch_loop cfg destination ks (sat_add populated 1) missed eng1
       else prefetch_loop cfg destination ks populated (sat_add missed 1) eng1)"

definition prefetch_worker ::
  "kv_config \<Rightarrow> kv_block_key list \<Rightarrow> nat \<Rightarrow> 's kv_engine \<Rightarrow> prefetch_report io_result \<times> 's kv_engine" where
  "prefetch_worker cfg keys destination_index eng =
     check_then (require_tier destination_index eng) eng (\<lambda>_.
       and_then (prefetch_loop cfg destination_index keys 0 0 eng) (\<lambda>(populated, missed) eng1.
         (Inr \<lparr> rep_requested = len64 keys, rep_populated = populated, rep_missed = missed \<rparr>,
          upd_engine_stats (\<lambda>st. st\<lparr> es_prefetches := sat_add (es_prefetches st) (len64 keys) \<rparr>) eng1)))"

end
