(* ===== verification/KvCoherence.thy ===== *)
theory KvCoherence
  imports KvEngine
begin

text \<open>
  What the tiered engine guarantees over tiers that keep the contract of \<open>coherent_tier\<close>: reads
  and promotions never invent or resurrect data, a replicated write is the only value left, moves
  and invalidations remove, restores are all or nothing, and the prefetch report adds up.
\<close>

section \<open>Engines over lawful tiers\<close>

text \<open>
  \<open>V\<close>, \<open>I\<close> and \<open>F\<close> give each method table its view, invariant and size limit.
\<close>

definition tiers_ok ::
  "('s kv_tier \<Rightarrow> 's \<Rightarrow> kv_block_key \<Rightarrow> kv_tier_entry option) \<Rightarrow> ('s kv_tier \<Rightarrow> 's \<Rightarrow> bool)
   \<Rightarrow> kv_block_key set \<Rightarrow> ('s kv_tier \<Rightarrow> kv_tier_entry \<Rightarrow> bool) \<Rightarrow> ('s kv_tier \<times> 's) list \<Rightarrow> bool" where
  "tiers_ok V I used F tiers \<longleftrightarrow>
     (\<forall>p \<in> set tiers. coherent_tier (fst p) (V (fst p)) (I (fst p)) used (F (fst p)) \<and> I (fst p) (snd p))"

text \<open>Every copy of the block, wherever it is, has these bytes.\<close>

definition agrees ::
  "('s kv_tier \<Rightarrow> 's \<Rightarrow> kv_block_key \<Rightarrow> kv_tier_entry option) \<Rightarrow> kv_block_key \<Rightarrow> u8 list
   \<Rightarrow> ('s kv_tier \<times> 's) list \<Rightarrow> bool" where
  "agrees V key bs tiers \<longleftrightarrow>
     (\<forall>p \<in> set tiers. \<forall>x. V (fst p) (snd p) key = Some x \<longrightarrow> te_bytes x = bs)"

definition faithful :: "kv_config \<Rightarrow> bool" where
  "faithful cfg \<longleftrightarrow>
     (\<forall>key bs s d out. kc_transport cfg key bs s d = Inr out \<longrightarrow> out = bs) \<and>
     (\<forall>bs out. kc_allocator cfg bs = Inr out \<longrightarrow> out = bs)"

lemma tier_call_eq:
  assumes "tier_call ix f eng = (r, eng')" "ix < length (eng_tiers eng)"
  obtains s' where "f (fst (eng_tiers eng ! ix)) (snd (eng_tiers eng ! ix)) = (r, s')"
    "eng_tiers eng' = (eng_tiers eng)[ix := (fst (eng_tiers eng ! ix), s')]"
proof -
  obtain s' where "f (fst (eng_tiers eng ! ix)) (snd (eng_tiers eng ! ix)) = (r, s')"
    "eng_tiers eng' = (eng_tiers eng)[ix := (fst (eng_tiers eng ! ix), s')]"
    using assms by (auto simp: tier_call_def obj_call_def split: prod.splits)
  then show ?thesis by (rule that)
qed

lemma eng_tiers_simps [simp]:
  "eng_tiers (upd_engine_stats f eng) = eng_tiers eng"
  by (simp add: upd_engine_stats_def)

lemma engine_now_tiers: "engine_now cfg eng = (t, eng') \<Longrightarrow> eng_tiers eng' = eng_tiers eng"
  by (auto simp: engine_now_def)

lemma tiers_ok_nth:
  "tiers_ok V I used F tiers \<Longrightarrow> ix < length tiers \<Longrightarrow>
   coherent_tier (fst (tiers ! ix)) (V (fst (tiers ! ix))) (I (fst (tiers ! ix))) used (F (fst (tiers ! ix))) \<and>
   I (fst (tiers ! ix)) (snd (tiers ! ix))"
  by (simp add: tiers_ok_def)

lemma tiers_ok_update:
  assumes "tiers_ok V I used F tiers" "I (fst (tiers ! ix)) s'" "ix < length tiers"
  shows "tiers_ok V I used F (tiers[ix := (fst (tiers ! ix), s')])"
  using assms tiers_ok_nth [OF assms(1,3)] set_update_subset_insert [of tiers ix]
  unfolding tiers_ok_def by fastforce

lemma agrees_update:
  assumes "agrees V key bs tiers" "\<And>x. V (fst (tiers ! ix)) s' key = Some x \<Longrightarrow> te_bytes x = bs"
  shows "agrees V key bs (tiers[ix := (fst (tiers ! ix), s')])"
  using assms set_update_subset_insert [of tiers ix] unfolding agrees_def by fastforce

text \<open>Lawful tiers in which every copy of the block agrees.\<close>

definition good where
  "good V I used F key bs eng \<longleftrightarrow>
     tiers_ok V I used F (eng_tiers eng) \<and> agrees V key bs (eng_tiers eng) \<and> key \<in> used \<and> length bs < 2 ^ 63"

lemma good_stats [simp]: "good V I used F key bs (upd_engine_stats f eng) = good V I used F key bs eng"
  by (simp add: good_def)

lemma good_now: "engine_now cfg eng = (t, eng') \<Longrightarrow> good V I used F key bs eng' = good V I used F key bs eng"
  by (simp add: good_def engine_now_tiers)

lemma good_step:
  assumes "good V I used F key bs eng" "ix < length (eng_tiers eng)"
    and "eng_tiers eng' = (eng_tiers eng)[ix := (fst (eng_tiers eng ! ix), s')]"
    and "I (fst (eng_tiers eng ! ix)) s'"
    and "\<And>x. V (fst (eng_tiers eng ! ix)) s' key = Some x \<Longrightarrow> te_bytes x = bs"
  shows "good V I used F key bs eng' \<and> length (eng_tiers eng') = length (eng_tiers eng)"
proof -
  have "tiers_ok V I used F (eng_tiers eng')" "agrees V key bs (eng_tiers eng')"
    unfolding assms(3) using assms(1,2,4,5)
    by (auto simp: good_def intro!: tiers_ok_update agrees_update)
  with assms(1,3) show ?thesis by (simp add: good_def)
qed

lemma agrees_nth:
  "agrees V key bs tiers \<Longrightarrow> ix < length tiers \<Longrightarrow> V (fst (tiers ! ix)) (snd (tiers ! ix)) key = Some x \<Longrightarrow> te_bytes x = bs"
  unfolding agrees_def by (meson nth_mem)

lemma good_get:
  assumes g: "good V I used F key bs eng" and ix: "ix < length (eng_tiers eng)"
    and call: "tier_call ix (\<lambda>v. kt_get v key) eng = (r, eng')"
  shows "good V I used F key bs eng' \<and> length (eng_tiers eng') = length (eng_tiers eng) \<and>
    (\<forall>x. r = Inr (Some x) \<longrightarrow> te_key x = key \<and> te_bytes x = bs)"
proof -
  let ?v = "fst (eng_tiers eng ! ix)" and ?s = "snd (eng_tiers eng ! ix)"
  obtain s' where run: "kt_get ?v key ?s = (r, s')"
    and upd: "eng_tiers eng' = (eng_tiers eng)[ix := (?v, s')]" by (rule tier_call_eq [OF call ix])
  have t: "coherent_tier ?v (V ?v) (I ?v) used (F ?v)" "I ?v ?s" and u: "key \<in> used"
    using g tiers_ok_nth [of V I used F _ ix] ix by (auto simp: good_def)
  have bytes: "te_bytes x = bs" if "V ?v ?s key = Some x" for x
    using g ix that agrees_nth unfolding good_def by blast
  have le: "V ?v s' \<subseteq>\<^sub>m V ?v ?s" "I ?v s'" "\<And>x. r = Inr (Some x) \<Longrightarrow> V ?v ?s key = Some x"
    using coherent_tier.get_error [OF t u] coherent_tier.get_result [OF t u] run
    by (cases r; force)+
  have step: "good V I used F key bs eng' \<and> length (eng_tiers eng') = length (eng_tiers eng)"
    by (rule good_step [OF g ix upd le(2)]) (use le(1) bytes in \<open>metis domI map_le_def\<close>)
  then show ?thesis using le(3) bytes coherent_tier.view_key [OF t] by blast
qed

lemma good_put:
  assumes g: "good V I used F key bs eng" and ix: "ix < length (eng_tiers eng)"
    and x: "te_key x = key" "te_bytes x = bs"
    and call: "tier_call ix (\<lambda>v. kt_put v x) eng = (r, eng')"
  shows "good V I used F key bs eng' \<and> length (eng_tiers eng') = length (eng_tiers eng)"
proof -
  let ?v = "fst (eng_tiers eng ! ix)" and ?s = "snd (eng_tiers eng ! ix)"
  obtain s' where run: "kt_put ?v x ?s = (r, s')"
    and upd: "eng_tiers eng' = (eng_tiers eng)[ix := (?v, s')]" by (rule tier_call_eq [OF call ix])
  have t: "coherent_tier ?v (V ?v) (I ?v) used (F ?v)" "I ?v ?s" and u: "te_key x \<in> used" "length (te_bytes x) < 2 ^ 63"
    using g tiers_ok_nth [of V I used F _ ix] ix x by (auto simp: good_def)
  have "I ?v s'" "V ?v s' key \<in> {None, V ?v ?s key, Some x}"
    using coherent_tier.put_any [OF t u run] x by auto
  moreover have "te_bytes y = bs" if "V ?v ?s key = Some y" for y
    using g ix that agrees_nth unfolding good_def by blast
  ultimately show ?thesis using x by (intro good_step [OF g ix upd]) auto
qed

lemma good_remove:
  assumes g: "good V I used F key bs eng" and ix: "ix < length (eng_tiers eng)"
    and call: "tier_call ix (\<lambda>v. kt_remove v key) eng = (r, eng')"
  shows "good V I used F key bs eng' \<and> length (eng_tiers eng') = length (eng_tiers eng)"
proof -
  let ?v = "fst (eng_tiers eng ! ix)" and ?s = "snd (eng_tiers eng ! ix)"
  obtain s' where run: "kt_remove ?v key ?s = (r, s')"
    and upd: "eng_tiers eng' = (eng_tiers eng)[ix := (?v, s')]" by (rule tier_call_eq [OF call ix])
  have t: "coherent_tier ?v (V ?v) (I ?v) used (F ?v)" "I ?v ?s" and u: "key \<in> used"
    using g tiers_ok_nth [of V I used F _ ix] ix by (auto simp: good_def)
  have le: "V ?v s' \<subseteq>\<^sub>m V ?v ?s" "I ?v s'" using coherent_tier.remove_any [OF t u run] by auto
  have "te_bytes y = bs" if "V ?v s' key = Some y" for y
  proof -
    have "V ?v ?s key = Some y" using le(1) that by (metis domI map_le_def)
    then show ?thesis using g ix agrees_nth unfolding good_def by blast
  qed
  with le(2) show ?thesis by (intro good_step [OF g ix upd])
qed

lemma require_tier_Inr: "require_tier ix eng = Inr u \<longleftrightarrow> ix < length (eng_tiers eng)"
  by (simp add: require_tier_def)

lemma require_tier_cases: "ix < length (eng_tiers eng) \<or> (\<exists>e. require_tier ix eng = Inl e)"
  by (auto simp: require_tier_def)

lemma good_transfer:
  assumes g: "good V I used F key bs eng" and f: "faithful cfg"
    and x: "te_key x = key" "te_bytes x = bs"
    and run: "transfer_entry cfg x src dst eng = (r, eng')"
  shows "good V I used F key bs eng' \<and> length (eng_tiers eng') = length (eng_tiers eng)"
proof (cases "src < length (eng_tiers eng) \<and> dst < length (eng_tiers eng)")
  case False
  then consider e where "require_tier src eng = Inl e"
    | e where "require_tier src eng = Inr ()" "require_tier dst eng = Inl e"
    by (cases "src < length (eng_tiers eng)") (auto simp: require_tier_def)
  then have "eng' = eng" using run by cases (auto simp: transfer_entry_def)
  with g show ?thesis by simp
next
  case True
  then have req: "require_tier src eng = Inr ()" "require_tier dst eng = Inr ()" by (simp_all add: require_tier_def)
  show ?thesis
  proof (cases "src = dst")
    case eq: True
    then have "tier_call dst (\<lambda>v. kt_put v x) eng = (r, eng')" using run req by (simp add: transfer_entry_def)
    with good_put [OF g _ x] True show ?thesis by blast
  next
    case ne: False
    let ?t = "kc_transport cfg (te_key x) (te_bytes x) (kt_name (fst (eng_tiers eng ! src))) (kt_name (fst (eng_tiers eng ! dst)))"
    let ?y = "\<lambda>al. \<lparr> te_block = \<lparr> blk_key = te_key x, blk_bytes = al \<rparr>,
        te_expires_at = te_expires_at x, te_pinned = te_pinned x \<rparr>"
    consider (stop) "eng' = eng"
      | (go) tr al r1 eng1 where "?t = Inr tr" "kc_allocator cfg tr = Inr al"
          "tier_call dst (\<lambda>v. kt_put v (?y al)) eng = (r1, eng1)" "eng_tiers eng' = eng_tiers eng1"
    proof (cases ?t)
      case (Inl e)
      then show ?thesis using run req ne that(1) by (simp add: transfer_entry_def)
    next
      case (Inr tr)
      show ?thesis
      proof (cases "kc_allocator cfg tr")
        case (Inl e)
        then show ?thesis using run req ne Inr that(1) by (simp add: transfer_entry_def)
      next
        case al: (Inr al)
        obtain r1 eng1 where c: "tier_call dst (\<lambda>v. kt_put v (?y al)) eng = (r1, eng1)" by fastforce
        have "eng_tiers eng' = eng_tiers eng1"
          using run req ne Inr al c by (cases r1) (auto simp: transfer_entry_def Let_def)
        then show ?thesis by (rule that(2) [OF Inr al c])
      qed
    qed
    then show ?thesis
    proof cases
      case stop
      with g show ?thesis by simp
    next
      case go
      have "al = bs" using go(1,2) f x unfolding faithful_def by metis
      then have "good V I used F key bs eng1 \<and> length (eng_tiers eng1) = length (eng_tiers eng)"
        using good_put [OF g _ _ _ go(3)] True x by simp
      with go(4) show ?thesis by (simp add: good_def)
    qed
  qed
qed

lemma good_promote:
  assumes "good V I used F key bs eng" "faithful cfg" "te_key x = key" "te_bytes x = bs"
    and "promote_loop cfg x src ds eng = (r, eng')"
  shows "good V I used F key bs eng' \<and> length (eng_tiers eng') = length (eng_tiers eng)"
  using assms(1,5)
proof (induction ds arbitrary: eng)
  case Nil
  then show ?case by simp
next
  case (Cons d ds)
  obtain r1 eng1 where t: "transfer_entry cfg x src d eng = (r1, eng1)" by fastforce
  note g1 = good_transfer [OF Cons.prems(1) assms(2-4) t]
  show ?case
  proof (cases r1)
    case (Inl e)
    with Cons.prems(2) t g1 show ?thesis by simp
  next
    case (Inr u)
    let ?e = "upd_engine_stats (\<lambda>st. st\<lparr> es_promotions := sat_add (es_promotions st) 1 \<rparr>) eng1"
    have "promote_loop cfg x src ds ?e = (r, eng')" using Cons.prems(2) t Inr by simp
    moreover have "good V I used F key bs ?e" using g1 by simp
    ultimately show ?thesis using Cons.IH g1 by fastforce
  qed
qed

lemma good_get_loop:
  assumes "good V I used F key bs eng" "faithful cfg" "\<forall>ix \<in> set ixs. ix < length (eng_tiers eng)"
    and "engine_get_loop cfg key now ixs eng = (r, eng')"
  shows "good V I used F key bs eng' \<and> length (eng_tiers eng') = length (eng_tiers eng) \<and>
    (\<forall>b. r = Inr (Some b) \<longrightarrow> blk_key b = key \<and> blk_bytes b = bs)"
  using assms(1,3,4)
proof (induction ixs arbitrary: eng)
  case Nil
  then show ?case by auto
next
  case (Cons ix ixs)
  obtain r1 eng1 where c1: "tier_call ix (\<lambda>v. kt_get v key) eng = (r1, eng1)" by fastforce
  have ix: "ix < length (eng_tiers eng)" using Cons.prems(2) by simp
  note g1 = good_get [OF Cons.prems(1) ix c1]
  have rest: "\<forall>jx \<in> set ixs. jx < length (eng_tiers e)" if "length (eng_tiers e) = length (eng_tiers eng)" for e :: "'a kv_engine"
    using Cons.prems(2) that by simp
  consider (err) e where "r1 = Inl e" | (none) "r1 = Inr None" | (some) x where "r1 = Inr (Some x)"
    by (cases r1; cases "projr r1") auto
  then show ?case
  proof cases
    case err
    with Cons.prems(3) c1 g1 show ?thesis by auto
  next
    case none
    with Cons.prems(3) c1 have "engine_get_loop cfg key now ixs eng1 = (r, eng')" by simp
    with Cons.IH [of eng1] g1 rest show ?thesis by auto
  next
    case some
    then have x: "te_key x = key" "te_bytes x = bs" using g1 by auto
    show ?thesis
    proof (cases "is_expired (te_expires_at x) now")
      case True
      obtain r2 eng2 where c2: "tier_call ix (\<lambda>v. kt_remove v key) eng1 = (r2, eng2)" by fastforce
      have g2: "good V I used F key bs eng2 \<and> length (eng_tiers eng2) = length (eng_tiers eng)"
        using good_remove [OF _ _ c2] g1 ix by auto
      show ?thesis
      proof (cases r2)
        case (Inl e)
        with Cons.prems(3) c1 c2 some True g2 show ?thesis by auto
      next
        case (Inr u)
        let ?e = "upd_engine_stats count_expiration eng2"
        have "engine_get_loop cfg key now ixs ?e = (r, eng')" using Cons.prems(3) c1 c2 some True Inr by simp
        with Cons.IH [of ?e] g2 rest [of ?e] show ?thesis by simp
      qed
    next
      case False
      let ?e = "upd_engine_stats (\<lambda>st. st\<lparr> es_hits := sat_add (es_hits st) 1 \<rparr>) eng1"
      let ?p = "if kc_promote_on_read cfg \<and> ix > 0 then promote_loop cfg x ix (rev [0..<ix]) ?e else (Inr (), ?e)"
      obtain r3 eng3 where c3: "?p = (r3, eng3)" by fastforce
      have "good V I used F key bs ?e" using g1 by simp
      then have g3: "good V I used F key bs eng3 \<and> length (eng_tiers eng3) = length (eng_tiers eng)"
        using c3 good_promote [OF _ assms(2) x] g1 by (fastforce split: if_splits)
      have unfold: "engine_get_loop cfg key now (ix # ixs) eng = and_then ?p (\<lambda>_ eng3.
          check_then (kc_allocator cfg (te_bytes x)) eng3 (\<lambda>bytes.
            (Inr (Some \<lparr> blk_key = te_key x, blk_bytes = bytes \<rparr>), eng3)))"
        using c1 some False by (simp add: Let_def)
      have "eng' = eng3" "\<forall>b. r = Inr (Some b) \<longrightarrow> blk_key b = key \<and> blk_bytes b = bs"
        using Cons.prems(3) assms(2) x unfolding unfold c3
        by (cases r3; cases "kc_allocator cfg (te_bytes x)"; auto simp: faithful_def)+
      with g3 show ?thesis by simp
    qed
  qed
qed

section \<open>Replicated writes\<close>

lemma put_entry_lawful:
  assumes ok: "tiers_ok V I used F (eng_tiers eng)" and ix: "ix < length (eng_tiers eng)"
    and x: "te_key x \<in> used" "length (te_bytes x) < 2 ^ 63" and fit: "F (fst (eng_tiers eng ! ix)) x"
    and run: "put_entry_to ix x eng = (Inr u, eng')"
  shows "tiers_ok V I used F (eng_tiers eng') \<and> map fst (eng_tiers eng') = map fst (eng_tiers eng) \<and>
    (\<forall>j. j \<noteq> ix \<longrightarrow> eng_tiers eng' ! j = eng_tiers eng ! j) \<and>
    V (fst (eng_tiers eng' ! ix)) (snd (eng_tiers eng' ! ix)) (te_key x) \<in> {None, Some x}"
proof -
  let ?v = "fst (eng_tiers eng ! ix)" and ?s = "snd (eng_tiers eng ! ix)"
  have call: "tier_call ix (\<lambda>v. kt_put v x) eng = (Inr u, eng')"
    using run ix by (simp add: put_entry_to_def require_tier_def)
  obtain s' where put: "kt_put ?v x ?s = (Inr u, s')"
    and upd: "eng_tiers eng' = (eng_tiers eng)[ix := (?v, s')]" by (rule tier_call_eq [OF call ix])
  have t: "coherent_tier ?v (V ?v) (I ?v) used (F ?v)" "I ?v ?s"
    using tiers_ok_nth [OF ok ix] by auto
  have "I ?v s'" "V ?v s' (te_key x) \<in> {None, Some x}"
    using coherent_tier.put_any [OF t x put] coherent_tier.put_result [OF t x fit put] by auto
  moreover have "map fst (eng_tiers eng') = map fst (eng_tiers eng)"
    using ix by (simp add: upd map_update list_update_same_conv)
  ultimately show ?thesis using tiers_ok_update [OF ok _ ix] ix upd by simp
qed

lemma put_all_lawful:
  assumes "tiers_ok V I used F (eng_tiers eng)" "\<forall>ix \<in> set ixs. ix < length (eng_tiers eng)" "distinct ixs"
    and x: "te_key x \<in> used" "length (te_bytes x) < 2 ^ 63" and "\<forall>v \<in> fst ` set (eng_tiers eng). F v x"
    and "put_all_loop ixs x w eng = (Inr u, eng')"
    and "\<forall>j \<in> done. j \<notin> set ixs \<and> V (fst (eng_tiers eng ! j)) (snd (eng_tiers eng ! j)) (te_key x) \<in> {None, Some x}"
  shows "tiers_ok V I used F (eng_tiers eng') \<and> length (eng_tiers eng') = length (eng_tiers eng) \<and>
    (\<forall>j \<in> done \<union> set ixs. V (fst (eng_tiers eng' ! j)) (snd (eng_tiers eng' ! j)) (te_key x) \<in> {None, Some x})"
  using assms(1-3,6-)
proof (induction ixs arbitrary: w eng "done")
  case Nil
  then show ?case by simp
next
  case (Cons ix ixs)
  obtain r1 eng1 where p: "put_entry_to ix x eng = (r1, eng1)" by fastforce
  with Cons.prems(5) obtain u1 where r1: "r1 = Inr u1" and l: "put_all_loop ixs x (w @ [ix]) eng1 = (Inr u, eng')"
    by (cases r1) auto
  have ix: "ix < length (eng_tiers eng)" "ix \<notin> set ixs" using Cons.prems by auto
  have "F (fst (eng_tiers eng ! ix)) x" using Cons.prems(4) ix(1) by (simp add: image_def) (metis nth_mem)
  note e = put_entry_lawful [OF Cons.prems(1) ix(1) x this p [unfolded r1]]
  have same: "length (eng_tiers eng1) = length (eng_tiers eng)" "fst ` set (eng_tiers eng1) = fst ` set (eng_tiers eng)"
    using e by (metis length_map, metis set_map)
  have d: "\<forall>j \<in> insert ix done. j \<notin> set ixs \<and>
      V (fst (eng_tiers eng1 ! j)) (snd (eng_tiers eng1 ! j)) (te_key x) \<in> {None, Some x}"
    using e Cons.prems(6) ix(2) by auto
  have "\<forall>jx \<in> set ixs. jx < length (eng_tiers eng1)" "distinct ixs" "\<forall>v \<in> fst ` set (eng_tiers eng1). F v x"
    using Cons.prems same by auto
  from Cons.IH [OF _ this l d] e same show ?case by auto
qed

section \<open>Properties\<close>

lemma engine_get_coherent:
  assumes "tiers_ok V I used F (eng_tiers eng)" and "agrees V key bs (eng_tiers eng)"
    and "key \<in> used" and "length bs < 2 ^ 63" and "faithful cfg"
    and "engine_get cfg key eng = (r, eng')"
  shows "(\<forall>b. r = Inr (Some b) \<longrightarrow> blk_key b = key \<and> blk_bytes b = bs) \<and>
    tiers_ok V I used F (eng_tiers eng') \<and> agrees V key bs (eng_tiers eng')"
proof -
  obtain now eng1 where n: "engine_now cfg eng = (now, eng1)" by fastforce
  have g: "good V I used F key bs eng1" using assms(1-4) engine_now_tiers [OF n] by (simp add: good_def)
  have "engine_get_loop cfg key now [0..<length (eng_tiers eng1)] eng1 = (r, eng')"
    using assms(6) n by (simp add: engine_get_def)
  from good_get_loop [OF g assms(5) _ this] show ?thesis by (simp add: good_def)
qed

text \<open>
  C5: reads are coherent. If every copy of a block in the lawful tiers has the same bytes, then
  whatever the engine read does (misses, expiry, promotion through faithful transport, failures
  half way), a block it returns carries the requested key and those bytes, and every copy left
  behind, promoted ones included, still has them.
\<close>

theorem engine_reads_are_coherent:
  assumes "tiers_ok V I used F (eng_tiers eng)" and "agrees V key bs (eng_tiers eng)"
    and "key \<in> used" and "length bs < 2 ^ 63" and "faithful cfg"
    and "engine_get cfg key eng = (r, eng')"
  shows "(\<forall>b. r = Inr (Some b) \<longrightarrow> blk_key b = key \<and> blk_bytes b = bs) \<and>
    tiers_ok V I used F (eng_tiers eng') \<and> agrees V key bs (eng_tiers eng')"
  using assms by (rule engine_get_coherent)

text \<open>The tiers of the witnesses: two memory caches behind the tier adapter.\<close>

definition demo_tier_config :: "unit cache_config" where
  "demo_tier_config = demo_mem_config\<lparr> max_memory_bytes := 100 \<rparr>"

definition demo_cache :: "unit cache" where
  "demo_cache = \<lparr> inner = inner_default, cache_store = (), clock_reads = 0, events = [] \<rparr>"

definition demo_tier :: "unit cache kv_tier" where
  "demo_tier = cct_vt demo_crypto demo_tier_config ''cpu''"

definition demo_engine :: "unit cache kv_engine" where
  "demo_engine = \<lparr> eng_tiers = [(demo_tier, demo_cache), (demo_tier, demo_cache)],
     eng_stats = engine_stats_default, eng_clock_reads = 0 \<rparr>"

definition demo_kv_config :: kv_config where
  "demo_kv_config = (kv_config_default (\<lambda>n. of_nat n))\<lparr> kc_write_policy := AllTiers \<rparr>"

lemma demo_faithful [simp]: "faithful demo_kv_config"
  by (simp add: faithful_def demo_kv_config_def kv_config_default_def copy_transport_def vec_allocator_def)

lemma demo_tiers_ok:
  "tiers_ok (\<lambda>_. cct_view demo_crypto {demo_key}) (\<lambda>_. cct_inv demo_crypto demo_tier_config {demo_key}) {demo_key}
     (\<lambda>_. cct_fits demo_tier_config) (eng_tiers demo_engine)"
proof -
  have "cct_inv demo_crypto demo_tier_config {demo_key} demo_cache"
    by (simp add: cct_inv_def demo_tier_config_def demo_mem_config_def builder_default_def demo_cache_def inner_default_def)
  then show ?thesis
    using cct.coherent_tier_axioms by (auto simp: tiers_ok_def demo_engine_def demo_tier_def)
qed

theorem engine_reads_are_coherent_witness:
  "agrees (\<lambda>_. cct_view demo_crypto {demo_key}) demo_key [5, 6]
     (eng_tiers (snd (engine_get demo_kv_config demo_key demo_engine)))"
proof -
  have "agrees (\<lambda>_. cct_view demo_crypto {demo_key}) demo_key [5, 6] (eng_tiers demo_engine)"
    by (simp add: agrees_def demo_engine_def cct_view_def demo_cache_def inner_default_def)
  moreover obtain r eng' where "engine_get demo_kv_config demo_key demo_engine = (r, eng')" by fastforce
  ultimately show ?thesis
    using engine_reads_are_coherent [OF demo_tiers_ok, of demo_key "[5, 6]" demo_kv_config r eng'] by simp
qed



section \<open>Removal, restore and prefetch\<close>

lemma tiers_ok_remove:
  assumes ok: "tiers_ok V I used F (eng_tiers eng)" and ix: "ix < length (eng_tiers eng)" and k: "key \<in> used"
    and call: "tier_call ix (\<lambda>v. kt_remove v key) eng = (Inr u, eng')"
  shows "tiers_ok V I used F (eng_tiers eng') \<and> length (eng_tiers eng') = length (eng_tiers eng) \<and>
    (\<forall>j. j \<noteq> ix \<longrightarrow> eng_tiers eng' ! j = eng_tiers eng ! j) \<and>
    V (fst (eng_tiers eng' ! ix)) (snd (eng_tiers eng' ! ix)) key = None"
proof -
  let ?v = "fst (eng_tiers eng ! ix)" and ?s = "snd (eng_tiers eng ! ix)"
  obtain s' where run: "kt_remove ?v key ?s = (Inr u, s')"
    and upd: "eng_tiers eng' = (eng_tiers eng)[ix := (?v, s')]" by (rule tier_call_eq [OF call ix])
  have t: "coherent_tier ?v (V ?v) (I ?v) used (F ?v)" "I ?v ?s" using tiers_ok_nth [OF ok ix] by auto
  have "I ?v s'" "V ?v s' key = None"
    using coherent_tier.remove_any [OF t k run] coherent_tier.remove_result [OF t k run] by auto
  with tiers_ok_update [OF ok _ ix] ix upd show ?thesis by simp
qed

lemma invalidate_loop_removes:
  assumes "tiers_ok V I used F (eng_tiers eng)" "\<forall>ix \<in> set ixs. ix < length (eng_tiers eng)" "distinct ixs" "key \<in> used"
    and "invalidate_loop key ixs eng = (Inr u, eng')"
    and "\<forall>j \<in> gone. j \<notin> set ixs \<and> V (fst (eng_tiers eng ! j)) (snd (eng_tiers eng ! j)) key = None"
  shows "length (eng_tiers eng') = length (eng_tiers eng) \<and>
    (\<forall>j \<in> gone \<union> set ixs. V (fst (eng_tiers eng' ! j)) (snd (eng_tiers eng' ! j)) key = None)"
  using assms
proof (induction ixs arbitrary: eng gone)
  case Nil
  then show ?case by simp
next
  case (Cons ix ixs)
  obtain u1 eng1 where c: "tier_call ix (\<lambda>v. kt_remove v key) eng = (Inr u1, eng1)"
    and l: "invalidate_loop key ixs eng1 = (Inr u, eng')"
    using Cons.prems(5) by (auto simp: and_then_eq_Inr)
  have ix: "ix < length (eng_tiers eng)" using Cons.prems(2) by simp
  note rm = tiers_ok_remove [OF Cons.prems(1) ix Cons.prems(4) c]
  have "\<forall>j \<in> insert ix gone. j \<notin> set ixs \<and> V (fst (eng_tiers eng1 ! j)) (snd (eng_tiers eng1 ! j)) key = None"
    using rm Cons.prems(3,6) by auto
  with Cons.IH [OF _ _ _ Cons.prems(4) l this] rm Cons.prems(2,3) show ?case by auto
qed

text \<open>
  An engine invalidation that succeeds removes the block from every lawful tier.
\<close>

theorem engine_invalidate_removes_everywhere:
  assumes "tiers_ok V I used F (eng_tiers eng)" and "key \<in> used"
    and "engine_invalidate key eng = (Inr u, eng')"
  shows "\<forall>p \<in> set (eng_tiers eng'). V (fst p) (snd p) key = None"
proof -
  obtain eng1 where l: "invalidate_loop key [0..<length (eng_tiers eng)] eng = (Inr (), eng1)"
    and t: "eng_tiers eng' = eng_tiers eng1"
    using assms(3) by (auto simp: engine_invalidate_def and_then_eq_Inr)
  have "length (eng_tiers eng1) = length (eng_tiers eng) \<and>
      (\<forall>j \<in> {} \<union> set [0..<length (eng_tiers eng)]. V (fst (eng_tiers eng1 ! j)) (snd (eng_tiers eng1 ! j)) key = None)"
    by (rule invalidate_loop_removes [OF assms(1) _ _ assms(2) l]) auto
  then have "V (fst (eng_tiers eng1 ! j)) (snd (eng_tiers eng1 ! j)) key = None" if "j < length (eng_tiers eng1)" for j
    using that by simp
  then show ?thesis unfolding t by (metis in_set_conv_nth)
qed

theorem engine_invalidate_removes_everywhere_witness:
  "list_all (\<lambda>p. cct_view demo_crypto {demo_key} (snd p) demo_key = None)
     (eng_tiers (snd (engine_invalidate demo_key demo_engine)))"
proof -
  have "fst (engine_invalidate demo_key demo_engine) = Inr ()" by code_simp
  then obtain eng' where run: "engine_invalidate demo_key demo_engine = (Inr (), eng')" by (metis prod.collapse)
  from engine_invalidate_removes_everywhere [OF demo_tiers_ok _ this] run show ?thesis by (simp add: list_all_iff)
qed

lemma collect_blocks_length:
  "collect_blocks cfg ks acc eng = (Inr (Some bs), eng') \<Longrightarrow> length bs = length acc + length ks"
  by (induction ks arbitrary: acc eng) (fastforce simp: and_then_eq_Inr split: option.splits)+

text \<open>
  A restore is all or nothing. The adapter is called only when every requested block was
  found, with exactly one block per key in the requested order; if any block is missing or a
  read fails, the adapter's state is untouched.
\<close>

theorem restore_is_all_or_nothing:
  assumes "restore_into cfg adapter keys (a, eng) = (r, (a', eng'))"
  shows "(a' = a \<and> r \<noteq> Inr True) \<or>
    (\<exists>blocks w. length blocks = length keys \<and> collect_blocks cfg keys [] eng = (Inr (Some blocks), eng') \<and>
       ra_restore adapter blocks a = (w, a') \<and> r = (case w of Inl e \<Rightarrow> Inl e | Inr _ \<Rightarrow> Inr True))"
proof -
  obtain c eng1 where c: "collect_blocks cfg keys [] eng = (c, eng1)" by fastforce
  consider e where "c = Inl e" | "c = Inr None" | blocks where "c = Inr (Some blocks)"
    by (cases c; cases "projr c") auto
  then show ?thesis
  proof cases
    case 1
    with assms c show ?thesis by (auto simp: restore_into_def)
  next
    case 2
    with assms c show ?thesis by (auto simp: restore_into_def)
  next
    case (3 blocks)
    obtain w a1 where w: "ra_restore adapter blocks a = (w, a1)" by fastforce
    have "eng' = eng1 \<and> a' = a1 \<and> r = (case w of Inl e \<Rightarrow> Inl e | Inr _ \<Rightarrow> Inr True)"
      using assms c 3 w by (cases w) (auto simp: restore_into_def)
    with collect_blocks_length [of cfg keys "[]"] c 3 w show ?thesis by auto
  qed
qed

definition demo_adapter :: "nat runtime_adapter" where
  "demo_adapter = \<lparr> ra_runtime_name = ''demo'', ra_capture = (\<lambda>req a. (Inr [], a)),
     ra_restore = (\<lambda>bs a. (Inr (), a + length bs)) \<rparr>"

theorem restore_is_all_or_nothing_witness:
  "fst (snd (restore_into demo_kv_config demo_adapter [demo_key] (3, demo_engine))) = 3"
proof -
  obtain r a' eng' where run: "restore_into demo_kv_config demo_adapter [demo_key] (3, demo_engine) = (r, (a', eng'))"
    by (metis prod.collapse)
  have "fst (restore_into demo_kv_config demo_adapter [demo_key] (3, demo_engine)) = Inr False" by code_simp
  then have "r = Inr False" using run by simp
  then have "r \<noteq> (case w of Inl e \<Rightarrow> Inl e | Inr _ \<Rightarrow> Inr True)" for w :: "unit io_result" by (cases w) auto
  with restore_is_all_or_nothing [OF run] have "a' = 3" by blast
  with run show ?thesis by simp
qed

text \<open>
  The prefetch report adds up. Every requested key is counted exactly once, as populated or
  as missed, for any tiers and any transport.
\<close>

theorem prefetch_report_adds_up:
  assumes "prefetch_worker cfg keys destination eng = (Inr rep, eng')" and "length keys < 2 ^ 64"
  shows "unat (rep_requested rep) = length keys \<and>
    unat (rep_populated rep) + unat (rep_missed rep) = unat (rep_requested rep)"
proof -
  have loop: "unat p' + unat m' = unat p + unat m + length ks"
    if "prefetch_loop cfg destination ks p m e = (Inr (p', m'), e')" "unat p + unat m + length ks < 2 ^ 64"
    for ks p m p' m' and e e' :: "'a kv_engine"
    using that
  proof (induction ks arbitrary: p m e)
    case Nil
    then show ?case by simp
  next
    case (Cons k ks)
    then obtain hit e1 where k: "prefetch_key cfg destination k e = (Inr hit, e1)"
      and l: "prefetch_loop cfg destination ks (if hit then sat_add p 1 else p) (if hit then m else sat_add m 1) e1 = (Inr (p', m'), e')"
      by (auto simp: and_then_eq_Inr split: if_splits)
    from Cons.IH [OF l] Cons.prems(2) show ?case by (simp add: sat_simps split: if_splits)
  qed
  from assms(1) obtain p m eng1 where l: "prefetch_loop cfg destination keys 0 0 eng = (Inr (p, m), eng1)"
    and rep: "rep = \<lparr> rep_requested = len64 keys, rep_populated = p, rep_missed = m \<rparr>"
    by (auto simp: prefetch_worker_def io_simps)
  from loop [OF l] assms(2) rep show ?thesis by (simp add: sat_simps)
qed

theorem prefetch_report_adds_up_witness:
  "\<exists>rep eng'. prefetch_worker demo_kv_config [demo_key] 0 demo_engine = (Inr rep, eng') \<and>
     unat (rep_populated rep) + unat (rep_missed rep) = 1"
proof -
  have "\<not> isl (fst (prefetch_worker demo_kv_config [demo_key] 0 demo_engine))" by code_simp
  then obtain rep eng' where run: "prefetch_worker demo_kv_config [demo_key] 0 demo_engine = (Inr rep, eng')"
    by (metis isl_def prod.collapse sum.collapse(2))
  from prefetch_report_adds_up [OF run] run show ?thesis by auto
qed

end
