(* ===== verification/Codec.thy ===== *)
theory Codec
  imports KvCoherence
begin

text \<open>
  Payload codecs of \<open>src/codec.rs\<close>: the identity and run-length codecs, the registry, the
  checksummed frame and the tier that encodes payloads on the way to another tier. The locale
  \<open>lossless_codec\<close> is what a codec owes; the frame round trip is proved inside it, and a
  codec tier over a coherent tier is shown to be coherent again.
\<close>

section \<open>Codecs\<close>

record payload_codec =
  cd_name :: string
  cd_encode :: "u8 list \<Rightarrow> u8 list io_result"
  cd_decode :: "u8 list \<Rightarrow> nat \<Rightarrow> nat \<Rightarrow> u8 list io_result"

text \<open>A vector never holds more than \<open>isize::MAX\<close> bytes; asking for more panics.\<close>

definition over_capacity :: "nat \<Rightarrow> bool" where
  "over_capacity n = (0x8000000000000000 \<le> int n)"

definition identity_decode :: "u8 list \<Rightarrow> nat \<Rightarrow> nat \<Rightarrow> u8 list io_result" where
  "identity_decode input expected_len max_output =
     (if expected_len > max_output \<or> length input \<noteq> expected_len
      then Inl (IoError InvalidData ''identity payload length is invalid'') else Inr input)"

definition identity_codec :: payload_codec where
  "identity_codec = \<lparr> cd_name = ''identity'', cd_encode = Inr, cd_decode = identity_decode \<rparr>"

text \<open>The base loop of the encoder: the run starts at one and never exceeds 255.\<close>

fun rle_run :: "u8 \<Rightarrow> u8 list \<Rightarrow> nat \<Rightarrow> nat" where
  "rle_run byte [] run = run"
| "rle_run byte (c # cs) run = (if c = byte \<and> run < 255 then rle_run byte cs (run + 1) else run)"

lemma rle_run_grows: "run \<le> rle_run byte xs run"
  by (induction byte xs run rule: rle_run.induct) auto

function rle_bytes :: "u8 list \<Rightarrow> u8 list" where
  "rle_bytes [] = []"
| "rle_bytes (byte # rest) =
     (let run = rle_run byte rest 1 in of_nat run # byte # rle_bytes (drop run (byte # rest)))"
  by pat_completeness auto
termination
proof (relation "measure length", goal_cases)
  case (2 byte rest run)
  then show ?case using rle_run_grows [of 1 byte rest] by simp
qed simp

definition rle_encode :: "u8 list \<Rightarrow> u8 list io_result" where
  "rle_encode input = (if input = [] then Inr [] else Inr (rle_bytes input))"

fun rle_decode_loop :: "u8 list \<Rightarrow> nat \<Rightarrow> u8 list \<Rightarrow> u8 list io_result" where
  "rle_decode_loop (run # byte # rest) expected_len output =
     (if unat run = 0 \<or> usize_sat_add (length output) (unat run) > expected_len
      then Inl (IoError InvalidData ''RLE run exceeds the declared output size'')
      else rle_decode_loop rest expected_len (output @ replicate (unat run) byte))"
| "rle_decode_loop _ expected_len output = Inr output"

definition rle_decode :: "u8 list \<Rightarrow> nat \<Rightarrow> nat \<Rightarrow> u8 list io_result" where
  "rle_decode input expected_len max_output =
     (if expected_len > max_output \<or> length input mod 2 \<noteq> 0
      then Inl (IoError InvalidData ''RLE payload framing is invalid'')
      else if over_capacity expected_len then Inl (Panicked ''capacity overflow'')
      else result_bind (rle_decode_loop input expected_len []) (\<lambda>output.
        if length output \<noteq> expected_len
        then Inl (IoError InvalidData ''RLE decoded length does not match the frame'')
        else Inr output))"

definition rle_codec :: payload_codec where
  "rle_codec = \<lparr> cd_name = ''rle-v1'', cd_encode = rle_encode, cd_decode = rle_decode \<rparr>"

section \<open>The registry\<close>

type_synonym codec_registry = "(string \<times> payload_codec) list"

definition name_char :: "char \<Rightarrow> bool" where
  "name_char c = (let b = of_char c :: nat in
     (48 \<le> b \<and> b \<le> 57) \<or> (65 \<le> b \<and> b \<le> 90) \<or> (97 \<le> b \<and> b \<le> 122) \<or> b = 45 \<or> b = 95 \<or> b = 46)"

definition validate_name :: "string \<Rightarrow> unit io_result" where
  "validate_name name =
     (if name = [] \<or> length name > 128 \<or> \<not> list_all name_char name
      then Inl (IoError InvalidInput ''codec names must be 1-128 ASCII identifier characters'') else Inr ())"

definition registry_register :: "payload_codec \<Rightarrow> codec_registry \<Rightarrow> unit io_result \<times> codec_registry" where
  "registry_register codec reg =
     check_then (validate_name (cd_name codec)) reg (\<lambda>_.
       if map_of reg (cd_name codec) \<noteq> None
       then (Inl (IoError AlreadyExists (''codec '' @ cd_name codec @ '' is already registered'')), reg)
       else (Inr (), btree_insert (cd_name codec) codec reg))"

definition registry_with_builtins :: "codec_registry io_result" where
  "registry_with_builtins =
     (case and_then (registry_register identity_codec []) (\<lambda>_ reg. registry_register rle_codec reg) of
        (Inl e, _) \<Rightarrow> Inl e | (Inr _, reg) \<Rightarrow> Inr reg)"

definition registry_get :: "string \<Rightarrow> codec_registry \<Rightarrow> payload_codec option" where
  "registry_get name reg = map_of reg name"

definition registry_names :: "codec_registry \<Rightarrow> string list" where
  "registry_names reg = map fst reg"

section \<open>Frames\<close>

definition frame_magic :: "u8 list" where
  "frame_magic = as_bytes ''RKC01'' @ [10]"

definition encode_frame :: "crypto \<Rightarrow> payload_codec \<Rightarrow> u8 list \<Rightarrow> u8 list io_result" where
  "encode_frame cr codec input =
     (if input = [] then Inl (IoError InvalidInput ''codec frame payload must not be empty'')
      else result_bind (validate_name (cd_name codec)) (\<lambda>_.
        if int (length (cd_name codec)) > 65535 then Inl (IoError InvalidInput ''codec name is too long'')
        else result_bind (cd_encode codec input) (\<lambda>encoded.
          if over_capacity (6 + 2 + length (cd_name codec) + 8 + 32 + length encoded)
          then Inl (Panicked ''capacity overflow'')
          else Inr (frame_magic @ u16_le (of_nat (length (cd_name codec))) @ as_bytes (cd_name codec) @
                    u64_le (len64 input) @ sha256 cr input @ encoded))))"

definition codec_read :: "nat \<Rightarrow> u8 list \<Rightarrow> nat \<Rightarrow> (u8 list \<times> nat) io_result" where
  "codec_read n bytes cursor =
     (let stop = usize_sat_add cursor n in
      if cursor \<le> stop \<and> stop \<le> length bytes then Inr (take (stop - cursor) (drop cursor bytes), stop)
      else Inl (IoError UnexpectedEof ''codec frame truncated''))"

definition decode_frame :: "crypto \<Rightarrow> codec_registry \<Rightarrow> u8 list \<Rightarrow> nat \<Rightarrow> u8 list io_result" where
  "decode_frame cr reg frame max_decoded_bytes =
     (if length frame < 6 + 2 + 8 + 32 \<or> take 6 frame \<noteq> frame_magic
      then Inl (IoError InvalidData ''invalid codec frame'')
      else result_bind (codec_read 2 frame 6) (\<lambda>(raw, cursor).
        let name_len = unat (le_word raw :: u16) in
        if name_len = 0 \<or> length frame - cursor < name_len + 8 + 32
        then Inl (IoError InvalidData ''invalid codec name length'')
        else if \<not> utf8_valid (take name_len (drop cursor frame))
        then Inl (IoError InvalidData ''codec name is not UTF-8'')
        else
          (let name = from_bytes (take name_len (drop cursor frame)) in
           result_bind (codec_read 8 frame (cursor + name_len)) (\<lambda>(raw_len, cursor2).
             let expected_len = unat (le_word raw_len :: u64) in
             if expected_len = 0 \<or> expected_len > max_decoded_bytes \<or> length frame - cursor2 < 32
             then Inl (IoError InvalidData ''decoded payload exceeds configured limit'')
             else
               (case registry_get name reg of
                  None \<Rightarrow> Inl (IoError Unsupported (''codec '' @ name @ '' is not registered''))
                | Some codec \<Rightarrow>
                    result_bind (cd_decode codec (drop (cursor2 + 32) frame) expected_len max_decoded_bytes)
                      (\<lambda>decoded.
                        if sha256 cr decoded \<noteq> take 32 (drop cursor2 frame)
                        then Inl (IoError InvalidData ''decoded payload checksum mismatch'')
                        else Inr decoded))))))"

section \<open>The codec tier\<close>

record codec_config =
  cc_name :: string
  cc_registry :: codec_registry
  cc_write_codec :: string
  cc_max_decoded_bytes :: nat

definition codec_tier_new :: "string \<Rightarrow> codec_registry \<Rightarrow> string \<Rightarrow> nat \<Rightarrow> codec_config io_result" where
  "codec_tier_new name reg write_codec max_decoded_bytes =
     (if blank name \<or> max_decoded_bytes = 0
      then Inl (IoError InvalidInput ''codec tier requires a name and non-zero decode limit'')
      else if registry_get write_codec reg = None
      then Inl (IoError NotFound (''write codec '' @ write_codec @ '' is not registered''))
      else Inr \<lparr> cc_name = name, cc_registry = reg, cc_write_codec = write_codec,
                 cc_max_decoded_bytes = max_decoded_bytes \<rparr>)"

definition codec_get ::
  "crypto \<Rightarrow> codec_config \<Rightarrow> 's kv_tier \<Rightarrow> kv_block_key \<Rightarrow> 's \<Rightarrow> kv_tier_entry option io_result \<times> 's" where
  "codec_get cr cc base k s =
     and_then (kt_get base k s) (\<lambda>r s1.
       case r of
         None \<Rightarrow> (Inr None, s1)
       | Some entry \<Rightarrow>
           (result_bind (decode_frame cr (cc_registry cc) (te_bytes entry) (cc_max_decoded_bytes cc)) (\<lambda>bytes.
              result_bind (kv_block_new (te_key entry) bytes) (\<lambda>block.
                Inr (Some (entry\<lparr> te_block := block \<rparr>)))), s1))"

definition codec_put :: "crypto \<Rightarrow> codec_config \<Rightarrow> 's kv_tier \<Rightarrow> kv_tier_entry \<Rightarrow> 's \<Rightarrow> unit io_result \<times> 's" where
  "codec_put cr cc base entry s =
     (case registry_get (cc_write_codec cc) (cc_registry cc) of
        None \<Rightarrow> (Inl (IoError NotFound ''configured write codec disappeared''), s)
      | Some codec \<Rightarrow>
          check_then (encode_frame cr codec (te_bytes entry)) s (\<lambda>framed.
          check_then (kv_block_new (te_key entry) framed) s (\<lambda>block.
            kt_put base \<lparr> te_block = block, te_expires_at = te_expires_at entry, te_pinned = te_pinned entry \<rparr> s)))"

definition codec_vt :: "crypto \<Rightarrow> codec_config \<Rightarrow> 's kv_tier \<Rightarrow> 's kv_tier" where
  "codec_vt cr cc base =
     \<lparr> kt_name = cc_name cc, kt_get = codec_get cr cc base, kt_put = codec_put cr cc base,
       kt_remove = kt_remove base, kt_clear = kt_clear base, kt_health = kt_health base \<rparr>"

section \<open>Lossless codecs\<close>

locale lossless_codec =
  fixes codec :: payload_codec
  assumes name_valid: "validate_name (cd_name codec) = Inr ()"
    and decode_encode: "cd_encode codec bs = Inr enc \<Longrightarrow> length bs \<le> limit \<Longrightarrow> length bs < 2 ^ 63 \<Longrightarrow>
          cd_decode codec enc (length bs) limit = Inr bs"
    and decode_bounded: "cd_decode codec enc n limit = Inr bs \<Longrightarrow> length bs = n \<and> n \<le> limit"

lemma over_capacity_iff: "over_capacity n \<longleftrightarrow> 2 ^ 63 \<le> n"
  using of_nat_le_iff [of "2 ^ 63" n, where 'a = int] by (simp add: over_capacity_def)

interpretation identity: lossless_codec identity_codec
  by unfold_locales
    (auto simp: identity_codec_def identity_decode_def validate_name_def name_char_def split: if_splits)

lemma rle_run_spec:
  "1 \<le> run \<Longrightarrow> run \<le> 255 \<Longrightarrow> xs = replicate (rle_run b xs run - run) b @ drop (rle_run b xs run - run) xs \<and>
     rle_run b xs run \<le> 255"
proof (induction b xs run rule: rle_run.induct)
  case (2 byte c cs run)
  show ?case
  proof (cases "c = byte \<and> run < 255")
    case True
    let ?r = "rle_run byte cs (run + 1)"
    have ih: "cs = replicate (?r - (run + 1)) byte @ drop (?r - (run + 1)) cs" "?r \<le> 255"
      using 2 True by auto
    have "?r - run = Suc (?r - (run + 1))" using rle_run_grows [of "run + 1" byte cs] by simp
    with ih True show ?thesis by (metis append_Cons drop_Suc_Cons replicate_Suc rle_run.simps(2))
  qed (use 2 in auto)
qed simp

lemma rle_decode_bytes:
  "length out + length xs \<le> n \<Longrightarrow> n \<le> usize_max \<Longrightarrow> rle_decode_loop (rle_bytes xs) n out = Inr (out @ xs)"
proof (induction xs arbitrary: out rule: rle_bytes.induct)
  case 1
  then show ?case by simp
next
  case (2 byte rest)
  let ?run = "rle_run byte rest 1"
  have run: "1 \<le> ?run" "?run \<le> 255" using rle_run_grows [of 1 byte rest] rle_run_spec [of 1 rest byte] by auto
  have rest: "rest = replicate (?run - 1) byte @ drop (?run - 1) rest" using rle_run_spec [of 1 rest byte] by simp
  have split: "byte # rest = replicate ?run byte @ drop ?run (byte # rest)"
  proof -
    have "?run = Suc (?run - 1)" using run(1) by simp
    with rest show ?thesis by (metis append_Cons drop_Suc_Cons replicate_Suc)
  qed
  have u: "unat (of_nat ?run :: u8) = ?run" using run by (simp add: unat_of_nat)
  have len: "length (byte # rest) = ?run + length (drop ?run (byte # rest))"
    using arg_cong [OF split, of length] by simp
  have "rle_decode_loop (rle_bytes (drop ?run (byte # rest))) n (out @ replicate ?run byte) =
      Inr ((out @ replicate ?run byte) @ drop ?run (byte # rest))"
    using 2 len by (intro 2(1)) auto
  moreover have "(out @ replicate ?run byte) @ drop ?run (byte # rest) = out @ byte # rest"
    using split by (metis append.assoc)
  moreover have "usize_sat_add (length out) ?run \<le> n"
    using usize_sat_add_le [of "length out" ?run] 2(2) len by simp
  ultimately show ?case using run u by (simp add: Let_def)
qed

lemma even_rle_bytes: "even (length (rle_bytes xs))"
  by (induction xs rule: rle_bytes.induct) (simp_all add: Let_def)

interpretation rle: lossless_codec rle_codec
proof unfold_locales
  show "validate_name (cd_name rle_codec) = Inr ()"
    by (simp add: rle_codec_def validate_name_def name_char_def)
next
  fix bs enc :: "u8 list" and limit :: nat
  assume e: "cd_encode rle_codec bs = Inr enc" and l: "length bs \<le> limit" "length bs < 2 ^ 63"
  have "enc = rle_bytes bs" using e by (auto simp: rle_codec_def rle_encode_def split: if_splits)
  moreover have "rle_decode_loop (rle_bytes bs) (length bs) [] = Inr bs"
    using rle_decode_bytes [of "[]" bs "length bs"] l(2) by (simp add: usize_max_def)
  ultimately show "cd_decode rle_codec enc (length bs) limit = Inr bs"
    using l even_rle_bytes [of bs] by (simp add: rle_codec_def rle_decode_def over_capacity_iff even_iff_mod_2_eq_zero)
next
  fix enc bs :: "u8 list" and n limit :: nat
  assume "cd_decode rle_codec enc n limit = Inr bs"
  then show "length bs = n \<and> n \<le> limit"
    by (auto simp: rle_codec_def rle_decode_def io_simps split: if_splits)
qed

section \<open>Frames\<close>

lemma ascii_utf8: "list_all (\<lambda>c. of_char c < (128::nat)) s \<Longrightarrow> utf8_valid (as_bytes s)"
proof (induction s)
  case Nil
  then show ?case by (simp add: utf8_valid_def as_bytes_def)
next
  case (Cons c s)
  have "unat (of_nat (of_char c) :: u8) = of_char c" by (simp add: unat_of_nat of_char_mod_256)
  with Cons show ?case by (simp add: utf8_valid_def as_bytes_def utf8_lead_def Let_def)
qed

lemma name_char_ascii: "name_char c \<Longrightarrow> of_char c < (128::nat)"
  by (auto simp: name_char_def Let_def)

lemma valid_name_utf8: "validate_name name = Inr () \<Longrightarrow> utf8_valid (as_bytes name) \<and> 0 < length name \<and> length name \<le> 128"
  by (auto simp: validate_name_def list_all_iff name_char_ascii split: if_splits intro!: ascii_utf8)

lemma codec_read_at:
  "cursor + n \<le> length bs \<Longrightarrow> length bs \<le> usize_max \<Longrightarrow>
   codec_read n bs cursor = Inr (take n (drop cursor bs), cursor + n)"
  by (simp add: codec_read_def usize_sat_add_def Let_def)

lemma frame_magic_length [simp]: "length frame_magic = 6"
  by (simp add: frame_magic_def)

lemma encode_frame_Inr:
  assumes "encode_frame cr codec bs = Inr frame"
  obtains enc where "cd_encode codec bs = Inr enc" "bs \<noteq> []" "validate_name (cd_name codec) = Inr ()"
    "frame = frame_magic @ u16_le (of_nat (length (cd_name codec))) @ as_bytes (cd_name codec) @
       u64_le (len64 bs) @ sha256 cr bs @ enc"
    "48 + length (cd_name codec) + length enc < 2 ^ 63"
  using assms by (auto simp: encode_frame_def io_simps over_capacity_iff split: if_splits)

context lossless_codec
begin

lemma decode_encoded_frame:
  assumes cr: "crypto_ok cr" and reg: "registry_get (cd_name codec) reg = Some codec"
    and enc: "encode_frame cr codec bs = Inr frame" and len: "length bs < 2 ^ 63"
  shows "decode_frame cr reg frame limit =
     (if length bs \<le> limit then Inr bs
      else Inl (IoError InvalidData ''decoded payload exceeds configured limit''))"
proof -
  let ?n = "length (cd_name codec)"
  obtain e where e: "cd_encode codec bs = Inr e" "bs \<noteq> []"
    and f: "frame = frame_magic @ u16_le (of_nat ?n) @ as_bytes (cd_name codec) @ u64_le (len64 bs) @ sha256 cr bs @ e"
    and cap: "48 + ?n + length e < 2 ^ 63"
    by (rule encode_frame_Inr [OF enc])
  have n: "0 < ?n" "?n \<le> 128" "utf8_valid (as_bytes (cd_name codec))" using valid_name_utf8 [OF name_valid] by auto
  have sha: "length (sha256 cr bs) = 32" using cr by (simp add: crypto_ok_def)
  have flen: "length frame = 48 + ?n + length e" by (simp add: f sha)
  then have small: "length frame \<le> usize_max" using cap by (simp add: usize_max_def)
  have parts: "take 6 frame = frame_magic" "take 2 (drop 6 frame) = u16_le (of_nat ?n)"
    "take ?n (drop 8 frame) = as_bytes (cd_name codec)" "take 8 (drop (8 + ?n) frame) = u64_le (len64 bs)"
    "take 32 (drop (16 + ?n) frame) = sha256 cr bs" "drop (48 + ?n) frame = e"
    by (simp_all add: f sha)
  have u: "unat (of_nat ?n :: u16) = ?n" using n by (simp add: unat_of_nat)
  have l: "unat (len64 bs) = length bs" using len by (simp add: sat_simps)
  have r1: "codec_read 2 frame 6 = Inr (u16_le (of_nat ?n), 8)"
    and r2: "codec_read 8 frame (8 + ?n) = Inr (u64_le (len64 bs), 16 + ?n)"
    using flen small parts by (simp_all add: codec_read_at add.commute add.left_commute)
  have d: "length bs \<le> limit \<Longrightarrow> cd_decode codec e (length bs) limit = Inr bs"
    by (rule decode_encode [OF e(1) _ len])
  have drop: "drop (16 + ?n + 32) frame = e" using parts(6) by (simp add: add.commute add.left_commute)
  show ?thesis
    using flen n e(2) len parts reg d l u drop by (simp add: decode_frame_def r1 r2 Let_def)
qed

end

text \<open>A registry of lossless codecs under their own names.\<close>

definition registry_ok :: "codec_registry \<Rightarrow> bool" where
  "registry_ok reg \<longleftrightarrow> (\<forall>name codec. map_of reg name = Some codec \<longrightarrow> cd_name codec = name \<and> lossless_codec codec)"

lemma register_ok:
  assumes "registry_ok reg" "lossless_codec codec" "registry_register codec reg = (r, reg')"
  shows "registry_ok reg'"
  using assms
  by (cases "validate_name (cd_name codec)")
    (auto simp: registry_register_def registry_ok_def map_of_btree_insert split: if_splits)

lemma registry_ok_Nil [simp]: "registry_ok []"
  by (simp add: registry_ok_def)

lemma builtins_ok: "registry_with_builtins = Inr reg \<Longrightarrow> registry_ok reg"
proof -
  assume b: "registry_with_builtins = Inr reg"
  obtain r1 reg1 where 1: "registry_register identity_codec [] = (r1, reg1)" by fastforce
  obtain r2 reg2 where 2: "registry_register rle_codec reg1 = (r2, reg2)" by fastforce
  have "registry_ok reg2"
    by (rule register_ok [OF register_ok [OF registry_ok_Nil identity.lossless_codec_axioms 1] rle.lossless_codec_axioms 2])
  with b 1 2 show ?thesis
    by (cases r1; cases r2) (simp_all add: registry_with_builtins_def and_then_def)
qed

lemma decode_frame_Inr:
  assumes "decode_frame cr reg frame limit = Inr bs"
  shows "\<exists>name codec enc n. registry_get name reg = Some codec \<and> cd_decode codec enc n limit = Inr bs \<and> 0 < n"
  using assms by (auto simp: decode_frame_def io_simps Let_def split: if_splits option.splits)

lemma decode_frame_bounded:
  assumes "registry_ok reg" "decode_frame cr reg frame limit = Inr bs"
  shows "bs \<noteq> [] \<and> length bs \<le> limit"
proof -
  obtain name codec enc n where 1: "registry_get name reg = Some codec"
    and 2: "cd_decode codec enc n limit = Inr bs" "0 < n"
    using decode_frame_Inr [OF assms(2)] by metis
  have "lossless_codec codec" using assms(1) 1 by (auto simp: registry_ok_def registry_get_def)
  from lossless_codec.decode_bounded [OF this 2(1)] 2(2) show ?thesis by auto
qed

section \<open>The codec tier over a coherent tier\<close>

definition codec_view ::
  "crypto \<Rightarrow> codec_config \<Rightarrow> ('s \<Rightarrow> kv_block_key \<Rightarrow> kv_tier_entry option) \<Rightarrow> 's \<Rightarrow> kv_block_key \<Rightarrow> kv_tier_entry option" where
  "codec_view cr cc view s k =
     (case view s k of
        None \<Rightarrow> None
      | Some e \<Rightarrow> (case decode_frame cr (cc_registry cc) (te_bytes e) (cc_max_decoded_bytes cc) of
                     Inl _ \<Rightarrow> None
                   | Inr bs \<Rightarrow> Some (e\<lparr> te_block := \<lparr> blk_key = te_key e, blk_bytes = bs \<rparr> \<rparr>)))"

definition codec_entry :: "kv_tier_entry \<Rightarrow> u8 list \<Rightarrow> kv_tier_entry" where
  "codec_entry x framed = \<lparr> te_block = \<lparr> blk_key = te_key x, blk_bytes = framed \<rparr>,
     te_expires_at = te_expires_at x, te_pinned = te_pinned x \<rparr>"

definition codec_fits :: "crypto \<Rightarrow> codec_config \<Rightarrow> (kv_tier_entry \<Rightarrow> bool) \<Rightarrow> kv_tier_entry \<Rightarrow> bool" where
  "codec_fits cr cc fits x \<longleftrightarrow>
     (\<forall>codec framed. registry_get (cc_write_codec cc) (cc_registry cc) = Some codec \<and>
        encode_frame cr codec (te_bytes x) = Inr framed \<longrightarrow> fits (codec_entry x framed))"

lemma codec_view_shrinks:
  assumes "view s' \<subseteq>\<^sub>m view s"
  shows "codec_view cr cc view s' \<subseteq>\<^sub>m codec_view cr cc view s"
proof (rule map_leI)
  fix k v
  assume "codec_view cr cc view s' k = Some v"
  moreover from this obtain e where "view s' k = Some e" by (auto simp: codec_view_def split: option.splits)
  moreover from this assms have "view s k = Some e" by (metis domI map_le_def)
  ultimately show "codec_view cr cc view s k = Some v" by (simp add: codec_view_def)
qed

lemma codec_view_pointwise:
  "view s' k \<in> {None, view s k} \<Longrightarrow> codec_view cr cc view s' k \<in> {None, codec_view cr cc view s k}"
  by (auto simp: codec_view_def)

lemma codec_view_entry:
  assumes ok: "registry_ok (cc_registry cc)" "crypto_ok cr"
    and reg: "registry_get (cc_write_codec cc) (cc_registry cc) = Some codec"
    and enc: "encode_frame cr codec (te_bytes x) = Inr framed" and len: "length (te_bytes x) < 2 ^ 63"
    and v: "view s (te_key x) = Some (codec_entry x framed)"
  shows "codec_view cr cc view s (te_key x) \<in> {None, Some x}"
proof -
  have c: "lossless_codec codec" "registry_get (cd_name codec) (cc_registry cc) = Some codec"
    using ok(1) reg by (auto simp: registry_ok_def registry_get_def)
  show ?thesis
    using v lossless_codec.decode_encoded_frame [OF c(1) ok(2) c(2) enc len]
    by (simp add: codec_view_def codec_entry_def)
qed

text \<open>The four outcomes of a put: the frame is refused, or the base tier is given the framed entry.\<close>

lemma codec_put_cases:
  assumes "crypto_ok cr" "codec_put cr cc base x s = (w, s')"
  obtains (refused) "s' = s" "isl w"
    | (stored) codec framed where "registry_get (cc_write_codec cc) (cc_registry cc) = Some codec"
        "encode_frame cr codec (te_bytes x) = Inr framed" "length framed < 2 ^ 63"
        "kt_put base (codec_entry x framed) s = (w, s')"
proof (cases "registry_get (cc_write_codec cc) (cc_registry cc)")
  case None
  with assms(2) show ?thesis by (intro refused) (auto simp: codec_put_def)
next
  case reg: (Some codec)
  show ?thesis
  proof (cases "encode_frame cr codec (te_bytes x)")
    case (Inl e)
    with assms(2) reg show ?thesis by (intro refused) (auto simp: codec_put_def)
  next
    case (Inr framed)
    then have "framed \<noteq> []" by (auto elim!: encode_frame_Inr simp: frame_magic_def as_bytes_def)
    moreover have "length framed < 2 ^ 63"
      using Inr assms(1) by (auto simp: crypto_ok_def elim!: encode_frame_Inr)
    ultimately show ?thesis
      using assms(2) reg Inr by (intro stored) (auto simp: codec_put_def kv_block_new_def codec_entry_def)
  qed
qed

lemma codec_entry_simps [simp]:
  "te_key (codec_entry x framed) = te_key x" "te_bytes (codec_entry x framed) = framed"
  by (simp_all add: codec_entry_def)

lemma codec_get_cases:
  assumes "codec_get cr cc base k s = (r, s')"
  obtains r0 where "kt_get base k s = (r0, s')"
    "(case r of Inl _ \<Rightarrow> True | Inr v \<Rightarrow> (\<exists>b. r0 = Inr b \<and> v = (case b of None \<Rightarrow> None | Some e \<Rightarrow>
        (case decode_frame cr (cc_registry cc) (te_bytes e) (cc_max_decoded_bytes cc) of
           Inl _ \<Rightarrow> None | Inr bs \<Rightarrow> Some (e\<lparr> te_block := \<lparr> blk_key = te_key e, blk_bytes = bs \<rparr> \<rparr>)))))"
  using assms
  by (cases "kt_get base k s")
    (auto simp: codec_get_def and_then_def kv_block_new_def result_bind_def split: sum.splits option.splits if_splits)

text \<open>A codec tier over a coherent tier is coherent: the contract of the tiers gives itself back.\<close>

context coherent_tier
begin

lemma codec_coherent:
  assumes ok: "registry_ok (cc_registry cc)" "crypto_ok cr"
  shows "coherent_tier (codec_vt cr cc vt) (codec_view cr cc view) invar used (codec_fits cr cc fits)"
proof unfold_locales
  fix s k e s' r x w u
  assume inv: "invar s"
  show "codec_view cr cc view s' \<subseteq>\<^sub>m codec_view cr cc view s \<and> invar s'"
    if k: "k \<in> used" and g: "kt_get (codec_vt cr cc vt) k s = (Inl e, s')"
  proof -
    obtain r0 where "kt_get vt k s = (r0, s')"
      using g by (auto simp: codec_vt_def elim: codec_get_cases)
    then have "view s' \<subseteq>\<^sub>m view s \<and> invar s'"
      using get_error [OF inv k] get_result [OF inv k] by (cases r0) auto
    then show ?thesis by (simp add: codec_view_shrinks)
  qed
  show "(r = None \<or> r = codec_view cr cc view s k) \<and> codec_view cr cc view s' \<subseteq>\<^sub>m codec_view cr cc view s \<and> invar s'"
    if k: "k \<in> used" and g: "kt_get (codec_vt cr cc vt) k s = (Inr r, s')"
  proof -
    obtain b where b: "kt_get vt k s = (Inr b, s')"
      "r = (case b of None \<Rightarrow> None | Some e \<Rightarrow>
        (case decode_frame cr (cc_registry cc) (te_bytes e) (cc_max_decoded_bytes cc) of
           Inl _ \<Rightarrow> None | Inr bs \<Rightarrow> Some (e\<lparr> te_block := \<lparr> blk_key = te_key e, blk_bytes = bs \<rparr> \<rparr>)))"
      using g by (auto simp: codec_vt_def elim!: codec_get_cases)
    from get_result [OF inv k b(1)] b(2) show ?thesis
      by (auto simp: codec_view_shrinks codec_view_def)
  qed
  show "invar s' \<and> (\<forall>k. k \<noteq> te_key x \<longrightarrow> codec_view cr cc view s' k \<in> {None, codec_view cr cc view s k}) \<and>
      codec_view cr cc view s' (te_key x) \<in> {None, codec_view cr cc view s (te_key x), Some x}"
    if x: "te_key x \<in> used" "length (te_bytes x) < 2 ^ 63" and p: "kt_put (codec_vt cr cc vt) x s = (w, s')"
  proof -
    from p have "codec_put cr cc vt x s = (w, s')" by (simp add: codec_vt_def)
    with ok(2) show ?thesis
    proof (cases rule: codec_put_cases)
      case refused
      with inv show ?thesis by simp
    next
      case (stored codec framed)
      note P = put_any [OF inv, of "codec_entry x framed", unfolded codec_entry_simps, OF x(1) stored(3,4)]
      note V = codec_view_entry [OF ok stored(1,2) x(2), of view s']
      have "codec_view cr cc view s' k \<in> {None, codec_view cr cc view s k}" if "k \<noteq> te_key x" for k
        using P that by (intro codec_view_pointwise) auto
      moreover have "codec_view cr cc view s' (te_key x) \<in> {None, codec_view cr cc view s (te_key x), Some x}"
        using P V by (auto simp: codec_view_def)
      ultimately show ?thesis using P by blast
    qed
  qed
  show "codec_view cr cc view s' (te_key x) \<in> {None, Some x}"
    if x: "te_key x \<in> used" "length (te_bytes x) < 2 ^ 63" and f: "codec_fits cr cc fits x"
      and p: "kt_put (codec_vt cr cc vt) x s = (Inr u, s')"
  proof -
    from p have "codec_put cr cc vt x s = (Inr u, s')" by (simp add: codec_vt_def)
    with ok(2) show ?thesis
    proof (cases rule: codec_put_cases)
      case (stored codec framed)
      then have "fits (codec_entry x framed)" using f by (simp add: codec_fits_def)
      from put_result [OF inv, of "codec_entry x framed", unfolded codec_entry_simps, OF x(1) stored(3) this stored(4)]
        codec_view_entry [OF ok stored(1,2) x(2), of view s']
      show ?thesis by (auto simp: codec_view_def)
    qed simp
  qed
  show "codec_view cr cc view s' \<subseteq>\<^sub>m codec_view cr cc view s \<and> invar s'"
    if "k \<in> used" "kt_remove (codec_vt cr cc vt) k s = (w, s')"
    using remove_any [OF inv that(1)] that(2) by (simp add: codec_vt_def codec_view_shrinks)
  show "codec_view cr cc view s' k = None" if "k \<in> used" "kt_remove (codec_vt cr cc vt) k s = (Inr u, s')"
    using remove_result [OF inv that(1)] that(2) by (simp add: codec_vt_def codec_view_def)
  show "te_key x = k" if "codec_view cr cc view s k = Some x"
    using that view_key [OF inv] by (auto simp: codec_view_def split: option.splits sum.splits)
qed

end

section \<open>Properties\<close>

lemma builtins_eq: "registry_with_builtins = Inr [(''identity'', identity_codec), (''rle-v1'', rle_codec)]"
proof -
  have 1: "registry_register identity_codec [] = (Inr (), [(''identity'', identity_codec)])"
    using identity.name_valid by (simp add: registry_register_def identity_codec_def)
  have "''identity'' < ''rle-v1''" by code_simp
  then have "registry_register rle_codec [(''identity'', identity_codec)] =
      (Inr (), [(''identity'', identity_codec), (''rle-v1'', rle_codec)])"
    using rle.name_valid by (auto simp: registry_register_def rle_codec_def)
  with 1 show ?thesis by (simp add: registry_with_builtins_def)
qed

lemma rle_bytes_length: "length (rle_bytes bs) \<le> 2 * length bs"
proof (induction bs rule: rle_bytes.induct)
  case (2 byte rest)
  then show ?case using rle_run_grows [of 1 byte rest] by (auto simp: Let_def)
qed simp

lemma encode_frame_succeeds:
  assumes "codec \<in> {identity_codec, rle_codec}" "bs \<noteq> []" "length bs < 2 ^ 61"
  obtains frame where "encode_frame cr codec bs = Inr frame"
proof -
  obtain e where e: "cd_encode codec bs = Inr e" "length e \<le> 2 * length bs"
    using assms(1,2) rle_bytes_length [of bs] by (auto simp: identity_codec_def rle_codec_def rle_encode_def)
  have "validate_name (cd_name codec) = Inr ()" using assms(1) identity.name_valid rle.name_valid by auto
  moreover from valid_name_utf8 [OF this] have "length (cd_name codec) \<le> 128" by simp
  ultimately show ?thesis
    using e assms(2,3) by (intro that) (simp add: encode_frame_def over_capacity_iff)
qed

text \<open>
  C14: For both built-in codecs, every non-empty payload (of fewer than \<open>2 ^ 61\<close> bytes) is
  framed, and decoding the frame through the registry gives the payload back when it is within
  the decode limit and the limit error otherwise.
\<close>
theorem codec_frame_roundtrip:
  assumes "crypto_ok cr" "registry_with_builtins = Inr reg" "codec \<in> {identity_codec, rle_codec}"
    and "bs \<noteq> []" "length bs < 2 ^ 61"
  shows "\<exists>frame. encode_frame cr codec bs = Inr frame \<and>
     decode_frame cr reg frame limit =
       (if length bs \<le> limit then Inr bs
        else Inl (IoError InvalidData ''decoded payload exceeds configured limit''))"
proof -
  obtain frame where enc: "encode_frame cr codec bs = Inr frame"
    using encode_frame_succeeds [OF assms(3-5)] by metis
  have reg: "registry_get (cd_name codec) reg = Some codec"
    using assms(2,3) by (auto simp: builtins_eq registry_get_def identity_codec_def rle_codec_def)
  have l: "lossless_codec codec"
    using assms(3) identity.lossless_codec_axioms rle.lossless_codec_axioms by auto
  have "length bs < 2 ^ 63" using assms(5) by simp
  from lossless_codec.decode_encoded_frame [OF l assms(1) reg enc this] enc show ?thesis by blast
qed

theorem codec_frame_roundtrip_witness:
  "\<exists>reg frame. registry_with_builtins = Inr reg \<and> encode_frame demo_crypto rle_codec [7, 7, 7] = Inr frame \<and>
     decode_frame demo_crypto reg frame 10 = Inr [7, 7, 7]"
  using codec_frame_roundtrip [OF demo_crypto_ok builtins_eq, of rle_codec "[7, 7, 7]" 10] builtins_eq by auto

lemma rle_decode_loop_error: "rle_decode_loop bs n out = Inl err \<Longrightarrow> \<exists>msg. err = IoError InvalidData msg"
  by (induction bs n out rule: rle_decode_loop.induct) (auto split: if_splits)

lemma builtin_decode_error:
  assumes "registry_with_builtins = Inr reg" "registry_get name reg = Some codec"
    and "cd_decode codec enc n limit = Inl err" "limit < 2 ^ 63"
  shows "\<exists>msg. err = IoError InvalidData msg"
proof -
  have "codec = identity_codec \<or> codec = rle_codec"
    using assms(1,2) by (auto simp: builtins_eq registry_get_def split: if_splits)
  then show ?thesis
  proof
    assume "codec = identity_codec"
    with assms(3) show ?thesis by (auto simp: identity_codec_def identity_decode_def split: if_splits)
  next
    assume "codec = rle_codec"
    with assms(3,4) show ?thesis
      by (auto simp: rle_codec_def rle_decode_def over_capacity_iff result_bind_def
          split: if_splits sum.splits dest: rle_decode_loop_error)
  qed
qed

lemma result_bind_error:
  "result_bind r k = Inl err \<longleftrightarrow> r = Inl err \<or> (\<exists>a. r = Inr a \<and> k a = Inl err)"
  by (cases r) auto

lemma codec_read_error: "codec_read n bs c = Inl err \<Longrightarrow> \<exists>kind msg. err = IoError kind msg"
  by (auto simp: codec_read_def Let_def split: if_splits)

lemma decode_frame_error:
  assumes "registry_with_builtins = Inr reg" "limit < 2 ^ 63" "decode_frame cr reg frame limit = Inl err"
  shows "\<exists>kind msg. err = IoError kind msg"
  using assms(3) builtin_decode_error [OF assms(1) _ _ assms(2)]
  by (auto simp: decode_frame_def result_bind_error Let_def split: if_splits option.splits dest: codec_read_error) blast



text \<open>
  Through a codec tier over a context cache, a read that follows a successful write of an
  entry that fits returns that very entry or nothing: never another payload.
\<close>
theorem codec_tier_reads_back:
  assumes cr: "crypto_ok cr" and reg: "registry_with_builtins = Inr (cc_registry cc)"
    and inv: "cct_inv cr cfg used s" and x: "te_key x \<in> used" "length (te_bytes x) < 2 ^ 63"
    and fits: "codec_fits cr cc (cct_fits cfg) x"
    and put: "codec_put cr cc (cct_vt cr cfg name) x s = (Inr u, s1)"
    and get: "codec_get cr cc (cct_vt cr cfg name) (te_key x) s1 = (Inr r, s2)"
  shows "r \<in> {None, Some x}"
proof -
  note co = coherent_tier.codec_coherent [OF cct.coherent_tier_axioms builtins_ok [OF reg] cr]
  have p: "kt_put (codec_vt cr cc (cct_vt cr cfg name)) x s = (Inr u, s1)"
    and g: "kt_get (codec_vt cr cc (cct_vt cr cfg name)) (te_key x) s1 = (Inr r, s2)"
    using put get by (simp_all add: codec_vt_def)
  note any = coherent_tier.put_any [OF co inv x p] and res = coherent_tier.put_result [OF co inv x fits p]
  from any have "cct_inv cr cfg used s1" by simp
  from coherent_tier.get_result [OF co this x(1) g] res show ?thesis by auto
qed

definition demo_codec_config :: codec_config where
  "demo_codec_config = \<lparr> cc_name = ''packed'', cc_registry = [(''identity'', identity_codec), (''rle-v1'', rle_codec)],
     cc_write_codec = ''rle-v1'', cc_max_decoded_bytes = 100 \<rparr>"

lemma demo_cct_inv: "cct_inv demo_crypto demo_tier_config {demo_key} demo_cache"
  by (simp add: cct_inv_def demo_tier_config_def demo_mem_config_def builder_default_def demo_cache_def inner_default_def)

lemma demo_codec_fits: "codec_fits demo_crypto demo_codec_config (cct_fits demo_tier_config) demo_tier_entry"
proof -
  have "rle_bytes [5, 6] = [1, 5, 1, 6]" by code_simp
  moreover have "length (sha256 demo_crypto [5, 6]) = 32" using demo_crypto_ok by (simp add: crypto_ok_def)
  ultimately show ?thesis
    by (auto simp: codec_fits_def demo_codec_config_def registry_get_def cct_fits_def demo_tier_config_def
        demo_tier_entry_def rle_codec_def rle_encode_def elim!: encode_frame_Inr)
qed

definition demo_framed :: kv_tier_entry where
  "demo_framed = codec_entry demo_tier_entry
     (frame_magic @ [6, 0] @ as_bytes ''rle-v1'' @ [2, 0, 0, 0, 0, 0, 0, 0] @ sha256 demo_crypto [5, 6] @ [1, 5, 1, 6])"

lemma demo_encoded: "encode_frame demo_crypto rle_codec [5, 6] = Inr (te_bytes demo_framed)"
  by code_simp

lemma demo_codec_put:
  "codec_put demo_crypto demo_codec_config demo_tier demo_tier_entry s =
     cct_put demo_crypto demo_tier_config demo_framed s"
proof -
  have "te_bytes demo_framed \<noteq> []" by code_simp
  moreover have "demo_framed = \<lparr> te_block = \<lparr> blk_key = demo_key, blk_bytes = te_bytes demo_framed \<rparr>,
      te_expires_at = 9, te_pinned = True \<rparr>"
    by (simp add: demo_framed_def codec_entry_def demo_tier_entry_def)
  ultimately show ?thesis
    by (simp add: codec_put_def demo_codec_config_def registry_get_def demo_tier_entry_def demo_encoded
        kv_block_new_def demo_tier_def cct_vt_def)
qed

theorem codec_tier_reads_back_witness:
  "\<exists>s1 r s2. codec_put demo_crypto demo_codec_config demo_tier demo_tier_entry demo_cache = (Inr (), s1) \<and>
     codec_get demo_crypto demo_codec_config demo_tier demo_key s1 = (Inr r, s2) \<and> r \<in> {None, Some demo_tier_entry}"
proof -
  let ?p = "cct_put demo_crypto demo_tier_config demo_framed demo_cache"
  let ?g = "cct_get demo_crypto demo_tier_config demo_key (snd ?p)"
  have f: "fst ?p = Inr ()" and g: "fst ?g = Inr (Some demo_framed)" by code_simp+
  have d: "decode_frame demo_crypto (cc_registry demo_codec_config) (te_bytes demo_framed) 100 = Inr [5, 6]" by code_simp
  obtain s1 s2 where p: "codec_put demo_crypto demo_codec_config demo_tier demo_tier_entry demo_cache = (Inr (), s1)"
    and g': "cct_get demo_crypto demo_tier_config demo_key s1 = (Inr (Some demo_framed), s2)"
    using f g demo_codec_put by (metis prod.collapse)
  have "cc_max_decoded_bytes demo_codec_config = 100" by (simp add: demo_codec_config_def)
  with g' d obtain r where q: "codec_get demo_crypto demo_codec_config demo_tier demo_key s1 = (Inr r, s2)"
    by (auto simp: codec_get_def demo_tier_def cct_vt_def kv_block_new_def)
  have k: "te_key demo_tier_entry = demo_key" by (simp add: demo_tier_entry_def)
  have "r \<in> {None, Some demo_tier_entry}"
    by (rule codec_tier_reads_back [OF demo_crypto_ok _ demo_cct_inv _ _ demo_codec_fits])
      (use p q k in \<open>simp_all add: demo_tier_def builtins_eq demo_codec_config_def demo_tier_entry_def\<close>)
  with p q show ?thesis by blast
qed

end
