(* ===== verification/Reuse.thy ===== *)
theory Reuse
  imports KvCoherence
begin

text \<open>
  Reuse of stored segments at a new position, \<open>src/reuse.rs\<close>: the segment index, the
  dynamic program for the longest common run of tokens, its alignment to whole blocks and the
  relocated restore. The dynamic program is proved against the specification of a longest common
  substring; what the index answers is a run of tokens that really occurs in a registered record.
\<close>

section \<open>The segment index\<close>

record reuse_span =
  rs_query_start :: nat
  rs_source_start :: nat
  rs_matched_tokens :: nat
  rs_source_keys :: "kv_block_key list"

record segment_record =
  sr_model_fingerprint :: string
  sr_tokens :: "u32 list"
  sr_block_keys :: "kv_block_key list"

type_synonym segment_index = "segment_record list"

record raw_match =
  rm_query_start :: nat
  rm_source_start :: nat
  rm_len :: nat

definition segment_index_new :: segment_index where
  "segment_index_new = []"

text \<open>The loop of \<open>validate_record\<close>, with the first key and the expected start.\<close>

fun validate_keys :: "string \<Rightarrow> nat \<Rightarrow> kv_block_key \<Rightarrow> kv_block_key list \<Rightarrow> u32 \<Rightarrow> unit io_result" where
  "validate_keys fp token_len first [] expected_start = Inr ()"
| "validate_keys fp token_len first (key # keys) expected_start =
     (if key_model_fingerprint key \<noteq> fp \<or> key_token_count key = 0 \<or> key_layer_count key = 0 \<or>
         key_layer_start key \<noteq> key_layer_start first \<or> key_layer_count key \<noteq> key_layer_count first \<or>
         key_layout_version key \<noteq> key_layout_version first \<or> key_token_start key \<noteq> expected_start
      then Inl (IoError InvalidInput ''segment block keys must be contiguous and share model/layer/layout identity'')
      else if usize_sat_add (unat (key_token_start key)) (unat (key_token_count key)) > token_len
      then Inl (IoError InvalidInput ''segment block key exceeds registered token sequence'')
      else validate_keys fp token_len first keys (sat_add (key_token_start key) (key_token_count key)))"

definition validate_record :: "string \<Rightarrow> u32 list \<Rightarrow> kv_block_key list \<Rightarrow> unit io_result" where
  "validate_record fp tokens keys =
     (if blank fp \<or> tokens = [] then
        Inl (IoError InvalidInput ''segment records require a model fingerprint, tokens, and block keys'')
      else
        (case keys of
           [] \<Rightarrow> Inl (IoError InvalidInput ''segment records require a model fingerprint, tokens, and block keys'')
         | first # _ \<Rightarrow> validate_keys fp (length tokens) first keys (key_token_start first)))"

definition segment_register ::
  "string \<Rightarrow> u32 list \<Rightarrow> kv_block_key list \<Rightarrow> segment_index \<Rightarrow> unit io_result \<times> segment_index" where
  "segment_register fp tokens keys records =
     check_then (validate_record fp tokens keys) records (\<lambda>_.
       (Inr (), [r \<leftarrow> records. sr_model_fingerprint r \<noteq> fp \<or> sr_tokens r \<noteq> tokens] @
          [\<lparr> sr_model_fingerprint = fp, sr_tokens = tokens, sr_block_keys = keys \<rparr>]))"

definition segment_remove_model :: "string \<Rightarrow> segment_index \<Rightarrow> nat \<times> segment_index" where
  "segment_remove_model fp records =
     (let kept = [r \<leftarrow> records. sr_model_fingerprint r \<noteq> fp] in (length records - length kept, kept))"

section \<open>The longest common run\<close>

text \<open>One row: \<open>previous\<close> and \<open>current\<close> have one cell more than the source.\<close>

fun lcs_row :: "nat \<Rightarrow> u32 \<Rightarrow> nat list \<Rightarrow> (nat \<times> u32) list \<Rightarrow> nat list \<times> raw_match \<Rightarrow> nat list \<times> raw_match" where
  "lcs_row query_index query_token previous [] (current, best) = (current, best)"
| "lcs_row query_index query_token previous ((source_index, source_token) # rest) (current, best) =
     (if query_token = source_token then
        (let len = usize_sat_add (previous ! source_index) 1 in
         lcs_row query_index query_token previous rest
           (current[source_index + 1 := len],
            if len > rm_len best
            then \<lparr> rm_query_start = query_index + 1 - len, rm_source_start = source_index + 1 - len, rm_len = len \<rparr>
            else best))
      else lcs_row query_index query_token previous rest (current, best))"

fun lcs_rows :: "u32 list \<Rightarrow> (nat \<times> u32) list \<Rightarrow> nat list \<Rightarrow> raw_match \<Rightarrow> raw_match" where
  "lcs_rows source [] previous best = best"
| "lcs_rows source ((query_index, query_token) # rest) previous best =
     (case lcs_row query_index query_token previous (enumerate 0 source)
             (replicate (length source + 1) 0, best) of
        (current, best') \<Rightarrow> lcs_rows source rest current best')"

definition longest_common_substring :: "u32 list \<Rightarrow> u32 list \<Rightarrow> raw_match option" where
  "longest_common_substring query source =
     (if query = [] \<or> source = [] then None
      else
        (let best = lcs_rows source (enumerate 0 query) (replicate (length source + 1) 0)
                      \<lparr> rm_query_start = 0, rm_source_start = 0, rm_len = 0 \<rparr> in
         if rm_len best > 0 then Some best else None))"

section \<open>Alignment to blocks\<close>

definition usize_checked_add :: "nat \<Rightarrow> nat \<Rightarrow> nat option" where
  "usize_checked_add a b = (if int (a + b) > 0xFFFFFFFFFFFFFFFF then None else Some (a + b))"

definition key_start :: "kv_block_key \<Rightarrow> nat" where
  "key_start key = unat (key_token_start key)"

definition key_end :: "kv_block_key \<Rightarrow> nat" where
  "key_end key = usize_sat_add (key_start key) (unat (key_token_count key))"

fun contiguous_keys :: "kv_block_key list \<Rightarrow> nat \<Rightarrow> kv_block_key list" where
  "contiguous_keys [] expected = []"
| "contiguous_keys (key # keys) expected =
     (if key_start key \<noteq> expected then []
      else key # contiguous_keys keys (usize_sat_add expected (unat (key_token_count key))))"

definition keys_inside :: "segment_record \<Rightarrow> nat \<Rightarrow> nat \<Rightarrow> kv_block_key list" where
  "keys_inside record source_start source_end = sort_key key_token_start
     [key \<leftarrow> sr_block_keys record. key_start key \<ge> source_start \<and> key_end key \<le> source_end]"

definition contiguous_span :: "raw_match \<Rightarrow> kv_block_key list \<Rightarrow> reuse_span option" where
  "contiguous_span raw contiguous =
     (case contiguous of
        [] \<Rightarrow> None
      | first # _ \<Rightarrow>
          (let source_start = key_start first;
               source_end = key_start (last contiguous) + unat (key_token_count (last contiguous)) in
           Some \<lparr> rs_query_start = usize_sat_add (rm_query_start raw) (source_start - rm_source_start raw),
                  rs_source_start = source_start, rs_matched_tokens = source_end - source_start,
                  rs_source_keys = contiguous \<rparr>))"

definition align_to_blocks :: "segment_record \<Rightarrow> raw_match \<Rightarrow> reuse_span option" where
  "align_to_blocks record raw =
     (case usize_checked_add (rm_source_start raw) (rm_len raw) of
        None \<Rightarrow> None
      | Some raw_source_end \<Rightarrow>
          (case keys_inside record (rm_source_start raw) raw_source_end of
             [] \<Rightarrow> None
           | first # rest \<Rightarrow> contiguous_span raw (contiguous_keys (first # rest) (key_start first))))"

section \<open>Lookup\<close>

definition better_span :: "reuse_span \<Rightarrow> reuse_span option \<Rightarrow> bool" where
  "better_span span current =
     (case current of
        None \<Rightarrow> True
      | Some c \<Rightarrow> rs_matched_tokens span > rs_matched_tokens c \<or>
          (rs_matched_tokens span = rs_matched_tokens c \<and> rs_query_start span < rs_query_start c))"

fun best_segment_loop :: "u32 list \<Rightarrow> nat \<Rightarrow> segment_record list \<Rightarrow> reuse_span option \<Rightarrow> reuse_span option" where
  "best_segment_loop query min_match [] best = best"
| "best_segment_loop query min_match (record # records) best =
     best_segment_loop query min_match records
       (case longest_common_substring query (sr_tokens record) of
          None \<Rightarrow> best
        | Some raw \<Rightarrow>
            if rm_len raw < min_match then best
            else
              (case align_to_blocks record raw of
                 None \<Rightarrow> best
               | Some aligned \<Rightarrow>
                   if rs_matched_tokens aligned < min_match then best
                   else if better_span aligned best then Some aligned else best))"

definition best_segment :: "string \<Rightarrow> u32 list \<Rightarrow> nat \<Rightarrow> segment_index \<Rightarrow> reuse_span option io_result" where
  "best_segment fp query min_match records =
     (if min_match = 0 then Inl (IoError InvalidInput ''min_match_tokens must be greater than zero'')
      else if query = [] then Inr None
      else Inr (best_segment_loop query min_match [r \<leftarrow> records. sr_model_fingerprint r = fp] None))"

section \<open>Relocated restore\<close>

record 'a relocatable_adapter = "'a runtime_adapter" +
  ra_restore_relocated :: "kv_block list \<Rightarrow> u32 \<Rightarrow> 'a \<Rightarrow> unit io_result \<times> 'a"

definition restore_reuse ::
  "kv_config \<Rightarrow> ('a, 'z) relocatable_adapter_scheme \<Rightarrow> reuse_span
   \<Rightarrow> 'a \<times> 's kv_engine \<Rightarrow> bool io_result \<times> ('a \<times> 's kv_engine)" where
  "restore_reuse cfg adapter span st =
     (if rs_source_keys span = [] \<or> rs_matched_tokens span = 0
      then (Inl (IoError InvalidInput ''reuse span must contain at least one KV block''), st)
      else if int (rs_query_start span) > 0xFFFFFFFF
      then (Inl (IoError InvalidInput ''reuse target position exceeds runtime adapter range''), st)
      else
        (case collect_blocks cfg (rs_source_keys span) [] (snd st) of
           (Inl e, eng1) \<Rightarrow> (Inl e, (fst st, eng1))
         | (Inr None, eng1) \<Rightarrow> (Inr False, (fst st, eng1))
         | (Inr (Some blocks), eng1) \<Rightarrow>
             (case ra_restore_relocated adapter blocks (of_nat (rs_query_start span)) (fst st) of
                (Inl e, a1) \<Rightarrow> (Inl e, (a1, eng1))
              | (Inr _, a1) \<Rightarrow> (Inr True, (a1, eng1)))))"

section \<open>The dynamic program finds a longest common run\<close>

text \<open>\<open>n\<close> tokens of the query from \<open>a\<close> on are the \<open>n\<close> tokens of the source from \<open>b\<close> on.\<close>

definition common_run :: "u32 list \<Rightarrow> u32 list \<Rightarrow> nat \<Rightarrow> nat \<Rightarrow> nat \<Rightarrow> bool" where
  "common_run q s a b n \<longleftrightarrow> a + n \<le> length q \<and> b + n \<le> length s \<and> take n (drop a q) = take n (drop b s)"

text \<open>The table: length of the common run that ends before both positions.\<close>

fun run_ending :: "u32 list \<Rightarrow> u32 list \<Rightarrow> nat \<Rightarrow> nat \<Rightarrow> nat" where
  "run_ending q s (Suc i) (Suc j) = (if q ! i = s ! j then Suc (run_ending q s i j) else 0)"
| "run_ending q s _ _ = 0"

lemma run_ending_0 [simp]: "run_ending q s i 0 = 0" "run_ending q s 0 j = 0"
  by (cases i; simp)+

lemma common_run_Suc:
  "common_run q s a b (Suc n) \<longleftrightarrow>
     common_run q s a b n \<and> a + n < length q \<and> b + n < length s \<and> q ! (a + n) = s ! (b + n)"
  by (auto simp: common_run_def take_Suc_conv_app_nth)

lemma common_run_sub:
  assumes "common_run q s a b n" "d + m \<le> n"
  shows "common_run q s (a + d) (b + d) m"
proof -
  have "take m (drop d (take n (drop a q))) = take m (drop d (take n (drop b s)))"
    using assms(1) by (simp add: common_run_def)
  then have "take m (drop (a + d) q) = take m (drop (b + d) s)"
    using assms(2) by (simp add: drop_take add.commute)
  with assms show ?thesis by (simp add: common_run_def)
qed

lemma run_ending_bound: "run_ending q s i j \<le> i" "run_ending q s i j \<le> j"
  by (induction q s i j rule: run_ending.induct) auto

lemma run_ending_common:
  "i \<le> length q \<Longrightarrow> j \<le> length s \<Longrightarrow>
   common_run q s (i - run_ending q s i j) (j - run_ending q s i j) (run_ending q s i j)"
proof (induction q s i j rule: run_ending.induct)
  case (1 q s i j)
  then show ?case
    using run_ending_bound [of q s i j] by (auto simp: common_run_Suc) (auto simp: common_run_def)
qed (simp_all add: common_run_def)

lemma run_ending_max: "common_run q s a b n \<Longrightarrow> n \<le> run_ending q s (a + n) (b + n)"
  by (induction n) (auto simp: common_run_Suc)

definition raw_ok :: "u32 list \<Rightarrow> u32 list \<Rightarrow> raw_match \<Rightarrow> bool" where
  "raw_ok q s m \<longleftrightarrow> common_run q s (rm_query_start m) (rm_source_start m) (rm_len m)"

text \<open>
  One row fills the cells of its suffix of the source with the table's values, keeps the best
  match a common run and makes it at least as long as every cell of the row.
\<close>

lemma lcs_row_fills:
  assumes qi: "qi < length q" "length q \<le> usize_max"
    and prev: "\<And>j. j \<le> length s \<Longrightarrow> previous ! j = run_ending q s qi j"
  shows "n \<le> length s \<Longrightarrow> length current = length s + 1 \<Longrightarrow> raw_ok q s best \<Longrightarrow>
     (\<And>j. n < j \<Longrightarrow> j \<le> length s \<Longrightarrow> current ! j = 0) \<Longrightarrow>
     lcs_row qi (q ! qi) previous (enumerate n (drop n s)) (current, best) = (current', best') \<Longrightarrow>
     length current' = length s + 1 \<and> raw_ok q s best' \<and> rm_len best \<le> rm_len best' \<and>
     (\<forall>j\<le>n. current' ! j = current ! j) \<and>
     (\<forall>j. n < j \<and> j \<le> length s \<longrightarrow> current' ! j = run_ending q s (Suc qi) j \<and> current' ! j \<le> rm_len best')"
proof (induction "drop n s" arbitrary: n current best)
  case Nil
  then show ?case by auto
next
  case (Cons x xs)
  have n: "n < length s" using Cons(2) by (metis drop_all not_le_imp_less list.distinct(1))
  then have d: "drop n s = s ! n # drop (Suc n) s" "x = s ! n" "xs = drop (Suc n) s"
    using Cons(2) by (simp_all add: Cons_nth_drop_Suc [symmetric])
  have split: "n < j \<longleftrightarrow> j = Suc n \<or> Suc n < j" for j by auto
  let ?len = "run_ending q s (Suc qi) (Suc n)"
  show ?case
  proof (cases "q ! qi = s ! n")
    case False
    have "length current' = length s + 1 \<and> raw_ok q s best' \<and> rm_len best \<le> rm_len best' \<and>
       (\<forall>j\<le>Suc n. current' ! j = current ! j) \<and>
       (\<forall>j. Suc n < j \<and> j \<le> length s \<longrightarrow> current' ! j = run_ending q s (Suc qi) j \<and> current' ! j \<le> rm_len best')"
      by (rule Cons(1) [OF d(3)]) (use Cons(4-) n d False in auto)
    moreover have "current ! Suc n = 0" using Cons(6) n by simp
    ultimately show ?thesis using False n by (auto simp: split)
  next
    case True
    have len: "usize_sat_add (previous ! n) 1 = ?len"
      using prev [of n] n run_ending_bound(1) [of q s qi n] qi True by (simp add: usize_sat_add_def)
    let ?best = "if ?len > rm_len best
            then \<lparr> rm_query_start = qi + 1 - ?len, rm_source_start = n + 1 - ?len, rm_len = ?len \<rparr> else best"
    let ?cur = "current[n + 1 := ?len]"
    have run: "lcs_row qi (q ! qi) previous (enumerate (Suc n) (drop (Suc n) s)) (?cur, ?best) = (current', best')"
      using Cons(7) d(1) True len by (simp add: Let_def cong: if_cong)
    have ok: "raw_ok q s ?best"
      using Cons(5) run_ending_common [of "Suc qi" q "Suc n" s] qi(1) n by (simp add: raw_ok_def)
    have "length current' = length s + 1 \<and> raw_ok q s best' \<and> rm_len ?best \<le> rm_len best' \<and>
       (\<forall>j\<le>Suc n. current' ! j = ?cur ! j) \<and>
       (\<forall>j. Suc n < j \<and> j \<le> length s \<longrightarrow> current' ! j = run_ending q s (Suc qi) j \<and> current' ! j \<le> rm_len best')"
      by (rule Cons(1) [OF d(3) _ _ ok _ run]) (use Cons(4-6) n in auto)
    moreover have "?cur ! Suc n = ?len" "\<forall>j\<le>n. ?cur ! j = current ! j" using Cons(4) n by auto
    moreover have "?len \<le> rm_len ?best" "rm_len best \<le> rm_len ?best" by auto
    ultimately show ?thesis by (auto simp: split intro: le_trans)
  qed
qed

lemma lcs_rows_longest:
  assumes "length q \<le> usize_max"
  shows "n \<le> length q \<Longrightarrow> (\<And>j. j \<le> length s \<Longrightarrow> previous ! j = run_ending q s n j) \<Longrightarrow> raw_ok q s best \<Longrightarrow>
     raw_ok q s (lcs_rows s (enumerate n (drop n q)) previous best) \<and>
     rm_len best \<le> rm_len (lcs_rows s (enumerate n (drop n q)) previous best) \<and>
     (\<forall>i j. n < i \<and> i \<le> length q \<and> j \<le> length s \<longrightarrow>
        run_ending q s i j \<le> rm_len (lcs_rows s (enumerate n (drop n q)) previous best))"
proof (induction "drop n q" arbitrary: n previous best)
  case Nil
  then show ?case by auto
next
  case (Cons x xs)
  have n: "n < length q" using Cons(2) by (metis drop_all not_le_imp_less list.distinct(1))
  then have d: "drop n q = q ! n # drop (Suc n) q" "xs = drop (Suc n) q"
    using Cons(2) by (simp_all add: Cons_nth_drop_Suc [symmetric])
  obtain cur best' where row: "lcs_row n (q ! n) previous (enumerate 0 (drop 0 s)) (replicate (length s + 1) 0, best) = (cur, best')"
    by fastforce
  have fill: "length cur = length s + 1 \<and> raw_ok q s best' \<and> rm_len best \<le> rm_len best' \<and>
     (\<forall>j\<le>0. cur ! j = replicate (length s + 1) 0 ! j) \<and>
     (\<forall>j. 0 < j \<and> j \<le> length s \<longrightarrow> cur ! j = run_ending q s (Suc n) j \<and> cur ! j \<le> rm_len best')"
    by (rule lcs_row_fills [OF n assms _ _ _ _ _ row]) (use Cons(4,5) in auto)
  then have cells: "cur ! j = run_ending q s (Suc n) j \<and> run_ending q s (Suc n) j \<le> rm_len best'" if "j \<le> length s" for j
    using that by (cases j) auto
  let ?res = "lcs_rows s (enumerate (Suc n) (drop (Suc n) q)) cur best'"
  have eq: "lcs_rows s (enumerate n (drop n q)) previous best = ?res" using row by (simp add: d(1))
  have ih: "raw_ok q s ?res \<and> rm_len best' \<le> rm_len ?res \<and>
     (\<forall>i j. Suc n < i \<and> i \<le> length q \<and> j \<le> length s \<longrightarrow> run_ending q s i j \<le> rm_len ?res)"
    by (rule Cons(1) [OF d(2)]) (use n cells fill in auto)
  have "n < i \<longleftrightarrow> i = Suc n \<or> Suc n < i" for i by auto
  with ih fill cells show ?case by (auto simp: eq intro: le_trans)
qed

lemma longest_common_substring_cases:
  assumes "length q \<le> usize_max"
  shows "case longest_common_substring q s of
           None \<Rightarrow> (\<forall>a b n. common_run q s a b n \<longrightarrow> n = 0)
         | Some m \<Rightarrow> 0 < rm_len m \<and> raw_ok q s m \<and> (\<forall>a b n. common_run q s a b n \<longrightarrow> n \<le> rm_len m)"
proof (cases "q = [] \<or> s = []")
  case True
  then show ?thesis by (auto simp: longest_common_substring_def common_run_def)
next
  case False
  let ?zero = "\<lparr> rm_query_start = 0, rm_source_start = 0, rm_len = 0 \<rparr>"
  let ?m = "lcs_rows s (enumerate 0 (drop 0 q)) (replicate (length s + 1) 0) ?zero"
  have zero: "raw_ok q s ?zero" by (simp add: raw_ok_def common_run_def)
  have m: "raw_ok q s ?m \<and> rm_len ?zero \<le> rm_len ?m \<and>
     (\<forall>i j. 0 < i \<and> i \<le> length q \<and> j \<le> length s \<longrightarrow> run_ending q s i j \<le> rm_len ?m)"
    by (rule lcs_rows_longest [OF assms _ _ zero]) (simp_all del: replicate_Suc)
  have "n \<le> rm_len ?m" if "common_run q s a b n" for a b n
  proof (cases "n = 0")
    case nz: False
    from that have "0 < a + n \<and> a + n \<le> length q \<and> b + n \<le> length s" using nz by (auto simp: common_run_def)
    with m run_ending_max [OF that] show ?thesis using le_trans by blast
  qed simp
  with m False show ?thesis by (auto simp: longest_common_substring_def Let_def)
qed

section \<open>Spans answered by the index\<close>

text \<open>The keys cover the tokens from \<open>a\<close> up to \<open>b\<close> without a gap or an overlap.\<close>

fun tiles :: "nat \<Rightarrow> nat \<Rightarrow> kv_block_key list \<Rightarrow> bool" where
  "tiles a b [] \<longleftrightarrow> a = b"
| "tiles a b (k # ks) \<longleftrightarrow> key_start k = a \<and> tiles (a + unat (key_token_count k)) b ks"

lemma key_end_exact: "key_end k = key_start k + unat (key_token_count k)"
  using unat32_bound [of "key_token_start k"] unat32_bound [of "key_token_count k"]
  by (simp add: key_end_def key_start_def usize_sat_add_def usize_max_def)

lemma contiguous_keys_tile:
  "ks = contiguous_keys keys e \<Longrightarrow> ks \<noteq> [] \<Longrightarrow>
   tiles e (key_end (last ks)) ks \<and> set ks \<subseteq> set keys \<and> e \<le> key_end (last ks) \<and> e = key_start (hd ks)"
proof (induction keys e arbitrary: ks rule: contiguous_keys.induct)
  case (2 key keys e)
  then have e: "key_start key = e" and ks: "ks = key # contiguous_keys keys (key_end key)"
    by (auto simp: key_end_def split: if_splits)
  show ?case
  proof (cases "contiguous_keys keys (key_end key)")
    case Nil
    with e ks show ?thesis by (simp add: key_end_exact)
  next
    case (Cons k' ks')
    let ?rest = "contiguous_keys keys (key_end key)"
    have u: "usize_sat_add e (unat (key_token_count key)) = key_end key" using e by (simp add: key_end_def)
    have "?rest \<noteq> []" by (simp add: Cons)
    with 2(1) [unfolded u, OF _ refl this] e
    have ih: "tiles (key_end key) (key_end (last ?rest)) ?rest \<and> set ?rest \<subseteq> set keys \<and> key_end key \<le> key_end (last ?rest)"
      by blast
    have "last ks = last ?rest" using ks Cons by simp
    moreover have "e + unat (key_token_count key) = key_end key" using e by (simp add: key_end_exact)
    ultimately show ?thesis using ih e by (auto simp: ks)
  qed
qed simp

definition span_ok :: "u32 list \<Rightarrow> segment_record \<Rightarrow> reuse_span \<Rightarrow> bool" where
  "span_ok q r span \<longleftrightarrow>
     common_run q (sr_tokens r) (rs_query_start span) (rs_source_start span) (rs_matched_tokens span) \<and>
     tiles (rs_source_start span) (rs_source_start span + rs_matched_tokens span) (rs_source_keys span) \<and>
     set (rs_source_keys span) \<subseteq> set (sr_block_keys r) \<and> rs_source_keys span \<noteq> []"

lemma usize_checked_add_Some: "usize_checked_add a b = Some c \<Longrightarrow> c = a + b"
  by (auto simp: usize_checked_add_def split: if_splits)

lemma align_to_blocks_ok:
  assumes raw: "raw_ok q (sr_tokens r) raw" and al: "align_to_blocks r raw = Some span"
    and q: "length q \<le> usize_max"
  shows "span_ok q r span"
proof -
  let ?stop = "rm_source_start raw + rm_len raw"
  define keys where "keys = keys_inside r (rm_source_start raw) ?stop"
  define ks where "ks = contiguous_keys keys (key_start (hd keys))"
  have "keys \<noteq> [] \<and> contiguous_span raw ks = Some span"
    using al by (auto simp: align_to_blocks_def keys_def ks_def split: option.splits list.splits
        dest!: usize_checked_add_Some simp del: contiguous_keys.simps)
  then have ks_ne: "ks \<noteq> []" and span: "span =
     \<lparr> rs_query_start = usize_sat_add (rm_query_start raw) (key_start (hd ks) - rm_source_start raw),
       rs_source_start = key_start (hd ks), rs_matched_tokens = key_end (last ks) - key_start (hd ks),
       rs_source_keys = ks \<rparr>"
    by (auto simp: contiguous_span_def Let_def key_end_exact split: list.splits)
  note t = contiguous_keys_tile [OF ks_def ks_ne]
  have "hd ks \<in> set keys" "last ks \<in> set keys" using t ks_ne by auto
  then have in_run: "rm_source_start raw \<le> key_start (hd ks)" "key_end (last ks) \<le> ?stop"
    by (auto simp: keys_def keys_inside_def)
  let ?d = "key_start (hd ks) - rm_source_start raw"
  have run: "common_run q (sr_tokens r) (rm_query_start raw) (rm_source_start raw) (rm_len raw)"
    using raw by (simp add: raw_ok_def)
  have "common_run q (sr_tokens r) (rm_query_start raw + ?d) (rm_source_start raw + ?d) (key_end (last ks) - key_start (hd ks))"
    by (rule common_run_sub [OF run]) (use in_run t in linarith)
  moreover have "usize_sat_add (rm_query_start raw) ?d = rm_query_start raw + ?d"
  proof (rule usize_sat_add_exact)
    have "rm_query_start raw + rm_len raw \<le> length q" using run by (simp add: common_run_def)
    with q in_run t show "rm_query_start raw + ?d \<le> usize_max" by linarith
  qed
  moreover have "set ks \<subseteq> set (sr_block_keys r)" using t by (auto simp: keys_def keys_inside_def)
  ultimately show ?thesis using in_run t ks_ne by (auto simp: span_ok_def span)
qed

text \<open>What the lookup loop keeps of its best span.\<close>

lemma best_segment_loop_ok:
  shows "length q \<le> usize_max \<Longrightarrow> (\<forall>span. best = Some span \<longrightarrow> (\<exists>r\<in>R. span_ok q r span) \<and> m \<le> rs_matched_tokens span) \<Longrightarrow> set records \<subseteq> R \<Longrightarrow>
    best_segment_loop q m records best = Some span \<Longrightarrow>
    (\<exists>r\<in>R. span_ok q r span) \<and> m \<le> rs_matched_tokens span"
proof (induction q m records best rule: best_segment_loop.induct)
  case (2 q m r records best)
  have step: "span_ok q r aligned" if "longest_common_substring q (sr_tokens r) = Some raw" "align_to_blocks r raw = Some aligned"
    for raw aligned
    using longest_common_substring_cases [OF 2(2), of "sr_tokens r"] that align_to_blocks_ok [OF _ that(2) 2(2)] by simp
  show ?case
    by (rule 2(1) [OF 2(2) _ _ 2(5) [unfolded best_segment_loop.simps]])
      (use 2(3,4) step in \<open>auto split: option.splits if_splits\<close>)
qed auto

section \<open>Properties\<close>

text \<open>
  C16: The dynamic program is correct: it answers a longest common run of the two token sequences,
  with its positions in both, and nothing exactly when they share no token.
\<close>
theorem longest_common_substring_is_longest:
  assumes "length q \<le> usize_max"
  shows "case longest_common_substring q s of
           None \<Rightarrow> set q \<inter> set s = {}
         | Some m \<Rightarrow> 0 < rm_len m \<and>
             common_run q s (rm_query_start m) (rm_source_start m) (rm_len m) \<and>
             (\<forall>a b n. common_run q s a b n \<longrightarrow> n \<le> rm_len m)"
proof -
  have "common_run q s i j 1" if "i < length q" "j < length s" "q ! i = s ! j" for i j
    using that by (simp add: common_run_def take_Suc_conv_app_nth)
  then have none: "set q \<inter> set s = {}" if "\<forall>a b n. common_run q s a b n \<longrightarrow> n = 0"
    using that by (metis disjoint_iff in_set_conv_nth one_neq_zero)
  show ?thesis
    using longest_common_substring_cases [OF assms, of s] none by (auto simp: raw_ok_def split: option.splits)
qed

theorem longest_common_substring_is_longest_witness:
  "\<exists>m. longest_common_substring [1, 2, 3, 4] [9, 2, 3, 7] = Some m \<and> 2 \<le> rm_len m \<and>
     common_run [1, 2, 3, 4] [9, 2, 3, 7] (rm_query_start m) (rm_source_start m) (rm_len m)"
proof -
  have l: "length [1, 2, 3, 4 :: u32] \<le> usize_max" by (simp add: usize_max_def)
  have "common_run [1, 2, 3, 4] [9, 2, 3, 7] 1 1 2" by (simp add: common_run_def)
  then show ?thesis
    using longest_common_substring_is_longest [OF l, of "[9, 2, 3, 7]"] by (auto split: option.splits)
qed

text \<open>
  C17: Every span the index answers is a run of at least the requested number of query tokens that
  occurs, token for token, in a registered record of the same model, and its keys are blocks of that
  record that tile the run exactly.
\<close>
theorem best_segment_answers_real_runs:
  assumes "best_segment fp q min_match records = Inr (Some span)" "length q \<le> usize_max"
  shows "min_match \<le> rs_matched_tokens span \<and>
    (\<exists>r\<in>set records. sr_model_fingerprint r = fp \<and>
       common_run q (sr_tokens r) (rs_query_start span) (rs_source_start span) (rs_matched_tokens span) \<and>
       tiles (rs_source_start span) (rs_source_start span + rs_matched_tokens span) (rs_source_keys span) \<and>
       set (rs_source_keys span) \<subseteq> set (sr_block_keys r))"
proof -
  let ?R = "set [r \<leftarrow> records. sr_model_fingerprint r = fp]"
  have "best_segment_loop q min_match [r \<leftarrow> records. sr_model_fingerprint r = fp] None = Some span"
    using assms(1) by (auto simp: best_segment_def split: if_splits)
  from best_segment_loop_ok [OF assms(2) _ order_refl this] show ?thesis by (auto simp: span_ok_def)
qed

definition demo_segment :: segment_record where
  "demo_segment = \<lparr> sr_model_fingerprint = ''m'', sr_tokens = [7, 8, 9, 10],
     sr_block_keys = [demo_key\<lparr> key_token_start := 0, key_token_count := 2, key_layer_count := 1 \<rparr>,
                      demo_key\<lparr> key_token_start := 2, key_token_count := 2, key_layer_count := 1 \<rparr>] \<rparr>"

theorem best_segment_answers_real_runs_witness:
  "\<exists>span r. best_segment ''m'' [5, 9, 10, 5] 2 [demo_segment] = Inr (Some span) \<and> 2 \<le> rs_matched_tokens span \<and>
     r = demo_segment \<and>
     common_run [5, 9, 10, 5] (sr_tokens r) (rs_query_start span) (rs_source_start span) (rs_matched_tokens span)"
proof -
  have "(case best_segment ''m'' [5, 9, 10, 5] 2 [demo_segment] of Inr r \<Rightarrow> r \<noteq> None | Inl _ \<Rightarrow> False)" by code_simp
  then obtain span where "best_segment ''m'' [5, 9, 10, 5] 2 [demo_segment] = Inr (Some span)"
    by (auto split: sum.splits)
  with best_segment_answers_real_runs [OF this] show ?thesis by (auto simp: usize_max_def)
qed

end
