(* ===== verification/Quality.thy ===== *)
theory Quality
  imports Reuse
begin

text \<open>
  Quality-aware reuse, \<open>src/quality.rs\<close>: the greedy plan that covers a query with spans of
  the segment index, the ranges to recompute at the span boundaries, and the application of a plan
  to a runtime. The spans of a plan are shown to be disjoint, ordered and real; the recomputed
  ranges to be exactly the boundary tokens; a missing block to leave the runtime untouched.
\<close>

section \<open>Ranges and policy\<close>

record token_range =
  tr_start :: nat
  tr_len :: nat

definition tr_end :: "token_range \<Rightarrow> nat" where
  "tr_end r = usize_sat_add (tr_start r) (tr_len r)"

record quality_policy =
  qp_min_match_tokens :: nat
  qp_boundary_recompute_tokens :: nat
  qp_max_segments :: nat
  qp_min_coverage_per_mille :: u16

definition quality_validate :: "quality_policy \<Rightarrow> quality_policy io_result" where
  "quality_validate policy =
     (if qp_min_match_tokens policy = 0 \<or> qp_max_segments policy = 0 \<or> int (qp_max_segments policy) > 1024 \<or>
         qp_min_coverage_per_mille policy > 1000
      then Inl (IoError InvalidInput ''quality reuse policy has invalid match/segment/coverage limits'')
      else Inr policy)"

record quality_plan =
  qpl_spans :: "reuse_span list"
  qpl_recompute_ranges :: "token_range list"
  qpl_query_tokens :: nat
  qpl_reused_tokens :: nat
  qpl_coverage_per_mille :: u16

section \<open>Planning\<close>

definition slice_tokens :: "nat \<Rightarrow> nat \<Rightarrow> u32 list \<Rightarrow> u32 list io_result" where
  "slice_tokens start stop tokens =
     (if start \<le> stop \<and> stop \<le> length tokens then Inr (take (stop - start) (drop start tokens))
      else Inl (Panicked ''slice index out of range''))"

text \<open>The best span over the uncovered ranges, with the range it lies in.\<close>

fun choose_range ::
  "string \<Rightarrow> u32 list \<Rightarrow> nat \<Rightarrow> segment_index \<Rightarrow> (nat \<times> nat \<times> nat) list \<Rightarrow> (nat \<times> nat \<times> reuse_span) option
   \<Rightarrow> (nat \<times> nat \<times> reuse_span) option io_result" where
  "choose_range fp query min_match index [] best_choice = Inr best_choice"
| "choose_range fp query min_match index ((range_index, start, stop) # ranges) best_choice =
     (if stop - start < min_match then choose_range fp query min_match index ranges best_choice
      else result_bind (slice_tokens start stop query) (\<lambda>tokens.
        result_bind (best_segment fp tokens min_match index) (\<lambda>r.
          case r of
            None \<Rightarrow> choose_range fp query min_match index ranges best_choice
          | Some span0 \<Rightarrow>
              (let span = span0\<lparr> rs_query_start := usize_sat_add (rs_query_start span0) start \<rparr> in
               choose_range fp query min_match index ranges
                 (if better_span span (map_option (\<lambda>(_, _, current). current) best_choice)
                  then Some (range_index, start, span) else best_choice)))))"

definition uncovered :: "nat \<Rightarrow> nat \<Rightarrow> reuse_span \<Rightarrow> (nat \<times> nat) list \<Rightarrow> (nat \<times> nat) list" where
  "uncovered range_start range_end span ranges =
     (let span_end = usize_sat_add (rs_query_start span) (rs_matched_tokens span) in
      ranges @ (if rs_query_start span > range_start then [(range_start, rs_query_start span)] else [])
             @ (if span_end < range_end then [(span_end, range_end)] else []))"

function plan_loop ::
  "string \<Rightarrow> u32 list \<Rightarrow> quality_policy \<Rightarrow> segment_index \<Rightarrow> (nat \<times> nat) list \<Rightarrow> reuse_span list
   \<Rightarrow> reuse_span list io_result" where
  "plan_loop fp query policy index ranges spans =
     (if ranges = [] \<or> length spans \<ge> qp_max_segments policy then Inr spans
      else
        (case choose_range fp query (qp_min_match_tokens policy) index (enumerate 0 ranges) None of
           Inl e \<Rightarrow> Inl e
         | Inr None \<Rightarrow> Inr spans
         | Inr (Some (range_index, range_start, span)) \<Rightarrow>
             plan_loop fp query policy index
               (uncovered range_start (snd (ranges ! range_index)) span (swap_remove range_index ranges))
               (spans @ [span])))"
  by pat_completeness auto
termination
  by (relation "measure (\<lambda>(fp, query, policy, index, ranges, spans). qp_max_segments policy - length spans)") auto

section \<open>Boundaries\<close>

definition span_boundaries :: "nat \<Rightarrow> nat \<Rightarrow> reuse_span \<Rightarrow> token_range list" where
  "span_boundaries query_len halo span =
     (let stop = min (usize_sat_add (rs_query_start span) (rs_matched_tokens span)) query_len;
          left_len = min (min halo (rs_matched_tokens span)) (query_len - rs_query_start span);
          right_len = min (min halo (rs_matched_tokens span)) stop in
      (if left_len > 0 then [\<lparr> tr_start = rs_query_start span, tr_len = left_len \<rparr>] else []) @
      (if right_len > 0 then [\<lparr> tr_start = stop - right_len, tr_len = right_len \<rparr>] else []))"

text \<open>The merging loop: the last merged range is kept apart from the ones before it.\<close>

fun merge_loop :: "token_range list \<Rightarrow> token_range list \<Rightarrow> token_range list" where
  "merge_loop merged [] = merged"
| "merge_loop merged (range1 # ranges) =
     (if merged \<noteq> [] \<and> tr_start range1 \<le> tr_end (last merged) then
        merge_loop (butlast merged @
            [(last merged)\<lparr> tr_len := max (tr_end (last merged)) (tr_end range1) - tr_start (last merged) \<rparr>]) ranges
      else merge_loop (merged @ [range1]) ranges)"

definition merge_ranges :: "token_range list \<Rightarrow> token_range list" where
  "merge_ranges ranges = merge_loop [] (sort_key tr_start [r \<leftarrow> ranges. tr_len r > 0])"

definition boundary_ranges :: "reuse_span list \<Rightarrow> nat \<Rightarrow> nat \<Rightarrow> token_range list" where
  "boundary_ranges spans query_len halo =
     (if halo = 0 then [] else merge_ranges (concat (map (span_boundaries query_len halo) spans)))"

definition plan_quality_reuse ::
  "segment_index \<Rightarrow> string \<Rightarrow> u32 list \<Rightarrow> quality_policy \<Rightarrow> quality_plan option io_result" where
  "plan_quality_reuse index fp query policy0 =
     result_bind (quality_validate policy0) (\<lambda>policy.
       if query = [] then Inr None
       else result_bind (plan_loop fp query policy index [(0, length query)] []) (\<lambda>found.
         if found = [] then Inr None
         else
           (let spans = sort_key rs_query_start found;
                reused_tokens = fold (\<lambda>span total. usize_sat_add total (rs_matched_tokens span)) spans 0;
                coverage = (of_nat (min (usize_sat_mul reused_tokens 1000 div length query) 1000) :: u16) in
            if coverage < qp_min_coverage_per_mille policy then Inr None
            else Inr (Some \<lparr> qpl_spans = spans,
                  qpl_recompute_ranges = boundary_ranges spans (length query) (qp_boundary_recompute_tokens policy),
                  qpl_query_tokens = length query, qpl_reused_tokens = reused_tokens,
                  qpl_coverage_per_mille = coverage \<rparr>))))"

section \<open>Applying a plan\<close>

record 'a quality_adapter = "'a relocatable_adapter" +
  ra_recompute_ranges :: "u32 list \<Rightarrow> token_range list \<Rightarrow> 'a \<Rightarrow> unit io_result \<times> 'a"

fun load_spans ::
  "kv_config \<Rightarrow> reuse_span list \<Rightarrow> (nat \<times> kv_block list) list \<Rightarrow> 's kv_engine
   \<Rightarrow> (nat \<times> kv_block list) list option io_result \<times> 's kv_engine" where
  "load_spans cfg [] loaded eng = (Inr (Some loaded), eng)"
| "load_spans cfg (span # spans) loaded eng =
     and_then (collect_blocks cfg (rs_source_keys span) [] eng) (\<lambda>r eng1.
       case r of None \<Rightarrow> (Inr None, eng1)
               | Some blocks \<Rightarrow> load_spans cfg spans (loaded @ [(rs_query_start span, blocks)]) eng1)"

fun restore_loaded ::
  "('a, 'z) relocatable_adapter_scheme \<Rightarrow> (nat \<times> kv_block list) list \<Rightarrow> 'a \<Rightarrow> unit io_result \<times> 'a" where
  "restore_loaded adapter [] a = (Inr (), a)"
| "restore_loaded adapter ((target, blocks) # loaded) a =
     (if int target > 0xFFFFFFFF
      then (Inl (IoError InvalidInput ''quality reuse target exceeds runtime position range''), a)
      else and_then (ra_restore_relocated adapter blocks (of_nat target) a) (\<lambda>_ a1. restore_loaded adapter loaded a1))"

definition apply_quality_reuse ::
  "kv_config \<Rightarrow> 'a quality_adapter \<Rightarrow> u32 list \<Rightarrow> quality_plan
   \<Rightarrow> 'a \<times> 's kv_engine \<Rightarrow> bool io_result \<times> ('a \<times> 's kv_engine)" where
  "apply_quality_reuse cfg adapter query plan st =
     (if length query \<noteq> qpl_query_tokens plan \<or> qpl_spans plan = []
      then (Inl (IoError InvalidInput ''quality reuse plan does not match the supplied query''), st)
      else
        (case load_spans cfg (qpl_spans plan) [] (snd st) of
           (Inl e, eng1) \<Rightarrow> (Inl e, (fst st, eng1))
         | (Inr None, eng1) \<Rightarrow> (Inr False, (fst st, eng1))
         | (Inr (Some loaded), eng1) \<Rightarrow>
             (case restore_loaded adapter loaded (fst st) of
                (Inl e, a1) \<Rightarrow> (Inl e, (a1, eng1))
              | (Inr _, a1) \<Rightarrow>
                  if qpl_recompute_ranges plan = [] then (Inr True, (a1, eng1))
                  else
                    (case ra_recompute_ranges adapter query (qpl_recompute_ranges plan) a1 of
                       (Inl e, a2) \<Rightarrow> (Inl e, (a2, eng1))
                     | (Inr _, a2) \<Rightarrow> (Inr True, (a2, eng1))))))"

section \<open>Lemmas on the plan\<close>

definition real_span :: "segment_index \<Rightarrow> string \<Rightarrow> u32 list \<Rightarrow> nat \<Rightarrow> reuse_span \<Rightarrow> bool" where
  "real_span index fp q m span \<longleftrightarrow>
     m \<le> rs_matched_tokens span \<and> (\<exists>r\<in>set index. sr_model_fingerprint r = fp \<and> span_ok q r span)"

definition choice_ok ::
  "segment_index \<Rightarrow> string \<Rightarrow> u32 list \<Rightarrow> nat \<Rightarrow> (nat \<times> nat) list \<Rightarrow> (nat \<times> nat \<times> reuse_span) option \<Rightarrow> bool" where
  "choice_ok index fp q m ranges c \<longleftrightarrow>
     (\<forall>i s span. c = Some (i, s, span) \<longrightarrow>
        i < length ranges \<and> fst (ranges ! i) = s \<and> s \<le> rs_query_start span \<and>
        rs_query_start span + rs_matched_tokens span \<le> snd (ranges ! i) \<and> real_span index fp q m span)"

lemma common_run_slice:
  assumes "common_run (take n (drop s q)) toks a b m" "s + n \<le> length q"
  shows "common_run q toks (a + s) b m \<and> a + m \<le> n"
proof -
  have "a + m \<le> n" using assms by (simp add: common_run_def)
  then have "take m (drop a (take n (drop s q))) = take m (drop (a + s) q)"
    by (simp add: drop_take)
  with assms \<open>a + m \<le> n\<close> show ?thesis by (simp add: common_run_def)
qed

lemma best_segment_slice:
  assumes "best_segment fp (take (e - s) (drop s q)) m index = Inr (Some span0)"
    and "s \<le> e" "e \<le> length q" "length q \<le> usize_max"
    and "span = span0\<lparr> rs_query_start := usize_sat_add (rs_query_start span0) s \<rparr>"
  shows "s \<le> rs_query_start span \<and> rs_query_start span + rs_matched_tokens span \<le> e \<and> real_span index fp q m span"
proof -
  let ?R = "set [r \<leftarrow> index. sr_model_fingerprint r = fp]"
  have "best_segment_loop (take (e - s) (drop s q)) m [r \<leftarrow> index. sr_model_fingerprint r = fp] None = Some span0"
    using assms(1) by (auto simp: best_segment_def split: if_splits)
  moreover have "length (take (e - s) (drop s q)) \<le> usize_max" using assms(3,4) by simp
  ultimately have "(\<exists>r\<in>?R. span_ok (take (e - s) (drop s q)) r span0) \<and> m \<le> rs_matched_tokens span0"
    by (intro best_segment_loop_ok) auto
  then obtain r where r: "r \<in> ?R" "span_ok (take (e - s) (drop s q)) r span0" and m: "m \<le> rs_matched_tokens span0" by auto
  have run: "common_run q (sr_tokens r) (rs_query_start span0 + s) (rs_source_start span0) (rs_matched_tokens span0)"
    and le: "rs_query_start span0 + rs_matched_tokens span0 \<le> e - s"
    using common_run_slice [of "e - s" s q] r(2) assms(2,3) by (auto simp: span_ok_def)
  have "usize_sat_add (rs_query_start span0) s = rs_query_start span0 + s"
    using le assms(2-4) by (intro usize_sat_add_exact) linarith
  then show ?thesis
    using run le r m assms(2,5) by (auto simp: real_span_def span_ok_def)
qed

lemma choose_range_ok:
  assumes "length q \<le> usize_max" "0 < m"
  shows "(\<forall>(i, s, e)\<in>set entries. i < length ranges \<and> ranges ! i = (s, e) \<and> s \<le> e \<and> e \<le> length q) \<Longrightarrow>
     choice_ok index fp q m ranges best \<Longrightarrow>
     \<exists>c. choose_range fp q m index entries best = Inr c \<and> choice_ok index fp q m ranges c"
proof (induction entries arbitrary: best)
  case (Cons x entries)
  obtain i s e where x: "x = (i, s, e)" by (cases x)
  have r: "i < length ranges" "ranges ! i = (s, e)" "s \<le> e" "e \<le> length q" using Cons(2) x by auto
  note ih = Cons(1) [OF ballI, rule_format]
  have rest: "\<exists>c. choose_range fp q m index entries b = Inr c \<and> choice_ok index fp q m ranges c"
    if "choice_ok index fp q m ranges b" for b
    using Cons(1) [OF _ that] Cons(2) by simp
  show ?case
  proof (cases "e - s < m")
    case True
    then show ?thesis using rest Cons(3) by (simp add: x)
  next
    case False
    then have ne: "take (e - s) (drop s q) \<noteq> []" using r assms(2) by auto
    obtain o1 where o1: "best_segment fp (take (e - s) (drop s q)) m index = Inr o1"
      using assms(2) ne by (simp add: best_segment_def)
    show ?thesis
    proof (cases o1)
      case None
      then show ?thesis using rest Cons(3) o1 False r by (simp add: x slice_tokens_def)
    next
      case (Some span0)
      let ?span = "span0\<lparr> rs_query_start := usize_sat_add (rs_query_start span0) s \<rparr>"
      have "choice_ok index fp q m ranges (Some (i, s, ?span))"
        using best_segment_slice [OF o1 [unfolded Some] r(3,4) assms(1) refl] r by (simp add: choice_ok_def)
      with rest Cons(3) o1 Some False r show ?thesis by (simp add: x slice_tokens_def Let_def)
    qed
  qed
qed simp

text \<open>No position lies in two of the intervals.\<close>

definition no_overlap :: "(nat \<times> nat) multiset \<Rightarrow> bool" where
  "no_overlap M \<longleftrightarrow> (\<forall>t. size {#p \<in># M. fst p \<le> t \<and> t < snd p#} \<le> 1)"

lemma no_overlap_split:
  assumes "no_overlap (add_mset (s, e) M)" "s \<le> a" "a \<le> b" "b \<le> e"
  shows "no_overlap (add_mset (s, a) (add_mset (a, b) (add_mset (b, e) M)))"
  unfolding no_overlap_def
proof
  fix t
  have "size {#p \<in># add_mset (s, e) M. fst p \<le> t \<and> t < snd p#} \<le> 1"
    using assms(1) unfolding no_overlap_def by blast
  then show "size {#p \<in># add_mset (s, a) (add_mset (a, b) (add_mset (b, e) M)). fst p \<le> t \<and> t < snd p#} \<le> 1"
    using assms(2-4) by (auto split: if_splits)
qed

lemma no_overlap_mono: "N \<subseteq># M \<Longrightarrow> no_overlap M \<Longrightarrow> no_overlap N"
  unfolding no_overlap_def by (meson le_trans multiset_filter_mono size_mset_mono)

definition span_interval :: "reuse_span \<Rightarrow> nat \<times> nat" where
  "span_interval span = (rs_query_start span, rs_query_start span + rs_matched_tokens span)"

definition plan_inv ::
  "segment_index \<Rightarrow> string \<Rightarrow> u32 list \<Rightarrow> nat \<Rightarrow> (nat \<times> nat) list \<Rightarrow> reuse_span list \<Rightarrow> bool" where
  "plan_inv index fp q m ranges spans \<longleftrightarrow>
     (\<forall>(s, e)\<in>set ranges. s \<le> e \<and> e \<le> length q) \<and>
     (\<forall>span\<in>set spans. real_span index fp q m span) \<and>
     no_overlap (mset ranges + mset (map span_interval spans))"

lemma real_span_inside: "real_span index fp q m span \<Longrightarrow> rs_query_start span + rs_matched_tokens span \<le> length q"
  by (auto simp: real_span_def span_ok_def common_run_def)

lemma plan_inv_range:
  "plan_inv index fp q m ranges spans \<Longrightarrow> i < length ranges \<Longrightarrow> ranges ! i = (s, e) \<Longrightarrow> s \<le> e \<and> e \<le> length q"
  using nth_mem [of i ranges] by (auto simp: plan_inv_def)

lemma uncovered_keeps:
  assumes inv: "plan_inv index fp q m ranges spans" and q: "length q \<le> usize_max"
    and ok: "choice_ok index fp q m ranges (Some (i, s, span))"
  shows "plan_inv index fp q m (uncovered s (snd (ranges ! i)) span (swap_remove i ranges)) (spans @ [span])"
proof -
  let ?a = "rs_query_start span" and ?b = "rs_query_start span + rs_matched_tokens span"
  obtain e where c: "i < length ranges" "ranges ! i = (s, e)" "s \<le> ?a" "?b \<le> e" "real_span index fp q m span"
    using ok by (cases "ranges ! i") (auto simp: choice_ok_def)
  note perm = mset_swap_remove [OF c(1), unfolded c(2)]
  have se: "s \<le> e" "e \<le> length q" using plan_inv_range [OF inv c(1,2)] by auto
  have exact: "usize_sat_add ?a (rs_matched_tokens span) = ?b"
    using c(4) se q by (intro usize_sat_add_exact) linarith
  have "set (swap_remove i ranges) \<subseteq> set ranges" using perm by (metis set_mset_mset set_mset_add_mset_insert subset_insertI)
  moreover have "no_overlap (add_mset (s, ?a) (add_mset (?a, ?b) (add_mset (?b, e)
      (mset (swap_remove i ranges) + mset (map span_interval spans)))))"
    using inv c(3,4) by (intro no_overlap_split) (auto simp: plan_inv_def perm [symmetric])
  then have "no_overlap (mset (uncovered s e span (swap_remove i ranges)) + mset (map span_interval (spans @ [span])))"
    by (rule no_overlap_mono [rotated]) (simp add: uncovered_def exact Let_def span_interval_def)
  ultimately show ?thesis
    using inv c se by (auto simp: plan_inv_def uncovered_def exact Let_def)
qed

lemma plan_loop_ok:
  assumes q: "length q \<le> usize_max" and m: "0 < qp_min_match_tokens policy"
  shows "plan_inv index fp q (qp_min_match_tokens policy) ranges spans \<Longrightarrow> length spans \<le> qp_max_segments policy \<Longrightarrow>
    \<exists>found ranges'. plan_loop fp q policy index ranges spans = Inr found \<and>
      plan_inv index fp q (qp_min_match_tokens policy) ranges' found \<and> length found \<le> qp_max_segments policy"
proof (induction "qp_max_segments policy - length spans" arbitrary: ranges spans rule: less_induct)
  case less
  let ?m = "qp_min_match_tokens policy"
  show ?case
  proof (cases "ranges = [] \<or> length spans \<ge> qp_max_segments policy")
    case True
    then show ?thesis using less(2,3) by auto
  next
    case False
    have "\<exists>c. choose_range fp q ?m index (enumerate 0 ranges) None = Inr c \<and> choice_ok index fp q ?m ranges c"
      by (rule choose_range_ok [OF q m])
        (use plan_inv_range [OF less(2)] in \<open>auto simp: choice_ok_def in_set_enumerate_eq\<close>)
    then obtain c where c: "choose_range fp q ?m index (enumerate 0 ranges) None = Inr c" "choice_ok index fp q ?m ranges c"
      by auto
    show ?thesis
    proof (cases c)
      case None
      then show ?thesis using less(2,3) c False by auto
    next
      case (Some x)
      obtain i s span where x: "x = (i, s, span)" by (cases x)
      from uncovered_keeps [OF less(2) q] c(2) Some x
      have inv: "plan_inv index fp q ?m (uncovered s (snd (ranges ! i)) span (swap_remove i ranges)) (spans @ [span])" by simp
      have "\<exists>found ranges'. plan_loop fp q policy index
             (uncovered s (snd (ranges ! i)) span (swap_remove i ranges)) (spans @ [span]) = Inr found \<and>
           plan_inv index fp q ?m ranges' found \<and> length found \<le> qp_max_segments policy"
        by (rule less(1) [OF _ inv]) (use False in auto)
      then show ?thesis using c(1) Some x False by (simp del: plan_loop.simps add: plan_loop.simps [of _ _ _ _ ranges])
    qed
  qed
qed

text \<open>Disjoint spans in order of their start follow each other.\<close>

lemma no_overlap_before:
  assumes "no_overlap (add_mset (a, b) (add_mset (c, d) M))" "a \<le> c" "c < d"
  shows "b \<le> c"
proof -
  have "size {#p \<in># add_mset (a, b) (add_mset (c, d) M). fst p \<le> c \<and> c < snd p#} \<le> 1"
    using assms(1) unfolding no_overlap_def by blast
  with assms(2,3) show ?thesis by (auto split: if_splits)
qed

lemma sorted_disjoint_spans:
  "sorted (map rs_query_start spans) \<Longrightarrow> no_overlap (mset (map span_interval spans)) \<Longrightarrow>
   (\<And>span. span \<in> set spans \<Longrightarrow> 0 < rs_matched_tokens span) \<Longrightarrow>
   sorted_wrt (\<lambda>x y. rs_query_start x + rs_matched_tokens x \<le> rs_query_start y) spans"
proof (induction spans)
  case (Cons x spans)
  have "rs_query_start x + rs_matched_tokens x \<le> rs_query_start y" if y: "y \<in> set spans" for y
  proof -
    obtain M where "mset (map span_interval spans) = add_mset (span_interval y) M"
      using y by (metis image_eqI in_multiset_in_set list.set_map multi_member_split)
    then have "no_overlap (add_mset (span_interval x) (add_mset (span_interval y) M))" using Cons(3) by simp
    from no_overlap_before [OF this [unfolded span_interval_def]] Cons(2,4) y show ?thesis by auto
  qed
  moreover have "no_overlap (mset (map span_interval spans))"
    by (rule no_overlap_mono [OF _ Cons(3)]) simp
  ultimately show ?case using Cons by simp
qed simp

lemma disjoint_spans_sum:
  "sorted_wrt (\<lambda>x y. rs_query_start x + rs_matched_tokens x \<le> rs_query_start y) spans \<Longrightarrow>
   (\<And>span. span \<in> set spans \<Longrightarrow> c \<le> rs_query_start span \<and> rs_query_start span + rs_matched_tokens span \<le> n) \<Longrightarrow>
   c \<le> n \<Longrightarrow> c + sum_list (map rs_matched_tokens spans) \<le> n"
proof (induction spans arbitrary: c)
  case (Cons x spans)
  have "rs_query_start x + rs_matched_tokens x + sum_list (map rs_matched_tokens spans) \<le> n"
    by (rule Cons(1)) (use Cons(2,3) in auto)
  moreover have "c \<le> rs_query_start x" using Cons(3) [of x] by simp
  ultimately show ?case by simp
qed simp

lemma fold_sat_sum:
  "c + sum_list (map rs_matched_tokens spans) \<le> usize_max \<Longrightarrow>
   fold (\<lambda>span total. usize_sat_add total (rs_matched_tokens span)) spans c = c + sum_list (map rs_matched_tokens spans)"
  by (induction spans arbitrary: c) (simp_all add: usize_sat_add_exact)

lemma plan_loop_result:
  assumes "quality_validate policy0 = Inr policy" "length q \<le> usize_max"
  obtains found where "plan_loop fp q policy index [(0, length q)] [] = Inr found" "length found \<le> qp_max_segments policy"
    "list_all (real_span index fp q (qp_min_match_tokens policy)) found"
    "sorted_wrt (\<lambda>x y. rs_query_start x + rs_matched_tokens x \<le> rs_query_start y) (sort_key rs_query_start found)"
    "sum_list (map rs_matched_tokens found) \<le> length q"
proof -
  let ?m = "qp_min_match_tokens policy"
  have m: "0 < ?m" using assms(1) by (auto simp: quality_validate_def split: if_splits)
  have "plan_inv index fp q ?m [(0, length q)] []" by (simp add: plan_inv_def no_overlap_def)
  from plan_loop_ok [OF assms(2) m this] obtain found ranges' where
    run: "plan_loop fp q policy index [(0, length q)] [] = Inr found" and
    inv: "plan_inv index fp q ?m ranges' found" and len: "length found \<le> qp_max_segments policy" by auto
  have real: "real_span index fp q ?m span" if "span \<in> set found" for span using inv that by (simp add: plan_inv_def)
  have "no_overlap (mset (map span_interval found))"
    by (rule no_overlap_mono [of _ "mset ranges' + mset (map span_interval found)"]) (use inv in \<open>simp_all add: plan_inv_def\<close>)
  moreover have "0 < rs_matched_tokens span" if "span \<in> set found" for span
    using real [OF that] m by (simp add: real_span_def)
  ultimately have ord: "sorted_wrt (\<lambda>x y. rs_query_start x + rs_matched_tokens x \<le> rs_query_start y) (sort_key rs_query_start found)"
    by (intro sorted_disjoint_spans) simp_all
  have "0 + sum_list (map rs_matched_tokens (sort_key rs_query_start found)) \<le> length q"
    by (rule disjoint_spans_sum [OF ord]) (use real_span_inside [OF real] in auto)
  moreover have "sum_list (map rs_matched_tokens (sort_key rs_query_start found)) = sum_list (map rs_matched_tokens found)"
    by (metis mset_map mset_sort sum_mset_sum_list)
  ultimately show ?thesis using run len ord real by (intro that) (auto simp: list_all_iff)
qed

text \<open>
  C18: Planning never fails on a valid policy, and every plan it makes is sound: at most the allowed
  number of spans, in order and without overlap, each a real run of a registered record of the model of
  at least the required length, their total length being the reported number of reused tokens, which the
  query bounds, and the reported coverage is at least the required one.
\<close>
theorem quality_plan_is_sound:
  assumes "quality_validate policy0 = Inr policy" "length q \<le> usize_max"
  shows "\<exists>r. plan_quality_reuse index fp q policy0 = Inr r \<and>
    (\<forall>plan. r = Some plan \<longrightarrow>
       qpl_spans plan \<noteq> [] \<and> length (qpl_spans plan) \<le> qp_max_segments policy \<and>
       list_all (real_span index fp q (qp_min_match_tokens policy)) (qpl_spans plan) \<and>
       sorted_wrt (\<lambda>x y. rs_query_start x + rs_matched_tokens x \<le> rs_query_start y) (qpl_spans plan) \<and>
       qpl_reused_tokens plan = sum_list (map rs_matched_tokens (qpl_spans plan)) \<and>
       qpl_reused_tokens plan \<le> length q \<and> qpl_query_tokens plan = length q \<and>
       qp_min_coverage_per_mille policy \<le> qpl_coverage_per_mille plan \<and> qpl_coverage_per_mille plan \<le> 1000)"
proof -
  obtain found where f: "plan_loop fp q policy index [(0, length q)] [] = Inr found" "length found \<le> qp_max_segments policy"
    "list_all (real_span index fp q (qp_min_match_tokens policy)) found"
    "sorted_wrt (\<lambda>x y. rs_query_start x + rs_matched_tokens x \<le> rs_query_start y) (sort_key rs_query_start found)"
    "sum_list (map rs_matched_tokens found) \<le> length q"
    by (rule plan_loop_result [OF assms])
  have sum: "sum_list (map rs_matched_tokens (sort_key rs_query_start found)) = sum_list (map rs_matched_tokens found)"
    by (metis mset_map mset_sort sum_mset_sum_list)
  then have total: "fold (\<lambda>span total. usize_sat_add total (rs_matched_tokens span)) (sort_key rs_query_start found) 0 =
      sum_list (map rs_matched_tokens found)"
    using fold_sat_sum [of 0 "sort_key rs_query_start found"] f(5) assms(2) by simp
  have le: "(of_nat (min x 1000) :: u16) \<le> 1000" for x
    by (simp add: word_le_nat_alt unat_of_nat)
  have ne: "sort_key rs_query_start found = [] \<longleftrightarrow> found = []" by (metis length_0_conv length_sort)
  show ?thesis
    using f sum total le ne by (auto simp: plan_quality_reuse_def assms(1) Let_def list_all_iff not_less simp del: plan_loop.simps)
qed

section \<open>The recomputed ranges\<close>

definition covered :: "token_range list \<Rightarrow> nat set" where
  "covered rs = (\<Union>r\<in>set rs. {tr_start r ..< tr_start r + tr_len r})"

definition separated :: "token_range list \<Rightarrow> bool" where
  "separated rs \<longleftrightarrow> sorted_wrt (\<lambda>x y. tr_start x + tr_len x < tr_start y) rs"

lemma covered_simps [simp]:
  "covered [] = {}" "covered (r # rs) = {tr_start r ..< tr_start r + tr_len r} \<union> covered rs"
  "covered (rs @ rs') = covered rs \<union> covered rs'"
  by (auto simp: covered_def)

definition fits_usize :: "token_range list \<Rightarrow> bool" where
  "fits_usize rs \<longleftrightarrow> (\<forall>r\<in>set rs. tr_start r + tr_len r \<le> usize_max)"

lemma merge_loop_ok:
  "sorted (map tr_start ranges) \<Longrightarrow> fits_usize (merged @ ranges) \<Longrightarrow> separated merged \<Longrightarrow>
   (\<forall>m\<in>set merged. \<forall>r\<in>set ranges. tr_start m \<le> tr_start r) \<Longrightarrow>
   separated (merge_loop merged ranges) \<and> covered (merge_loop merged ranges) = covered merged \<union> covered ranges"
proof (induction merged ranges rule: merge_loop.induct)
  case (2 merged r ranges)
  have fits: "tr_end x = tr_start x + tr_len x" if "x \<in> set (merged @ r # ranges)" for x
    using 2(4) that by (auto simp: tr_end_def fits_usize_def intro!: usize_sat_add_exact)
  show ?case
  proof (cases "merged \<noteq> [] \<and> tr_start r \<le> tr_end (last merged)")
    case True
    then obtain ms l where m: "merged = ms @ [l]" by (metis append_butlast_last_id)
    let ?l = "l\<lparr> tr_len := max (tr_end l) (tr_end r) - tr_start l \<rparr>"
    have l: "tr_end l = tr_start l + tr_len l" "tr_end r = tr_start r + tr_len r" using fits by (auto simp: m)
    have lr: "tr_start l \<le> tr_start r" "tr_start r \<le> tr_end l" using 2(6) True by (auto simp: m)
    have cov: "covered [?l] = covered [l] \<union> covered [r]" using l lr by auto
    have fu: "fits_usize ((ms @ [?l]) @ ranges)"
      using 2(4) l lr by (auto simp: fits_usize_def m max_def)
    have sep: "separated (ms @ [?l])" using 2(5) by (simp add: separated_def m sorted_wrt_append)
    have "separated (merge_loop (ms @ [?l]) ranges) \<and> covered (merge_loop (ms @ [?l]) ranges) = covered (ms @ [?l]) \<union> covered ranges"
      using 2(1) [OF True] 2(3,6) fu sep by (auto simp: m)
    then show ?thesis using True cov by (auto simp: m)
  next
    case False
    have "separated (merged @ [r])"
    proof (cases merged rule: rev_cases)
      case (snoc ms l)
      then have "tr_start l + tr_len l < tr_start r" using False fits by auto
      then show ?thesis using 2(5) by (auto simp: snoc separated_def sorted_wrt_append)
    qed (simp add: separated_def)
    moreover have "\<forall>m\<in>set (merged @ [r]). \<forall>r\<in>set ranges. tr_start m \<le> tr_start r" using 2(3,6) by auto
    ultimately have "separated (merge_loop (merged @ [r]) ranges) \<and>
        covered (merge_loop (merged @ [r]) ranges) = covered (merged @ [r]) \<union> covered ranges"
      using 2(2) [OF False] 2(3,4) by simp
    then show ?thesis using False by auto
  qed
qed simp

lemma merge_ranges_ok:
  assumes "fits_usize ranges"
  shows "separated (merge_ranges ranges) \<and> covered (merge_ranges ranges) = covered ranges"
proof -
  let ?s = "sort_key tr_start [r \<leftarrow> ranges. tr_len r > 0]"
  have "separated (merge_loop [] ?s) \<and> covered (merge_loop [] ?s) = covered [] \<union> covered ?s"
    by (rule merge_loop_ok) (use assms in \<open>auto simp: fits_usize_def separated_def\<close>)
  moreover have "covered ?s = covered ranges" by (auto simp: covered_def)
  ultimately show ?thesis by (simp add: merge_ranges_def)
qed

lemma span_boundaries_ok:
  assumes "rs_query_start span + rs_matched_tokens span \<le> n" "n \<le> usize_max"
  shows "covered (span_boundaries n halo span) =
      {t. rs_query_start span \<le> t \<and> t < rs_query_start span + rs_matched_tokens span \<and>
          (t < rs_query_start span + halo \<or> rs_query_start span + rs_matched_tokens span \<le> t + halo)}"
    and "fits_usize (span_boundaries n halo span)"
proof -
  let ?a = "rs_query_start span" and ?m = "rs_matched_tokens span"
  have e: "min (usize_sat_add ?a ?m) n = ?a + ?m" using assms by (simp add: usize_sat_add_exact)
  have l: "min (min halo ?m) (n - ?a) = min halo ?m" "min (min halo ?m) (?a + ?m) = min halo ?m" using assms by auto
  have b: "span_boundaries n halo span =
     (if min halo ?m > 0 then [\<lparr> tr_start = ?a, tr_len = min halo ?m \<rparr>, \<lparr> tr_start = ?a + ?m - min halo ?m, tr_len = min halo ?m \<rparr>] else [])"
    by (simp add: span_boundaries_def Let_def e l)
  show "covered (span_boundaries n halo span) = {t. ?a \<le> t \<and> t < ?a + ?m \<and> (t < ?a + halo \<or> ?a + ?m \<le> t + halo)}"
    by (auto simp: b min_def)
  show "fits_usize (span_boundaries n halo span)" using assms by (auto simp: b fits_usize_def)
qed

text \<open>
  The ranges to recompute are separated from each other, in order, and cover exactly the tokens of
  the spans that lie within the boundary distance of the start or the end of their span.
\<close>
theorem recomputed_ranges_are_the_boundaries:
  assumes spans: "list_all (\<lambda>span. rs_query_start span + rs_matched_tokens span \<le> n) spans" and n: "n \<le> usize_max"
  shows "separated (boundary_ranges spans n halo) \<and>
    covered (boundary_ranges spans n halo) =
      {t. list_ex (\<lambda>span. rs_query_start span \<le> t \<and> t < rs_query_start span + rs_matched_tokens span \<and>
            (t < rs_query_start span + halo \<or> rs_query_start span + rs_matched_tokens span \<le> t + halo)) spans}"
proof -
  let ?rs = "concat (map (span_boundaries n halo) spans)"
  have "fits_usize ?rs" using span_boundaries_ok(2) [OF _ n] spans by (auto simp: fits_usize_def list_all_iff)
  note merge = merge_ranges_ok [OF this]
  have "covered ?rs = (\<Union>span\<in>set spans. covered (span_boundaries n halo span))" by (auto simp: covered_def)
  also have "\<dots> = {t. list_ex (\<lambda>span. rs_query_start span \<le> t \<and> t < rs_query_start span + rs_matched_tokens span \<and>
            (t < rs_query_start span + halo \<or> rs_query_start span + rs_matched_tokens span \<le> t + halo)) spans}"
    using spans by (auto simp: span_boundaries_ok(1) [OF _ n] list_all_iff list_ex_iff)
  finally show ?thesis
    using merge by (auto simp: boundary_ranges_def separated_def list_ex_iff)
qed

section \<open>A missing block leaves the runtime untouched\<close>

lemma load_spans_shape:
  "load_spans cfg spans acc eng = (Inr (Some loaded), eng') \<Longrightarrow>
   map fst loaded = map fst acc @ map rs_query_start spans \<and>
   map (\<lambda>l. length (snd l)) loaded = map (\<lambda>l. length (snd l)) acc @ map (\<lambda>span. length (rs_source_keys span)) spans"
  by (induction cfg spans acc eng rule: load_spans.induct)
    (auto simp: and_then_eq_Inr split: option.splits dest!: collect_blocks_length)

text \<open>
  Applying a plan loads every block of every span before the runtime is touched: when a block is
  missing, or the engine fails, or the plan is for another query, the runtime state is unchanged.
  Otherwise the runtime is given, span by span, one block per key at the position of the span.
\<close>
theorem quality_apply_loads_before_restoring:
  assumes "apply_quality_reuse cfg adapter q plan (a, eng) = (r, (a', eng'))"
  shows "(a' = a \<and> r \<noteq> Inr True) \<or>
    (r \<noteq> Inr False \<and> (\<exists>loaded w a1. load_spans cfg (qpl_spans plan) [] eng = (Inr (Some loaded), eng') \<and>
       map fst loaded = map rs_query_start (qpl_spans plan) \<and>
       map (\<lambda>l. length (snd l)) loaded = map (\<lambda>span. length (rs_source_keys span)) (qpl_spans plan) \<and>
       restore_loaded adapter loaded a = (w, a1) \<and> (isl w \<longrightarrow> a' = a1 \<and> isl r)))"
proof -
  obtain c eng1 where c: "load_spans cfg (qpl_spans plan) [] eng = (c, eng1)" by fastforce
  show ?thesis
  proof (cases "length q \<noteq> qpl_query_tokens plan \<or> qpl_spans plan = []")
    case True
    then show ?thesis using assms by (auto simp: apply_quality_reuse_def)
  next
    case plan: False
    consider e where "c = Inl e" | "c = Inr None" | loaded where "c = Inr (Some loaded)"
      by (cases c; cases "projr c") auto
    then show ?thesis
    proof cases
      case (3 loaded)
      obtain w a1 where w: "restore_loaded adapter loaded a = (w, a1)" by fastforce
      have "eng' = eng1 \<and> r \<noteq> Inr False \<and> (isl w \<longrightarrow> a' = a1 \<and> isl r)"
        using assms plan c 3 w by (cases w) (auto simp: apply_quality_reuse_def split: if_splits prod.splits sum.splits)
      with load_spans_shape [of cfg "qpl_spans plan" "[]"] c 3 w show ?thesis by auto
    qed (use assms plan c in \<open>auto simp: apply_quality_reuse_def\<close>)
  qed
qed

definition demo_quality_adapter :: "nat quality_adapter" where
  "demo_quality_adapter = \<lparr> ra_runtime_name = ''demo'', ra_capture = (\<lambda>req a. (Inr [], a)),
     ra_restore = (\<lambda>bs a. (Inr (), a + length bs)), ra_restore_relocated = (\<lambda>bs pos a. (Inr (), a + length bs)),
     ra_recompute_ranges = (\<lambda>q rs a. (Inr (), a)) \<rparr>"

definition demo_span :: reuse_span where
  "demo_span = \<lparr> rs_query_start = 1, rs_source_start = 2, rs_matched_tokens = 2, rs_source_keys = [demo_key] \<rparr>"

definition demo_plan :: quality_plan where
  "demo_plan = \<lparr> qpl_spans = [demo_span], qpl_recompute_ranges = [], qpl_query_tokens = 4, qpl_reused_tokens = 2,
     qpl_coverage_per_mille = 500 \<rparr>"

theorem quality_apply_loads_before_restoring_witness:
  "fst (snd (apply_quality_reuse demo_kv_config demo_quality_adapter [5, 9, 10, 5] demo_plan (3, demo_engine))) = 3"
proof -
  let ?r = "apply_quality_reuse demo_kv_config demo_quality_adapter [5, 9, 10, 5] demo_plan (3, demo_engine)"
  obtain r a' eng' where run: "?r = (r, (a', eng'))" by (metis prod.collapse)
  have "fst ?r = Inr False" by code_simp
  then have "r = Inr False" using run by simp
  with quality_apply_loads_before_restoring [OF run] have "a' = 3" by blast
  with run show ?thesis by simp
qed

theorem recomputed_ranges_are_the_boundaries_witness:
  "separated (boundary_ranges [demo_span] 4 1) \<and> covered (boundary_ranges [demo_span] 4 1) = {1, 2}"
proof -
  have "separated (boundary_ranges [demo_span] 4 1) \<and> covered (boundary_ranges [demo_span] 4 1) =
      {t. list_ex (\<lambda>span. rs_query_start span \<le> t \<and> t < rs_query_start span + rs_matched_tokens span \<and>
            (t < rs_query_start span + 1 \<or> rs_query_start span + rs_matched_tokens span \<le> t + 1)) [demo_span]}"
    by (rule recomputed_ranges_are_the_boundaries) (simp_all add: demo_span_def usize_max_def)
  moreover have "{t. list_ex (\<lambda>span. rs_query_start span \<le> t \<and> t < rs_query_start span + rs_matched_tokens span \<and>
            (t < rs_query_start span + 1 \<or> rs_query_start span + rs_matched_tokens span \<le> t + 1)) [demo_span]} = {1, 2}"
    by (auto simp: demo_span_def)
  ultimately show ?thesis by metis
qed

definition demo_policy :: quality_policy where
  "demo_policy = \<lparr> qp_min_match_tokens = 2, qp_boundary_recompute_tokens = 1, qp_max_segments = 4,
     qp_min_coverage_per_mille = 100 \<rparr>"

theorem quality_plan_is_sound_witness:
  "\<exists>plan. plan_quality_reuse [demo_segment] ''m'' [5, 9, 10, 5] demo_policy = Inr (Some plan) \<and>
     list_all (real_span [demo_segment] ''m'' [5, 9, 10, 5] 2) (qpl_spans plan) \<and> qpl_reused_tokens plan \<le> 4"
proof -
  have v: "quality_validate demo_policy = Inr demo_policy" by code_simp
  let ?span = "demo_span\<lparr> rs_source_keys := [sr_block_keys demo_segment ! 1] \<rparr>"
  have loop: "plan_loop ''m'' [5, 9, 10, 5] demo_policy [demo_segment] [(0, 4)] [] = Inr [?span]" by code_simp
  have len: "length [5, 9, 10, 5 :: u32] = 4" by simp
  have cov: "qp_min_coverage_per_mille demo_policy = 100" by (simp add: demo_policy_def)
  have "\<exists>plan. plan_quality_reuse [demo_segment] ''m'' [5, 9, 10, 5] demo_policy = Inr (Some plan)"
    unfolding plan_quality_reuse_def v result_bind_simps len loop cov
    by (simp add: usize_sat_mul_def usize_sat_add_def usize_max_def demo_span_def Let_def del: plan_loop.simps)
  then obtain plan where plan: "plan_quality_reuse [demo_segment] ''m'' [5, 9, 10, 5] demo_policy = Inr (Some plan)" ..
  have m: "qp_min_match_tokens demo_policy = 2" by (simp add: demo_policy_def)
  have "length [5, 9, 10, 5 :: u32] \<le> usize_max" by (simp add: usize_max_def)
  from quality_plan_is_sound [OF v this, of "[demo_segment]" "''m''"] plan m show ?thesis by auto
qed

end
