(* ===== verification/Quotas.thy ===== *)
theory Quotas
  imports Rivet_Prelude "HOL-Library.Multiset"
begin

text \<open>
  Tenant quotas of \<open>src/control.rs\<close>: the quota manager, request leases and storage
  reservations. The clients are a step relation over the table and the handles that are alive; the
  accounting invariant is proved by rule induction over the reachable states.
\<close>

section \<open>State\<close>

record tenant_quota =
  max_bytes :: u64
  max_entries :: u64
  max_inflight :: u64

record tenant_usage =
  used_bytes :: u64
  used_entries :: u64
  reserved_bytes :: u64
  reserved_entries :: u64
  inflight :: u64

definition usage_default :: tenant_usage where
  "usage_default = \<lparr> used_bytes = 0, used_entries = 0, reserved_bytes = 0, reserved_entries = 0, inflight = 0 \<rparr>"

record tenant_state =
  ts_quota :: tenant_quota
  ts_usage :: tenant_usage

record tenant_snapshot =
  snap_tenant :: string
  snap_quota :: tenant_quota
  snap_usage :: tenant_usage

type_synonym quota_table = "(string \<times> tenant_state) list"

record request_lease =
  rl_tenant :: string
  rl_released :: bool

datatype reservation_state = Pending | Committed | Released

record storage_reservation =
  sv_tenant :: string
  sv_bytes :: u64
  sv_entries :: u64
  sv_state :: reservation_state

definition quota_manager_new :: quota_table where
  "quota_manager_new = []"

section \<open>Operations\<close>

definition id_char :: "char \<Rightarrow> bool" where
  "id_char c = (ascii_alphanumeric c \<or> c \<in> set ''-_.:'')"

definition validate_id :: "string \<Rightarrow> string \<Rightarrow> string io_result" where
  "validate_id value1 field =
     (if value1 = [] \<or> length value1 > 128 \<or> \<not> list_all id_char value1
      then Inl (IoError InvalidInput (''invalid '' @ field @ '' id'')) else Inr value1)"

definition quota_validate :: "tenant_quota \<Rightarrow> tenant_quota io_result" where
  "quota_validate q =
     (if max_bytes q = 0 \<or> max_entries q = 0 \<or> max_inflight q = 0
      then Inl (IoError InvalidInput ''tenant quota limits must all be greater than zero'') else Inr q)"

definition set_quota :: "string \<Rightarrow> tenant_quota \<Rightarrow> quota_table \<Rightarrow> unit io_result \<times> quota_table" where
  "set_quota tenant0 quota0 tenants =
     check_then (validate_id tenant0 ''tenant'') tenants (\<lambda>tenant.
     check_then (quota_validate quota0) tenants (\<lambda>quota.
       case map_of tenants tenant of
         None \<Rightarrow> (Inr (), btree_insert tenant \<lparr> ts_quota = quota, ts_usage = usage_default \<rparr> tenants)
       | Some st \<Rightarrow>
           if sat_add (used_bytes (ts_usage st)) (reserved_bytes (ts_usage st)) > max_bytes quota \<or>
              sat_add (used_entries (ts_usage st)) (reserved_entries (ts_usage st)) > max_entries quota \<or>
              inflight (ts_usage st) > max_inflight quota
           then (Inl (IoError InvalidInput ''new quota is below current tenant usage''), tenants)
           else (Inr (), btree_insert tenant (st\<lparr> ts_quota := quota \<rparr>) tenants)))"

definition no_quota :: "string \<Rightarrow> io_error" where
  "no_quota tenant = IoError NotFound (''tenant '' @ tenant @ '' has no quota'')"

definition begin_request :: "string \<Rightarrow> quota_table \<Rightarrow> request_lease io_result \<times> quota_table" where
  "begin_request tenant tenants =
     (case map_of tenants tenant of
        None \<Rightarrow> (Inl (no_quota tenant), tenants)
      | Some st \<Rightarrow>
          if inflight (ts_usage st) \<ge> max_inflight (ts_quota st)
          then (Inl (IoError WouldBlock (''tenant '' @ tenant @ '' exceeded max_inflight'')), tenants)
          else (Inr \<lparr> rl_tenant = tenant, rl_released = False \<rparr>,
                btree_insert tenant (st\<lparr> ts_usage := (ts_usage st)\<lparr> inflight := inflight (ts_usage st) + 1 \<rparr> \<rparr>) tenants))"

definition release_lease :: "request_lease \<Rightarrow> quota_table \<Rightarrow> request_lease \<times> quota_table" where
  "release_lease lease tenants =
     (if rl_released lease then (lease, tenants)
      else
        (lease\<lparr> rl_released := True \<rparr>,
         case map_of tenants (rl_tenant lease) of
           None \<Rightarrow> tenants
         | Some st \<Rightarrow>
             btree_insert (rl_tenant lease)
               (st\<lparr> ts_usage := (ts_usage st)\<lparr> inflight := sat_sub (inflight (ts_usage st)) 1 \<rparr> \<rparr>) tenants))"

definition reserve_storage ::
  "string \<Rightarrow> u64 \<Rightarrow> u64 \<Rightarrow> quota_table \<Rightarrow> storage_reservation io_result \<times> quota_table" where
  "reserve_storage tenant bytes entries tenants =
     (if bytes = 0 \<or> entries = 0
      then (Inl (IoError InvalidInput ''storage reservations require non-zero bytes and entries''), tenants)
      else
        (case map_of tenants tenant of
           None \<Rightarrow> (Inl (no_quota tenant), tenants)
         | Some st \<Rightarrow>
             (let u = ts_usage st;
                  total_bytes = sat_add (sat_add (used_bytes u) (reserved_bytes u)) bytes;
                  total_entries = sat_add (sat_add (used_entries u) (reserved_entries u)) entries in
              if total_bytes > max_bytes (ts_quota st) \<or> total_entries > max_entries (ts_quota st)
              then (Inl (io_other (''tenant '' @ tenant @ '' exceeded storage quota'')), tenants)
              else (Inr \<lparr> sv_tenant = tenant, sv_bytes = bytes, sv_entries = entries, sv_state = Pending \<rparr>,
                    btree_insert tenant
                      (st\<lparr> ts_usage := u\<lparr> reserved_bytes := sat_add (reserved_bytes u) bytes,
                                        reserved_entries := sat_add (reserved_entries u) entries \<rparr> \<rparr>) tenants))))"

definition release_storage :: "string \<Rightarrow> u64 \<Rightarrow> u64 \<Rightarrow> quota_table \<Rightarrow> unit io_result \<times> quota_table" where
  "release_storage tenant bytes entries tenants =
     (case map_of tenants tenant of
        None \<Rightarrow> (Inl (no_quota tenant), tenants)
      | Some st \<Rightarrow>
          (Inr (), btree_insert tenant
             (st\<lparr> ts_usage := (ts_usage st)\<lparr> used_bytes := sat_sub (used_bytes (ts_usage st)) bytes,
                                           used_entries := sat_sub (used_entries (ts_usage st)) entries \<rparr> \<rparr>) tenants))"

definition quota_snapshots :: "quota_table \<Rightarrow> tenant_snapshot list" where
  "quota_snapshots tenants =
     map (\<lambda>(tenant, st). \<lparr> snap_tenant = tenant, snap_quota = ts_quota st, snap_usage = ts_usage st \<rparr>) tenants"

definition rollback_reservation :: "storage_reservation \<Rightarrow> quota_table \<Rightarrow> storage_reservation \<times> quota_table" where
  "rollback_reservation r tenants =
     (if sv_state r \<noteq> Pending then (r, tenants)
      else
        (r\<lparr> sv_state := Released \<rparr>,
         case map_of tenants (sv_tenant r) of
           None \<Rightarrow> tenants
         | Some st \<Rightarrow>
             btree_insert (sv_tenant r)
               (st\<lparr> ts_usage := (ts_usage st)\<lparr> reserved_bytes := sat_sub (reserved_bytes (ts_usage st)) (sv_bytes r),
                                             reserved_entries := sat_sub (reserved_entries (ts_usage st)) (sv_entries r) \<rparr> \<rparr>)
               tenants))"

text \<open>The handle is consumed: when the commit fails it is dropped, and the drop rolls back.\<close>

definition commit_reservation :: "storage_reservation \<Rightarrow> quota_table \<Rightarrow> unit io_result \<times> quota_table" where
  "commit_reservation r tenants =
     (case map_of tenants (sv_tenant r) of
        None \<Rightarrow> (Inl (IoError NotFound ''tenant disappeared during reservation''), snd (rollback_reservation r tenants))
      | Some st \<Rightarrow>
          (Inr (), btree_insert (sv_tenant r)
             (st\<lparr> ts_usage := (ts_usage st)\<lparr>
                    reserved_bytes := sat_sub (reserved_bytes (ts_usage st)) (sv_bytes r),
                    reserved_entries := sat_sub (reserved_entries (ts_usage st)) (sv_entries r),
                    used_bytes := sat_add (used_bytes (ts_usage st)) (sv_bytes r),
                    used_entries := sat_add (used_entries (ts_usage st)) (sv_entries r) \<rparr> \<rparr>) tenants))"

section \<open>Clients as steps\<close>

record quota_system =
  qs_tenants :: quota_table
  qs_leases :: "request_lease multiset"
  qs_reservations :: "storage_reservation multiset"

inductive quota_step :: "(tenant_quota \<Rightarrow> bool) \<Rightarrow> quota_system \<Rightarrow> quota_system \<Rightarrow> bool" for admissible where
  set_quota_step: "admissible q \<Longrightarrow> set_quota t q (qs_tenants s) = (r, tab) \<Longrightarrow> quota_step admissible s (s\<lparr> qs_tenants := tab \<rparr>)"
| begin_step: "begin_request t (qs_tenants s) = (Inr lease, tab) \<Longrightarrow>
     quota_step admissible s (s\<lparr> qs_tenants := tab, qs_leases := add_mset lease (qs_leases s) \<rparr>)"
| end_step: "qs_leases s = add_mset lease leases \<Longrightarrow> release_lease lease (qs_tenants s) = (lease', tab) \<Longrightarrow>
     quota_step admissible s (s\<lparr> qs_tenants := tab, qs_leases := leases \<rparr>)"
| reserve_step: "reserve_storage t b e (qs_tenants s) = (Inr rsv, tab) \<Longrightarrow>
     quota_step admissible s (s\<lparr> qs_tenants := tab, qs_reservations := add_mset rsv (qs_reservations s) \<rparr>)"
| commit_step: "qs_reservations s = add_mset rsv rest \<Longrightarrow> commit_reservation rsv (qs_tenants s) = (r, tab) \<Longrightarrow>
     quota_step admissible s (s\<lparr> qs_tenants := tab, qs_reservations := rest \<rparr>)"
| rollback_step: "qs_reservations s = add_mset rsv rest \<Longrightarrow> rollback_reservation rsv (qs_tenants s) = (rsv', tab) \<Longrightarrow>
     quota_step admissible s (s\<lparr> qs_tenants := tab, qs_reservations := rest \<rparr>)"
| release_step: "release_storage t b e (qs_tenants s) = (r, tab) \<Longrightarrow> quota_step admissible s (s\<lparr> qs_tenants := tab \<rparr>)"

inductive quota_reachable :: "(tenant_quota \<Rightarrow> bool) \<Rightarrow> quota_system \<Rightarrow> bool" for admissible where
  initial: "quota_reachable admissible \<lparr> qs_tenants = quota_manager_new, qs_leases = {#}, qs_reservations = {#} \<rparr>"
| step: "quota_reachable admissible s \<Longrightarrow> quota_step admissible s s' \<Longrightarrow> quota_reachable admissible s'"

definition below_max :: "tenant_quota \<Rightarrow> bool" where
  "below_max q \<longleftrightarrow> max_bytes q < - 1 \<and> max_entries q < - 1"

section \<open>The accounting invariant\<close>

definition pending_bytes :: "string \<Rightarrow> storage_reservation multiset \<Rightarrow> nat" where
  "pending_bytes t M = (\<Sum>r\<in>#{#r \<in># M. sv_tenant r = t#}. unat (sv_bytes r))"

definition pending_entries :: "string \<Rightarrow> storage_reservation multiset \<Rightarrow> nat" where
  "pending_entries t M = (\<Sum>r\<in>#{#r \<in># M. sv_tenant r = t#}. unat (sv_entries r))"

definition live_leases :: "string \<Rightarrow> request_lease multiset \<Rightarrow> nat" where
  "live_leases t M = size {#l \<in># M. rl_tenant l = t#}"

definition tenant_inv :: "tenant_state \<Rightarrow> nat \<Rightarrow> nat \<Rightarrow> nat \<Rightarrow> bool" where
  "tenant_inv st pb pe n \<longleftrightarrow>
     below_max (ts_quota st) \<and>
     unat (reserved_bytes (ts_usage st)) = pb \<and> unat (reserved_entries (ts_usage st)) = pe \<and>
     unat (used_bytes (ts_usage st)) + pb \<le> unat (max_bytes (ts_quota st)) \<and>
     unat (used_entries (ts_usage st)) + pe \<le> unat (max_entries (ts_quota st)) \<and>
     unat (inflight (ts_usage st)) = n \<and> n \<le> unat (max_inflight (ts_quota st))"

definition quota_inv :: "quota_system \<Rightarrow> bool" where
  "quota_inv s \<longleftrightarrow>
     (\<forall>t. map_of (qs_tenants s) t = None \<longrightarrow>
        pending_bytes t (qs_reservations s) = 0 \<and> pending_entries t (qs_reservations s) = 0 \<and>
        live_leases t (qs_leases s) = 0) \<and>
     (\<forall>t st. map_of (qs_tenants s) t = Some st \<longrightarrow>
        tenant_inv st (pending_bytes t (qs_reservations s)) (pending_entries t (qs_reservations s))
          (live_leases t (qs_leases s))) \<and>
     (\<forall>r\<in>#qs_reservations s. sv_state r = Pending) \<and> (\<forall>l\<in>#qs_leases s. \<not> rl_released l)"

lemma pending_simps [simp]:
  "pending_bytes t (add_mset r M) = (if sv_tenant r = t then unat (sv_bytes r) else 0) + pending_bytes t M"
  "pending_entries t (add_mset r M) = (if sv_tenant r = t then unat (sv_entries r) else 0) + pending_entries t M"
  "live_leases t (add_mset l L) = (if rl_tenant l = t then 1 else 0) + live_leases t L"
  "pending_bytes t {#} = 0" "pending_entries t {#} = 0" "live_leases t {#} = 0"
  by (auto simp: pending_bytes_def pending_entries_def live_leases_def)

lemma below_max_unat: "below_max q \<longleftrightarrow> unat (max_bytes q) < 2 ^ 64 - 1 \<and> unat (max_entries q) < 2 ^ 64 - 1"
  by (simp add: below_max_def word_less_nat_alt unsigned_minus_1_eq_mask mask_eq_exp_minus_1)

lemma unat_sat_add64: "unat a + unat b < 2 ^ 64 \<Longrightarrow> unat (sat_add a (b :: u64)) = unat a + unat b"
  by (simp add: unat_sat_add)

lemma unat_inc64: "unat (a :: u64) < unat (b :: u64) \<Longrightarrow> unat (a + 1) = unat a + 1"
  using unat64_bound [of b] by (simp add: unat_word_ariths)

lemma tenant_of: "quota_inv s \<Longrightarrow> map_of (qs_tenants s) t = Some st \<Longrightarrow>
  tenant_inv st (pending_bytes t (qs_reservations s)) (pending_entries t (qs_reservations s)) (live_leases t (qs_leases s))"
  by (simp add: quota_inv_def)

text \<open>An operation that replaces one tenant's state keeps the invariant when it keeps that tenant's.\<close>

lemma quota_inv_update:
  assumes "quota_inv s" "qs_tenants s' = btree_insert t st (qs_tenants s)"
    and "tenant_inv st (pending_bytes t (qs_reservations s')) (pending_entries t (qs_reservations s')) (live_leases t (qs_leases s'))"
    and "\<And>t'. t' \<noteq> t \<Longrightarrow> pending_bytes t' (qs_reservations s') = pending_bytes t' (qs_reservations s) \<and>
      pending_entries t' (qs_reservations s') = pending_entries t' (qs_reservations s) \<and>
      live_leases t' (qs_leases s') = live_leases t' (qs_leases s)"
    and "\<forall>r\<in>#qs_reservations s'. sv_state r = Pending" "\<forall>l\<in>#qs_leases s'. \<not> rl_released l"
  shows "quota_inv s'"
  using assms by (auto simp: quota_inv_def)

lemma quota_inv_same:
  assumes "quota_inv s" "qs_tenants s' = qs_tenants s"
    and "\<And>t. map_of (qs_tenants s) t \<noteq> None \<Longrightarrow> pending_bytes t (qs_reservations s') = pending_bytes t (qs_reservations s) \<and>
      pending_entries t (qs_reservations s') = pending_entries t (qs_reservations s) \<and>
      live_leases t (qs_leases s') = live_leases t (qs_leases s)"
    and "\<And>t. pending_bytes t (qs_reservations s') \<le> pending_bytes t (qs_reservations s) \<and>
      pending_entries t (qs_reservations s') \<le> pending_entries t (qs_reservations s) \<and>
      live_leases t (qs_leases s') \<le> live_leases t (qs_leases s)"
    and "\<forall>r\<in>#qs_reservations s'. sv_state r = Pending" "\<forall>l\<in>#qs_leases s'. \<not> rl_released l"
  shows "quota_inv s'"
  using assms by (auto simp: quota_inv_def) (metis le_zero_eq)+

lemma handles_of:
  "quota_inv s \<Longrightarrow> (\<forall>r\<in>#qs_reservations s. sv_state r = Pending) \<and> (\<forall>l\<in>#qs_leases s. \<not> rl_released l)"
  by (simp add: quota_inv_def)

lemma set_quota_keeps:
  assumes "quota_inv s" "below_max q" "set_quota t q (qs_tenants s) = (r, tab)"
  shows "quota_inv (s\<lparr> qs_tenants := tab \<rparr>)"
proof (cases "tab = qs_tenants s")
  case False
  have ok: "\<forall>r\<in>#qs_reservations s. sv_state r = Pending" "\<forall>l\<in>#qs_leases s. \<not> rl_released l"
    using assms(1) by (auto simp: quota_inv_def)
  have valid: "validate_id t ''tenant'' = Inr t" "quota_validate q = Inr q"
    using assms(3) False by (auto simp: set_quota_def check_then_def validate_id_def quota_validate_def split: if_splits)
  obtain st where st: "tab = btree_insert t st (qs_tenants s)"
    "tenant_inv st (pending_bytes t (qs_reservations s)) (pending_entries t (qs_reservations s)) (live_leases t (qs_leases s))"
  proof (cases "map_of (qs_tenants s) t")
    case None
    with assms(3) valid have "tab = btree_insert t \<lparr> ts_quota = q, ts_usage = usage_default \<rparr> (qs_tenants s)"
      by (simp add: set_quota_def)
    moreover from assms(1) None
    have "pending_bytes t (qs_reservations s) = 0 \<and> pending_entries t (qs_reservations s) = 0 \<and> live_leases t (qs_leases s) = 0"
      by (simp add: quota_inv_def)
    ultimately show ?thesis using assms(2) by (intro that) (auto simp: tenant_inv_def usage_default_def)
  next
    case (Some st)
    note inv = tenant_of [OF assms(1) Some]
    have tab: "tab = btree_insert t (st\<lparr> ts_quota := q \<rparr>) (qs_tenants s)"
      and le: "sat_add (used_bytes (ts_usage st)) (reserved_bytes (ts_usage st)) \<le> max_bytes q"
        "sat_add (used_entries (ts_usage st)) (reserved_entries (ts_usage st)) \<le> max_entries q"
        "inflight (ts_usage st) \<le> max_inflight q"
      using assms(3) valid Some False by (auto simp: set_quota_def not_less split: if_splits)
    have "unat (used_bytes (ts_usage st)) + unat (reserved_bytes (ts_usage st)) \<le> unat (max_bytes q)"
      "unat (used_entries (ts_usage st)) + unat (reserved_entries (ts_usage st)) \<le> unat (max_entries q)"
      using le(1,2) inv by (simp_all add: word_le_nat_alt tenant_inv_def below_max_unat unat_sat_add64)
    then show ?thesis using tab inv le(3) assms(2)
      by (intro that [OF tab]) (auto simp: tenant_inv_def word_le_nat_alt)
  qed
  show ?thesis
    by (rule quota_inv_update [OF assms(1), where t = t and st = st]) (use st ok in simp_all)
qed (use assms(1) in simp)

text \<open>Every other operation touches one tenant: its new state is checked and \<open>quota_inv_update\<close> applied.\<close>

lemma begin_keeps:
  assumes "quota_inv s" "begin_request t (qs_tenants s) = (Inr lease, tab)"
  shows "quota_inv (s\<lparr> qs_tenants := tab, qs_leases := add_mset lease (qs_leases s) \<rparr>)"
proof -
  obtain st where st: "map_of (qs_tenants s) t = Some st" and lt: "inflight (ts_usage st) < max_inflight (ts_quota st)"
    and l: "lease = \<lparr> rl_tenant = t, rl_released = False \<rparr>"
    and tab: "tab = btree_insert t (st\<lparr> ts_usage := (ts_usage st)\<lparr> inflight := inflight (ts_usage st) + 1 \<rparr> \<rparr>) (qs_tenants s)"
    using assms(2) by (auto simp: begin_request_def not_le split: option.splits if_splits)
  have "unat (inflight (ts_usage st) + 1) = unat (inflight (ts_usage st)) + 1"
    using lt by (intro unat_inc64) (simp add: word_less_nat_alt)
  then show ?thesis
    using tenant_of [OF assms(1) st] handles_of [OF assms(1)] lt
    by (intro quota_inv_update [OF assms(1), where t = t]) (auto simp: tab l tenant_inv_def word_less_nat_alt)
qed

lemma end_keeps:
  assumes "quota_inv s" "qs_leases s = add_mset lease leases" "release_lease lease (qs_tenants s) = (lease', tab)"
  shows "quota_inv (s\<lparr> qs_tenants := tab, qs_leases := leases \<rparr>)"
proof (cases "map_of (qs_tenants s) (rl_tenant lease)")
  case None
  then have "tab = qs_tenants s" using assms(3) by (auto simp: release_lease_def split: if_splits)
  then show ?thesis
    using None handles_of [OF assms(1)] assms(2) by (intro quota_inv_same [OF assms(1)]) auto
next
  case (Some st)
  have "tab = btree_insert (rl_tenant lease)
      (st\<lparr> ts_usage := (ts_usage st)\<lparr> inflight := sat_sub (inflight (ts_usage st)) 1 \<rparr> \<rparr>) (qs_tenants s)"
    using assms Some by (auto simp: release_lease_def quota_inv_def)
  then show ?thesis
    using tenant_of [OF assms(1) Some] handles_of [OF assms(1)] assms(2)
    by (intro quota_inv_update [OF assms(1), where t = "rl_tenant lease"]) (auto simp: tenant_inv_def unat_sat_sub)
qed

lemma reserve_keeps:
  assumes "quota_inv s" "reserve_storage t b e (qs_tenants s) = (Inr rsv, tab)"
  shows "quota_inv (s\<lparr> qs_tenants := tab, qs_reservations := add_mset rsv (qs_reservations s) \<rparr>)"
proof -
  obtain st where st: "map_of (qs_tenants s) t = Some st"
    and le: "sat_add (sat_add (used_bytes (ts_usage st)) (reserved_bytes (ts_usage st))) b \<le> max_bytes (ts_quota st)"
      "sat_add (sat_add (used_entries (ts_usage st)) (reserved_entries (ts_usage st))) e \<le> max_entries (ts_quota st)"
    and r: "rsv = \<lparr> sv_tenant = t, sv_bytes = b, sv_entries = e, sv_state = Pending \<rparr>"
    and tab: "tab = btree_insert t (st\<lparr> ts_usage := (ts_usage st)\<lparr> reserved_bytes := sat_add (reserved_bytes (ts_usage st)) b,
        reserved_entries := sat_add (reserved_entries (ts_usage st)) e \<rparr> \<rparr>) (qs_tenants s)"
    using assms(2) by (auto simp: reserve_storage_def Let_def not_less split: option.splits if_splits)
  note inv = tenant_of [OF assms(1) st]
  have "unat (used_bytes (ts_usage st)) + unat (reserved_bytes (ts_usage st)) + unat b \<le> unat (max_bytes (ts_quota st))"
    "unat (used_entries (ts_usage st)) + unat (reserved_entries (ts_usage st)) + unat e \<le> unat (max_entries (ts_quota st))"
    using le inv by (auto simp: word_le_nat_alt unat_sat_add tenant_inv_def below_max_unat min_def split: if_splits)
  note sums = this
  have "unat (reserved_bytes (ts_usage st)) + unat b < 2 ^ 64" "unat (reserved_entries (ts_usage st)) + unat e < 2 ^ 64"
    using sums inv by (auto simp: tenant_inv_def below_max_unat)
  then have "unat (sat_add (reserved_bytes (ts_usage st)) b) = unat (reserved_bytes (ts_usage st)) + unat b"
    "unat (sat_add (reserved_entries (ts_usage st)) e) = unat (reserved_entries (ts_usage st)) + unat e"
    by (simp_all only: unat_sat_add64)
  with sums show ?thesis
    using inv handles_of [OF assms(1)]
    by (intro quota_inv_update [OF assms(1), where t = t]) (auto simp: tab r tenant_inv_def)
qed

lemma rollback_keeps:
  assumes "quota_inv s" "qs_reservations s = add_mset rsv rest" "rollback_reservation rsv (qs_tenants s) = (rsv', tab)"
  shows "quota_inv (s\<lparr> qs_tenants := tab, qs_reservations := rest \<rparr>)"
proof (cases "map_of (qs_tenants s) (sv_tenant rsv)")
  case None
  then have "tab = qs_tenants s" using assms(3) by (auto simp: rollback_reservation_def split: if_splits)
  then show ?thesis
    using None handles_of [OF assms(1)] assms(2) by (intro quota_inv_same [OF assms(1)]) auto
next
  case (Some st)
  have "tab = btree_insert (sv_tenant rsv) (st\<lparr> ts_usage := (ts_usage st)\<lparr>
      reserved_bytes := sat_sub (reserved_bytes (ts_usage st)) (sv_bytes rsv),
      reserved_entries := sat_sub (reserved_entries (ts_usage st)) (sv_entries rsv) \<rparr> \<rparr>) (qs_tenants s)"
    using assms Some by (auto simp: rollback_reservation_def quota_inv_def)
  then show ?thesis
    using tenant_of [OF assms(1) Some] handles_of [OF assms(1)] assms(2)
    by (intro quota_inv_update [OF assms(1), where t = "sv_tenant rsv"]) (auto simp: tenant_inv_def unat_sat_sub)
qed

lemma commit_keeps:
  assumes "quota_inv s" "qs_reservations s = add_mset rsv rest" "commit_reservation rsv (qs_tenants s) = (r, tab)"
  shows "quota_inv (s\<lparr> qs_tenants := tab, qs_reservations := rest \<rparr>)"
proof (cases "map_of (qs_tenants s) (sv_tenant rsv)")
  case None
  then obtain rsv' where "rollback_reservation rsv (qs_tenants s) = (rsv', tab)"
    using assms(3) by (cases "rollback_reservation rsv (qs_tenants s)") (auto simp: commit_reservation_def)
  then show ?thesis by (rule rollback_keeps [OF assms(1,2)])
next
  case (Some st)
  note inv = tenant_of [OF assms(1) Some]
  have tab: "tab = btree_insert (sv_tenant rsv) (st\<lparr> ts_usage := (ts_usage st)\<lparr>
      reserved_bytes := sat_sub (reserved_bytes (ts_usage st)) (sv_bytes rsv),
      reserved_entries := sat_sub (reserved_entries (ts_usage st)) (sv_entries rsv),
      used_bytes := sat_add (used_bytes (ts_usage st)) (sv_bytes rsv),
      used_entries := sat_add (used_entries (ts_usage st)) (sv_entries rsv) \<rparr> \<rparr>) (qs_tenants s)"
    using assms Some by (auto simp: commit_reservation_def)
  have "unat (sat_add (used_bytes (ts_usage st)) (sv_bytes rsv)) = unat (used_bytes (ts_usage st)) + unat (sv_bytes rsv)"
    "unat (sat_add (used_entries (ts_usage st)) (sv_entries rsv)) = unat (used_entries (ts_usage st)) + unat (sv_entries rsv)"
    using inv assms(2) by (auto simp: tenant_inv_def below_max_unat intro!: unat_sat_add64)
  then show ?thesis
    using inv handles_of [OF assms(1)] assms(2)
    by (intro quota_inv_update [OF assms(1), where t = "sv_tenant rsv"]) (auto simp: tab tenant_inv_def unat_sat_sub)
qed

lemma release_keeps:
  assumes "quota_inv s" "release_storage t b e (qs_tenants s) = (r, tab)"
  shows "quota_inv (s\<lparr> qs_tenants := tab \<rparr>)"
proof (cases "map_of (qs_tenants s) t")
  case None
  then have "tab = qs_tenants s" using assms(2) by (simp add: release_storage_def)
  then show ?thesis using assms(1) by simp
next
  case (Some st)
  have "qs_tenants (s\<lparr> qs_tenants := tab \<rparr>) = btree_insert t (st\<lparr> ts_usage := (ts_usage st)\<lparr> used_bytes := sat_sub (used_bytes (ts_usage st)) b,
      used_entries := sat_sub (used_entries (ts_usage st)) e \<rparr> \<rparr>) (qs_tenants s)"
    using assms Some by (auto simp: release_storage_def)
  then show ?thesis
    by (rule quota_inv_update [OF assms(1)])
      (use tenant_of [OF assms(1) Some] handles_of [OF assms(1)] in \<open>auto simp: tenant_inv_def unat_sat_sub\<close>)
qed

lemma quota_step_keeps: "quota_step below_max s s' \<Longrightarrow> quota_inv s \<Longrightarrow> quota_inv s'"
  by (induction rule: quota_step.induct)
    (fact set_quota_keeps begin_keeps end_keeps reserve_keeps commit_keeps rollback_keeps release_keeps | blast intro: set_quota_keeps begin_keeps end_keeps reserve_keeps commit_keeps rollback_keeps release_keeps)+

lemma quota_reachable_inv: "quota_reachable below_max s \<Longrightarrow> quota_inv s"
  by (induction rule: quota_reachable.induct)
    (auto simp: quota_inv_def quota_manager_new_def dest: quota_step_keeps)

section \<open>Properties\<close>


definition demo_quota :: tenant_quota where
  "demo_quota = \<lparr> max_bytes = 100, max_entries = 10, max_inflight = 2 \<rparr>"

definition demo_table :: quota_table where
  "demo_table = snd (set_quota ''a'' demo_quota quota_manager_new)"

definition demo_reservation :: storage_reservation where
  "demo_reservation = \<lparr> sv_tenant = ''a'', sv_bytes = 60, sv_entries = 1, sv_state = Pending \<rparr>"

lemma demo_reserved:
  "reserve_storage ''a'' 60 1 demo_table = (Inr demo_reservation, snd (reserve_storage ''a'' 60 1 demo_table))"
proof -
  have "fst (reserve_storage ''a'' 60 1 demo_table) = Inr demo_reservation" by code_simp
  then show ?thesis by (metis prod.collapse)
qed


text \<open>
  A quota of \<open>u64::MAX\<close> bytes disables the accounting: two reservations of the whole range are
  both granted, and after one is rolled back and the quota lowered, committing the other leaves
  the tenant above its quota.
\<close>
theorem unlimited_quota_breaks_accounting:
  "let (r1, t1) = set_quota ''a'' (demo_quota\<lparr> max_bytes := - 1 \<rparr>) quota_manager_new;
       (v1, t2) = reserve_storage ''a'' (- 1) 1 t1;
       (v2, t3) = reserve_storage ''a'' (- 1) 1 t2;
       t4 = snd (rollback_reservation (projr v1) t3);
       (r2, t5) = set_quota ''a'' demo_quota t4;
       (r3, t6) = commit_reservation (projr v2) t5
   in r1 = Inr () \<and> \<not> isl v1 \<and> \<not> isl v2 \<and> r2 = Inr () \<and> r3 = Inr () \<and>
      map_option (\<lambda>st. (used_bytes (ts_usage st), max_bytes (ts_quota st))) (map_of t6 ''a'') = Some (- 1, 100)"
  by code_simp

end
