(* ===== verification/Observability.thy ===== *)
theory Observability
  imports KvCoherence "HOL-Library.Product_Lexorder"
begin

text \<open>
  The metrics registry, its text rendering and the instrumented tier of
  \<open>src/observability.rs\<close>. Histograms are shown to stay cumulative, label values to
  survive the rendering unchanged, and the instrumented tier to be transparent to its callers.
\<close>

section \<open>Metrics\<close>

datatype metric_kind = CounterKind | GaugeKind | HistogramKind

text \<open>Name and labels, in the order of the derived comparison.\<close>

type_synonym metric_key = "string \<times> (string \<times> string) list"

record histogram =
  hg_buckets :: "u64 list"
  hg_count :: u64
  hg_sum_micros :: u64

definition histogram_default :: histogram where
  "histogram_default = \<lparr> hg_buckets = replicate 8 0, hg_count = 0, hg_sum_micros = 0 \<rparr>"

text \<open>A gauge is a signed 64-bit integer; the word is read with \<open>sint\<close>.\<close>

datatype metric_state = CounterState u64 | GaugeState "64 word" | HistogramState histogram

type_synonym metrics = "(metric_key \<times> metric_kind \<times> metric_state) list"

definition validate_metric_name :: "string \<Rightarrow> unit io_result" where
  "validate_metric_name name =
     (if name = [] \<or> \<not> list_all (\<lambda>c. ascii_alphanumeric c \<or> c \<in> set ''_:'') name
      then Inl (IoError InvalidInput ''invalid Prometheus metric name'') else Inr ())"

definition validate_label_name :: "string \<Rightarrow> unit io_result" where
  "validate_label_name name =
     (if name = [] \<or> \<not> list_all (\<lambda>c. ascii_alphanumeric c \<or> c = CHR ''_'') name
      then Inl (IoError InvalidInput ''invalid Prometheus label name'') else Inr ())"

fun validate_labels :: "(string \<times> string) list \<Rightarrow> unit io_result" where
  "validate_labels [] = Inr ()"
| "validate_labels ((k, _) # labels) = result_bind (validate_label_name k) (\<lambda>_. validate_labels labels)"

fun dedup_labels :: "(string \<times> string) list \<Rightarrow> (string \<times> string) list" where
  "dedup_labels (x # y # labels) =
     (if fst y = fst x then dedup_labels (x # labels) else x # dedup_labels (y # labels))"
| "dedup_labels labels = labels"

definition metric_key_of :: "string \<Rightarrow> (string \<times> string) list \<Rightarrow> metric_key io_result" where
  "metric_key_of name labels =
     result_bind (validate_metric_name name) (\<lambda>_.
     result_bind (validate_labels labels) (\<lambda>_. Inr (name, dedup_labels (sort labels))))"

definition metric_entry :: "metric_key \<Rightarrow> metric_kind \<times> metric_state \<Rightarrow> metrics \<Rightarrow> metric_kind \<times> metric_state" where
  "metric_entry key initial reg = (case map_of reg key of None \<Rightarrow> initial | Some e \<Rightarrow> e)"

definition wrong_type :: io_error where
  "wrong_type = IoError InvalidInput ''metric already exists with a different type''"

definition inc_counter :: "string \<Rightarrow> (string \<times> string) list \<Rightarrow> u64 \<Rightarrow> metrics \<Rightarrow> unit io_result \<times> metrics" where
  "inc_counter name labels delta reg =
     check_then (metric_key_of name labels) reg (\<lambda>key.
       case metric_entry key (CounterKind, CounterState 0) reg of
         (kind, CounterState v) \<Rightarrow> (Inr (), btree_insert key (kind, CounterState (sat_add v delta)) reg)
       | _ \<Rightarrow> (Inl wrong_type, reg))"

definition set_gauge :: "string \<Rightarrow> (string \<times> string) list \<Rightarrow> 64 word \<Rightarrow> metrics \<Rightarrow> unit io_result \<times> metrics" where
  "set_gauge name labels v reg =
     check_then (metric_key_of name labels) reg (\<lambda>key.
       case metric_entry key (GaugeKind, GaugeState v) reg of
         (kind, GaugeState _) \<Rightarrow> (Inr (), btree_insert key (kind, GaugeState v) reg)
       | _ \<Rightarrow> (Inl wrong_type, reg))"

definition bucket_limits :: "u64 list" where
  "bucket_limits = [10, 100, 1000, 10000, 100000, 1000000, 10000000]"

fun bucket_loop :: "u64 \<Rightarrow> (nat \<times> u64) list \<Rightarrow> u64 list \<Rightarrow> u64 list" where
  "bucket_loop micros [] buckets = buckets"
| "bucket_loop micros ((index, limit) # limits) buckets =
     bucket_loop micros limits
       (if micros \<le> limit then buckets[index := sat_add (buckets ! index) 1] else buckets)"

definition histogram_observe :: "u64 \<Rightarrow> histogram \<Rightarrow> histogram" where
  "histogram_observe micros h =
     (let buckets = bucket_loop micros (enumerate 0 bucket_limits) (hg_buckets h) in
      \<lparr> hg_buckets = buckets[7 := sat_add (buckets ! 7) 1], hg_count = sat_add (hg_count h) 1,
        hg_sum_micros = sat_add (hg_sum_micros h) micros \<rparr>)"

definition observe_micros :: "string \<Rightarrow> (string \<times> string) list \<Rightarrow> u64 \<Rightarrow> metrics \<Rightarrow> unit io_result \<times> metrics" where
  "observe_micros name labels micros reg =
     check_then (metric_key_of name labels) reg (\<lambda>key.
       case metric_entry key (HistogramKind, HistogramState histogram_default) reg of
         (kind, HistogramState h) \<Rightarrow> (Inr (), btree_insert key (kind, HistogramState (histogram_observe micros h)) reg)
       | _ \<Rightarrow> (Inl wrong_type, reg))"

section \<open>Rendering\<close>

definition newline :: char where
  "newline = CHR 0x0A"

definition replace_char :: "char \<Rightarrow> string \<Rightarrow> string \<Rightarrow> string" where
  "replace_char c r s = concat (map (\<lambda>x. if x = c then r else [x]) s)"

definition escape_label :: "string \<Rightarrow> string" where
  "escape_label v =
     replace_char (CHR 0x22) [CHR 0x5C, CHR 0x22]
       (replace_char newline [CHR 0x5C, CHR ''n''] (replace_char (CHR 0x5C) [CHR 0x5C, CHR 0x5C] v))"

definition decimal_int :: "int \<Rightarrow> string" where
  "decimal_int i = (if i < 0 then CHR ''-'' # show_nat (nat (- i)) else show_nat (nat i))"

definition label_text :: "string \<Rightarrow> string \<Rightarrow> string" where
  "label_text k v = k @ [CHR ''='', CHR 0x22] @ escape_label v @ [CHR 0x22]"

definition comma_join :: "string list \<Rightarrow> string" where
  "comma_join xs = (case xs of [] \<Rightarrow> [] | x # rest \<Rightarrow> x @ concat (map (\<lambda>y. CHR '','' # y) rest))"

definition metric_line :: "string \<Rightarrow> (string \<times> string) list \<Rightarrow> (string \<times> string) option \<Rightarrow> int \<Rightarrow> string" where
  "metric_line name labels extra v =
     name @
     (if labels \<noteq> [] \<or> extra \<noteq> None
      then ''{'' @ comma_join (map (\<lambda>(k, x). label_text k x) (labels @ (case extra of None \<Rightarrow> [] | Some e \<Rightarrow> [e]))) @ ''}''
      else []) @
     '' '' @ decimal_int v @ [newline]"

definition limit_names :: "string list" where
  "limit_names = [''10'', ''100'', ''1000'', ''10000'', ''100000'', ''1000000'', ''10000000'']"

definition kind_name :: "metric_kind \<Rightarrow> string" where
  "kind_name k = (case k of CounterKind \<Rightarrow> ''counter'' | GaugeKind \<Rightarrow> ''gauge'' | HistogramKind \<Rightarrow> ''histogram'')"

definition metric_lines :: "metric_key \<Rightarrow> metric_state \<Rightarrow> string" where
  "metric_lines key st =
     (case st of
        CounterState v \<Rightarrow> metric_line (fst key) (snd key) None (uint v)
      | GaugeState v \<Rightarrow> metric_line (fst key) (snd key) None (sint v)
      | HistogramState h \<Rightarrow>
          concat (map (\<lambda>(index, count1).
              metric_line (fst key @ ''_bucket'') (snd key)
                (Some (''le'', if index < length limit_names then limit_names ! index else ''+Inf'')) (uint count1))
            (enumerate 0 (hg_buckets h))) @
          metric_line (fst key @ ''_count'') (snd key) None (uint (hg_count h)) @
          metric_line (fst key @ ''_sum'') (snd key) None (uint (hg_sum_micros h)))"

fun render_loop :: "metrics \<Rightarrow> string list \<Rightarrow> string \<Rightarrow> string" where
  "render_loop [] emitted output = output"
| "render_loop ((key, kind, st) # reg) emitted output =
     render_loop reg (if fst key \<in> set emitted then emitted else fst key # emitted)
       (output @
        (if fst key \<in> set emitted then [] else ''# TYPE '' @ fst key @ '' '' @ kind_name kind @ [newline]) @
        metric_lines key st)"

definition metrics_render :: "metrics \<Rightarrow> string" where
  "metrics_render reg = render_loop reg [] []"

section \<open>The instrumented tier\<close>

text \<open>
  The tier below, the registry and the number of operations timed so far; \<open>it_elapsed n\<close> is the
  duration of the \<open>n\<close>-th operation in microseconds, already clamped to 64 bits.
\<close>

record instrumented_config =
  it_name :: string
  it_elapsed :: "nat \<Rightarrow> u64"

record 's instrumented =
  im_base :: 's
  im_metrics :: metrics
  im_timed :: nat

definition instrumented_new :: "string \<Rightarrow> (nat \<Rightarrow> u64) \<Rightarrow> instrumented_config io_result" where
  "instrumented_new name elapsed =
     (if blank name then Inl (IoError InvalidInput ''tier name must not be empty'')
      else Inr \<lparr> it_name = name, it_elapsed = elapsed \<rparr>)"

definition it_finish :: "instrumented_config \<Rightarrow> string \<Rightarrow> bool \<Rightarrow> 's instrumented \<Rightarrow> 's instrumented" where
  "it_finish ic operation ok im =
     (let reg1 = snd (inc_counter ''rivet_kv_tier_requests_total''
                        [(''tier'', it_name ic), (''operation'', operation), (''status'', if ok then ''ok'' else ''error'')]
                        1 (im_metrics im));
          reg2 = snd (observe_micros ''rivet_kv_tier_operation_micros''
                        [(''tier'', it_name ic), (''operation'', operation)] (it_elapsed ic (im_timed im)) reg1) in
      im\<lparr> im_metrics := reg2, im_timed := im_timed im + 1 \<rparr>)"

definition it_bytes :: "instrumented_config \<Rightarrow> string \<Rightarrow> u8 list \<Rightarrow> 's instrumented \<Rightarrow> 's instrumented" where
  "it_bytes ic direction bytes im =
     im\<lparr> im_metrics := snd (inc_counter ''rivet_kv_tier_bytes_total''
           [(''tier'', it_name ic), (''direction'', direction)] (len64 bytes) (im_metrics im)) \<rparr>"

definition it_get ::
  "instrumented_config \<Rightarrow> 's kv_tier \<Rightarrow> kv_block_key \<Rightarrow> 's instrumented \<Rightarrow> kv_tier_entry option io_result \<times> 's instrumented" where
  "it_get ic base k im =
     (let (r, b) = kt_get base k (im_base im);
          im1 = im\<lparr> im_base := b \<rparr>;
          im2 = (case r of Inr (Some entry) \<Rightarrow> it_bytes ic ''read'' (te_bytes entry) im1 | _ \<Rightarrow> im1) in
      (r, it_finish ic ''get'' (\<not> isl r) im2))"

definition it_put ::
  "instrumented_config \<Rightarrow> 's kv_tier \<Rightarrow> kv_tier_entry \<Rightarrow> 's instrumented \<Rightarrow> unit io_result \<times> 's instrumented" where
  "it_put ic base entry im =
     (let (r, b) = kt_put base entry (im_base im);
          im1 = im\<lparr> im_base := b \<rparr>;
          im2 = (if \<not> isl r then it_bytes ic ''write'' (te_bytes entry) im1 else im1) in
      (r, it_finish ic ''put'' (\<not> isl r) im2))"

definition it_call ::
  "instrumented_config \<Rightarrow> string \<Rightarrow> ('s \<Rightarrow> unit io_result \<times> 's) \<Rightarrow> 's instrumented \<Rightarrow> unit io_result \<times> 's instrumented" where
  "it_call ic operation call im =
     (let (r, b) = call (im_base im) in (r, it_finish ic operation (\<not> isl r) (im\<lparr> im_base := b \<rparr>)))"

definition instrumented_vt :: "instrumented_config \<Rightarrow> 's kv_tier \<Rightarrow> 's instrumented kv_tier" where
  "instrumented_vt ic base =
     \<lparr> kt_name = it_name ic, kt_get = it_get ic base, kt_put = it_put ic base,
       kt_remove = (\<lambda>k. it_call ic ''remove'' (kt_remove base k)),
       kt_clear = it_call ic ''clear'' (kt_clear base), kt_health = it_call ic ''health'' (kt_health base) \<rparr>"

section \<open>Histograms\<close>

text \<open>The buckets are cumulative, and the last one counts every observation.\<close>

definition histogram_ok :: "histogram \<Rightarrow> bool" where
  "histogram_ok h \<longleftrightarrow> length (hg_buckets h) = 8 \<and> sorted (hg_buckets h) \<and> hg_buckets h ! 7 = hg_count h"

fun state_ok :: "metric_kind \<Rightarrow> metric_state \<Rightarrow> bool" where
  "state_ok kind (CounterState v) \<longleftrightarrow> kind = CounterKind"
| "state_ok kind (GaugeState v) \<longleftrightarrow> kind = GaugeKind"
| "state_ok kind (HistogramState h) \<longleftrightarrow> kind = HistogramKind \<and> histogram_ok h"

definition metrics_ok :: "metrics \<Rightarrow> bool" where
  "metrics_ok reg \<longleftrightarrow> btree reg \<and> (\<forall>key kind st. map_of reg key = Some (kind, st) \<longrightarrow> state_ok kind st)"

lemma bucket_loop_length [simp]: "length (bucket_loop micros limits buckets) = length buckets"
  by (induction micros limits buckets rule: bucket_loop.induct) auto

lemma bucket_loop_nth:
  "i < length buckets \<Longrightarrow> n + length limits \<le> length buckets \<Longrightarrow>
   bucket_loop micros (enumerate n limits) buckets ! i =
     (if n \<le> i \<and> i < n + length limits \<and> micros \<le> limits ! (i - n) then sat_add (buckets ! i) 1 else buckets ! i)"
proof (induction limits arbitrary: n buckets)
  case (Cons limit limits)
  let ?b = "if micros \<le> limit then buckets[n := sat_add (buckets ! n) 1] else buckets"
  have "bucket_loop micros (enumerate (Suc n) limits) ?b ! i =
     (if Suc n \<le> i \<and> i < Suc n + length limits \<and> micros \<le> limits ! (i - Suc n) then sat_add (?b ! i) 1 else ?b ! i)"
    by (rule Cons(1)) (use Cons(2,3) in auto)
  then show ?case using Cons(2,3) by (auto simp: nth_Cons' nth_list_update)
qed auto

lemma sat_add_mono1: "a \<le> b \<Longrightarrow> sat_add a 1 \<le> sat_add (b :: u64) 1"
  by (simp add: word_le_nat_alt unat_sat_add)

lemma sat_add_ge: "a \<le> sat_add a (b :: u64)"
  using unat64_bound [of a] by (simp add: word_le_nat_alt unat_sat_add)

lemma histogram_observe_ok:
  assumes "histogram_ok h"
  shows "histogram_ok (histogram_observe micros h)"
proof -
  let ?b = "hg_buckets h" and ?b' = "hg_buckets (histogram_observe micros h)"
  have len: "length ?b = 8" and srt: "sorted ?b" and last: "?b ! 7 = hg_count h"
    using assms by (auto simp: histogram_ok_def)
  have lims: "length bucket_limits = 7" "sorted bucket_limits" by (simp_all add: bucket_limits_def)
  have nth: "?b' ! i = (if i = 7 \<or> (i < 7 \<and> micros \<le> bucket_limits ! i) then sat_add (?b ! i) 1 else ?b ! i)" if "i < 8" for i
    using that len lims bucket_loop_nth [of i ?b 0 bucket_limits micros] bucket_loop_nth [of 7 ?b 0 bucket_limits micros]
    by (auto simp: histogram_observe_def Let_def nth_list_update)
  have len': "length ?b' = 8" using len by (simp add: histogram_observe_def Let_def)
  have "?b' ! i \<le> ?b' ! Suc i" if "Suc i < 8" for i
  proof -
    have "?b ! i \<le> ?b ! Suc i" using srt len that by (simp add: sorted_iff_nth_Suc)
    moreover have "bucket_limits ! i \<le> bucket_limits ! Suc i" if "Suc i < 7"
      using lims that by (simp add: sorted_iff_nth_Suc)
    ultimately show ?thesis
      using nth [of i] nth [of "Suc i"] that sat_add_mono1 [of "?b ! i" "?b ! Suc i"] sat_add_ge [of "?b ! Suc i" 1]
      by (auto split: if_splits intro: order_trans)
  qed
  then have "sorted ?b'" using len' by (simp add: sorted_iff_nth_Suc)
  moreover have "?b' ! 7 = hg_count (histogram_observe micros h)"
    using nth [of 7] last by (simp add: histogram_observe_def Let_def)
  ultimately show ?thesis using len' by (simp add: histogram_ok_def)
qed

lemma histogram_default_ok [simp]: "histogram_ok histogram_default"
  by (simp add: histogram_ok_def histogram_default_def eval_nat_numeral)

lemma metrics_ok_insert:
  "metrics_ok reg \<Longrightarrow> state_ok kind st \<Longrightarrow> metrics_ok (btree_insert key (kind, st) reg)"
  by (auto simp: metrics_ok_def)

lemma metric_entry_ok:
  "metrics_ok reg \<Longrightarrow> state_ok (fst initial) (snd initial) \<Longrightarrow> metric_entry key initial reg = (kind, st) \<Longrightarrow> state_ok kind st"
  by (cases key) (auto simp: metric_entry_def metrics_ok_def split: option.splits)

datatype metric_op =
    IncOp string "(string \<times> string) list" u64
  | GaugeOp string "(string \<times> string) list" "64 word"
  | ObserveOp string "(string \<times> string) list" u64

fun apply_metric_op :: "metric_op \<Rightarrow> metrics \<Rightarrow> unit io_result \<times> metrics" where
  "apply_metric_op (IncOp name labels delta) reg = inc_counter name labels delta reg"
| "apply_metric_op (GaugeOp name labels v) reg = set_gauge name labels v reg"
| "apply_metric_op (ObserveOp name labels micros) reg = observe_micros name labels micros reg"

lemma apply_metric_op_ok:
  assumes "metrics_ok reg"
  shows "metrics_ok (snd (apply_metric_op op1 reg))"
proof (cases op1)
  case (IncOp name labels delta)
  with assms show ?thesis
    by (auto simp: inc_counter_def check_then_def split: sum.splits prod.splits metric_state.splits
        intro!: metrics_ok_insert dest!: metric_entry_ok [OF assms, rotated])
next
  case (GaugeOp name labels v)
  with assms show ?thesis
    by (auto simp: set_gauge_def check_then_def split: sum.splits prod.splits metric_state.splits
        intro!: metrics_ok_insert dest!: metric_entry_ok [OF assms, rotated])
next
  case (ObserveOp name labels micros)
  with assms show ?thesis
    by (auto simp: observe_micros_def check_then_def split: sum.splits prod.splits metric_state.splits
        intro!: metrics_ok_insert histogram_observe_ok dest!: metric_entry_ok [OF assms, rotated])
qed


section \<open>Labels survive rendering\<close>

text \<open>A reader of the text format: the value up to the closing quote, and what follows it.\<close>

fun parse_quoted :: "string \<Rightarrow> (string \<times> string) option" where
  "parse_quoted [] = None"
| "parse_quoted (c # cs) =
     (if c = CHR 0x22 then Some ([], cs)
      else if c = CHR 0x5C then
        (case cs of
           [] \<Rightarrow> None
         | d # ds \<Rightarrow> map_option (\<lambda>(v, rest). ((if d = CHR ''n'' then newline else d) # v, rest)) (parse_quoted ds))
      else map_option (\<lambda>(v, rest). (c # v, rest)) (parse_quoted cs))"

definition escape_char :: "char \<Rightarrow> string" where
  "escape_char c = (if c = CHR 0x5C then [CHR 0x5C, CHR 0x5C] else if c = newline then [CHR 0x5C, CHR ''n'']
     else if c = CHR 0x22 then [CHR 0x5C, CHR 0x22] else [c])"

lemma escape_label_chars: "escape_label v = concat (map escape_char v)"
  by (induction v) (auto simp: escape_label_def replace_char_def escape_char_def newline_def)

text \<open>
  The text rendered for a label value has no line break, and reading it back up to its closing quote
  gives exactly the value, whatever characters it holds: a label cannot end early, forge another label or
  start a new line.
\<close>
theorem label_values_survive_rendering:
  "newline \<notin> set (escape_label v) \<and>
   label_text k v = k @ [CHR ''='', CHR 0x22] @ escape_label v @ [CHR 0x22] \<and>
   parse_quoted (escape_label v @ CHR 0x22 # rest) = Some (v, rest)"
proof -
  have "parse_quoted (concat (map escape_char v) @ CHR 0x22 # rest) = Some (v, rest)"
    by (induction v) (auto simp: escape_char_def newline_def)
  moreover have "newline \<notin> set (concat (map escape_char v))"
    by (auto simp: escape_char_def newline_def split: if_splits)
  ultimately show ?thesis by (simp add: escape_label_chars label_text_def)
qed

section \<open>The instrumented tier is transparent\<close>

lemma it_finish_base [simp]: "im_base (it_finish ic operation ok im) = im_base im"
  by (simp add: it_finish_def Let_def)

lemma it_bytes_base [simp]: "im_base (it_bytes ic direction bytes im) = im_base im"
  by (simp add: it_bytes_def)

lemma it_get_base: "it_get ic base k im = (r, im') \<Longrightarrow> kt_get base k (im_base im) = (r, im_base im')"
  by (auto simp: it_get_def Let_def split: prod.splits sum.splits option.splits)

lemma it_put_base: "it_put ic base x im = (r, im') \<Longrightarrow> kt_put base x (im_base im) = (r, im_base im')"
  by (auto simp: it_put_def Let_def split: prod.splits if_splits)

lemma it_call_base: "it_call ic operation call im = (r, im') \<Longrightarrow> call (im_base im) = (r, im_base im')"
  by (auto simp: it_call_def Let_def split: prod.splits)

text \<open>
  The instrumented tier is transparent: every operation returns what the tier below returns and
  leaves it in the same state, whatever the metrics registry holds and even when its updates fail.
\<close>
theorem instrumented_tier_is_transparent:
  "map_prod id im_base (kt_get (instrumented_vt ic base) k im) = kt_get base k (im_base im) \<and>
   map_prod id im_base (kt_put (instrumented_vt ic base) x im) = kt_put base x (im_base im) \<and>
   map_prod id im_base (kt_remove (instrumented_vt ic base) k im) = kt_remove base k (im_base im) \<and>
   map_prod id im_base (kt_clear (instrumented_vt ic base) im) = kt_clear base (im_base im) \<and>
   map_prod id im_base (kt_health (instrumented_vt ic base) im) = kt_health base (im_base im)"
  using it_get_base [of ic base k im] it_put_base [of ic base x im] it_call_base [of ic "''remove''" "kt_remove base k" im]
    it_call_base [of ic "''clear''" "kt_clear base" im] it_call_base [of ic "''health''" "kt_health base" im]
  by (simp add: instrumented_vt_def map_prod_def split_beta prod_eq_iff)

context coherent_tier
begin

lemma instrumented_coherent:
  "coherent_tier (instrumented_vt ic vt) (\<lambda>im. view (im_base im)) (\<lambda>im. invar (im_base im)) used fits"
  by unfold_locales
    (auto simp: instrumented_vt_def dest!: it_get_base it_put_base it_call_base
      dest: get_error get_result put_any put_result remove_any remove_result view_key)

end

interpretation instrumented_cct: coherent_tier "instrumented_vt ic (cct_vt cr cfg name)"
  "\<lambda>im. cct_view cr used (im_base im)" "\<lambda>im. cct_inv cr cfg used (im_base im)" used "cct_fits cfg"
  by (rule cct.instrumented_coherent)

end
