(* ===== verification/Control.thy ===== *)
theory Control
  imports Quotas Observability
begin

text \<open>
  The cache controller of \<open>src/control.rs\<close>: the fleet registry, the metrics refresh, the
  query-string decoder, the JSON bodies, the request router and the connection handler on the bytes
  of a request. Sockets and time-outs are not modelled; a connection is the text it delivers.
\<close>

section \<open>The fleet registry\<close>

datatype worker_role = Prefill | Decode | Hybrid

record fleet_node =
  fn_id :: string
  fn_endpoint :: string
  fn_role :: worker_role
  fn_capacity_bytes :: u64
  fn_used_bytes :: u64
  fn_last_seen :: u64

type_synonym fleet = "(string \<times> fleet_node) list"

definition fleet_new :: fleet where
  "fleet_new = []"

text \<open>\<open>now\<close> is the reading of the system clock, an error before the epoch.\<close>

definition heartbeat ::
  "u64 io_result \<Rightarrow> string \<Rightarrow> string \<Rightarrow> worker_role \<Rightarrow> u64 \<Rightarrow> u64 \<Rightarrow> fleet \<Rightarrow> fleet_node io_result \<times> fleet" where
  "heartbeat now id0 endpoint role capacity used nodes =
     check_then (validate_id id0 ''node'') nodes (\<lambda>id1.
       if blank endpoint \<or> capacity = 0 \<or> used > capacity
       then (Inl (IoError InvalidInput ''invalid fleet heartbeat''), nodes)
       else check_then now nodes (\<lambda>seen.
         (let node = \<lparr> fn_id = id1, fn_endpoint = endpoint, fn_role = role, fn_capacity_bytes = capacity,
                      fn_used_bytes = used, fn_last_seen = seen \<rparr> in
          (Inr node, btree_insert id1 node nodes))))"

definition fleet_nodes :: "fleet \<Rightarrow> fleet_node list" where
  "fleet_nodes nodes = map snd nodes"

definition prune_stale :: "u64 io_result \<Rightarrow> u64 \<Rightarrow> fleet \<Rightarrow> nat io_result \<times> fleet" where
  "prune_stale now max_age_secs nodes =
     check_then now nodes (\<lambda>t.
       (let kept = [(i, node) \<leftarrow> nodes. sat_sub t (fn_last_seen node) \<le> max_age_secs] in
        (Inr (length nodes - length kept), kept)))"

section \<open>The controller\<close>

record controller =
  ct_quotas :: quota_table
  ct_fleet :: fleet
  ct_metrics :: metrics

definition controller_new :: "metrics \<Rightarrow> controller" where
  "controller_new metrics = \<lparr> ct_quotas = quota_manager_new, ct_fleet = fleet_new, ct_metrics = metrics \<rparr>"

definition i64_max :: u64 where
  "i64_max = 0x7FFFFFFFFFFFFFFF"

fun tenant_gauges :: "tenant_snapshot list \<Rightarrow> metrics \<Rightarrow> unit io_result \<times> metrics" where
  "tenant_gauges [] reg = (Inr (), reg)"
| "tenant_gauges (t # ts) reg =
     and_then (set_gauge ''rivet_tenant_used_bytes'' [(''tenant'', snap_tenant t)]
                 (min (used_bytes (snap_usage t)) i64_max) reg) (\<lambda>_ reg1.
     and_then (set_gauge ''rivet_tenant_inflight'' [(''tenant'', snap_tenant t)]
                 (min (inflight (snap_usage t)) i64_max) reg1) (\<lambda>_ reg2.
       tenant_gauges ts reg2))"

definition refresh_metrics :: "controller \<Rightarrow> unit io_result \<times> controller" where
  "refresh_metrics c =
     (let tenants = quota_snapshots (ct_quotas c);
          (r, reg) =
            and_then (set_gauge ''rivet_controller_tenants'' [] (of_nat (length tenants)) (ct_metrics c)) (\<lambda>_ reg1.
            and_then (tenant_gauges tenants reg1) (\<lambda>_ reg2.
              set_gauge ''rivet_controller_nodes'' [] (of_nat (length (fleet_nodes (ct_fleet c)))) reg2)) in
      (r, c\<lparr> ct_metrics := reg \<rparr>))"

section \<open>Query strings\<close>

definition hex_value :: "nat \<Rightarrow> nat io_result" where
  "hex_value b =
     (if 48 \<le> b \<and> b \<le> 57 then Inr (b - 48)
      else if 97 \<le> b \<and> b \<le> 102 then Inr (b - 97 + 10)
      else if 65 \<le> b \<and> b \<le> 70 then Inr (b - 65 + 10)
      else Inl (IoError InvalidInput ''invalid percent escape''))"

text \<open>The loop over the bytes; an escape takes three of them.\<close>

fun percent_loop :: "char list \<Rightarrow> char list \<Rightarrow> char list io_result" where
  "percent_loop [] decoded = Inr decoded"
| "percent_loop (c # cs) decoded =
     (if c = CHR ''%'' then
        (case cs of
           h # l # rest \<Rightarrow>
             result_bind (hex_value (of_char h)) (\<lambda>high.
             result_bind (hex_value (of_char l)) (\<lambda>low.
               percent_loop rest (decoded @ [char_of (high * 16 + low)])))
         | _ \<Rightarrow> Inl (IoError InvalidInput ''truncated percent escape''))
      else if c = CHR ''+'' then percent_loop cs (decoded @ '' '')
      else percent_loop cs (decoded @ [c]))"

definition percent_decode :: "string \<Rightarrow> string io_result" where
  "percent_decode s =
     result_bind (percent_loop s []) (\<lambda>decoded.
       if utf8_valid (as_bytes decoded) then Inr decoded
       else Inl (IoError InvalidInput ''query value is not UTF-8''))"

fun split_on :: "char \<Rightarrow> string \<Rightarrow> string list" where
  "split_on sep [] = [[]]"
| "split_on sep (c # cs) =
     (if c = sep then [] # split_on sep cs
      else (case split_on sep cs of [] \<Rightarrow> [[c]] | x # xs \<Rightarrow> (c # x) # xs))"

fun split_once :: "char \<Rightarrow> string \<Rightarrow> (string \<times> string) option" where
  "split_once sep [] = None"
| "split_once sep (c # cs) =
     (if c = sep then Some ([], cs) else map_option (\<lambda>(a, b). (c # a, b)) (split_once sep cs))"

fun parse_pairs :: "string list \<Rightarrow> (string \<times> string) list \<Rightarrow> (string \<times> string) list io_result" where
  "parse_pairs [] values1 = Inr values1"
| "parse_pairs (pair # pairs) values1 =
     (let (k0, v0) = (case split_once (CHR ''='') pair of None \<Rightarrow> (pair, []) | Some kv \<Rightarrow> kv) in
      result_bind (percent_decode k0) (\<lambda>k.
      result_bind (percent_decode v0) (\<lambda>v.
        if k = [] \<or> map_of values1 k \<noteq> None
        then Inl (IoError InvalidInput (''duplicate or empty query key '' @ k))
        else parse_pairs pairs (btree_insert k v values1))))"

definition parse_query :: "string \<Rightarrow> (string \<times> string) list io_result" where
  "parse_query query = (if query = [] then Inr [] else parse_pairs (split_on (CHR ''&'') query) [])"

definition required :: "(string \<times> string) list \<Rightarrow> string \<Rightarrow> string io_result" where
  "required params name =
     (case map_of params name of
        Some v \<Rightarrow> if v \<noteq> [] then Inr v else Inl (IoError InvalidInput (''missing '' @ name))
      | None \<Rightarrow> Inl (IoError InvalidInput (''missing '' @ name)))"

text \<open>\<open>str::parse::<u64>\<close>: an optional plus sign, decimal digits, no overflow.\<close>

definition parse_u64_str :: "string \<Rightarrow> u64 option" where
  "parse_u64_str s =
     (let ds = (case s of c # cs \<Rightarrow> if c = CHR ''+'' then cs else s | [] \<Rightarrow> []) in
      if ds = [] \<or> \<not> list_all decimal_digit ds \<or> digits_value ds > 0xFFFFFFFFFFFFFFFF then None
      else Some (of_int (digits_value ds)))"

definition parse_u64 :: "(string \<times> string) list \<Rightarrow> string \<Rightarrow> u64 io_result" where
  "parse_u64 params name =
     result_bind (required params name) (\<lambda>s.
       case parse_u64_str s of None \<Rightarrow> Inl (IoError InvalidInput (''invalid '' @ name)) | Some n \<Rightarrow> Inr n)"

section \<open>Bodies\<close>

definition quote_char :: char where
  "quote_char = CHR 0x22"

definition json_escape :: "string \<Rightarrow> string" where
  "json_escape v =
     replace_char (CHR 0x0D) [CHR 0x5C, CHR ''r''] (replace_char newline [CHR 0x5C, CHR ''n'']
       (replace_char quote_char [CHR 0x5C, quote_char] (replace_char (CHR 0x5C) [CHR 0x5C, CHR 0x5C] v)))"

definition json_string :: "string \<Rightarrow> string" where
  "json_string v = quote_char # json_escape v @ [quote_char]"

definition show_u64 :: "u64 \<Rightarrow> string" where
  "show_u64 w = show_nat (unat w)"

definition role_name :: "worker_role \<Rightarrow> string" where
  "role_name r = (case r of Prefill \<Rightarrow> ''prefill'' | Decode \<Rightarrow> ''decode'' | Hybrid \<Rightarrow> ''hybrid'')"

definition node_json :: "fleet_node \<Rightarrow> string" where \<open>node_json n =
     ''{"id":'' @ json_string (fn_id n) @ '',"endpoint":'' @ json_string (fn_endpoint n) @
     '',"role":"'' @ role_name (fn_role n) @ ''","capacity_bytes":'' @ show_u64 (fn_capacity_bytes n) @
     '',"used_bytes":'' @ show_u64 (fn_used_bytes n) @ '',"last_seen_epoch_secs":'' @ show_u64 (fn_last_seen n) @ ''}''\<close>

definition nodes_json :: "fleet_node list \<Rightarrow> string" where
  "nodes_json nodes = ''['' @ comma_join (map node_json nodes) @ '']''"

definition tenant_json :: "tenant_snapshot \<Rightarrow> string" where \<open>tenant_json t =
     ''{"tenant":'' @ json_string (snap_tenant t) @
     '',"max_bytes":'' @ show_u64 (max_bytes (snap_quota t)) @ '',"max_entries":'' @ show_u64 (max_entries (snap_quota t)) @
     '',"max_inflight":'' @ show_u64 (max_inflight (snap_quota t)) @ '',"used_bytes":'' @ show_u64 (used_bytes (snap_usage t)) @
     '',"used_entries":'' @ show_u64 (used_entries (snap_usage t)) @
     '',"reserved_bytes":'' @ show_u64 (reserved_bytes (snap_usage t)) @
     '',"reserved_entries":'' @ show_u64 (reserved_entries (snap_usage t)) @
     '',"inflight":'' @ show_u64 (inflight (snap_usage t)) @ ''}''\<close>

definition tenants_json :: "tenant_snapshot list \<Rightarrow> string" where
  "tenants_json ts = ''['' @ comma_join (map tenant_json ts) @ '']''"

section \<open>Routing\<close>

record response =
  rp_status :: nat
  rp_content_type :: string
  rp_body :: string

definition json_response :: "nat \<Rightarrow> string \<Rightarrow> response" where
  "json_response status body = \<lparr> rp_status = status, rp_content_type = ''application/json'', rp_body = body \<rparr>"

definition parse_role :: "string \<Rightarrow> worker_role io_result" where
  "parse_role s =
     (if s = ''prefill'' then Inr Prefill else if s = ''decode'' then Inr Decode
      else if s = ''hybrid'' then Inr Hybrid else Inl (IoError InvalidInput ''invalid worker role''))"

definition route_heartbeat ::
  "u64 io_result \<Rightarrow> (string \<times> string) list \<Rightarrow> controller \<Rightarrow> response io_result \<times> controller" where
  "route_heartbeat now params c =
     check_then (result_bind (required params ''role'') parse_role) c (\<lambda>role.
     check_then (required params ''id'') c (\<lambda>i.
     check_then (required params ''endpoint'') c (\<lambda>endpoint.
     check_then (parse_u64 params ''capacity_bytes'') c (\<lambda>capacity.
     check_then (parse_u64 params ''used_bytes'') c (\<lambda>used.
       (let (r, nodes) = heartbeat now i endpoint role capacity used (ct_fleet c);
            c1 = c\<lparr> ct_fleet := nodes \<rparr> in
        check_then r c1 (\<lambda>node. (Inr (json_response 200 (node_json node)), c1))))))))"

definition route_set_quota ::
  "string \<Rightarrow> (string \<times> string) list \<Rightarrow> controller \<Rightarrow> response io_result \<times> controller" where
  \<open>route_set_quota encoded params c =
     check_then (percent_decode encoded) c (\<lambda>tenant.
     check_then (parse_u64 params ''max_bytes'') c (\<lambda>mb.
     check_then (parse_u64 params ''max_entries'') c (\<lambda>me.
     check_then (parse_u64 params ''max_inflight'') c (\<lambda>mi.
       (let (r, tenants) = set_quota tenant \<lparr> max_bytes = mb, max_entries = me, max_inflight = mi \<rparr> (ct_quotas c);
            c1 = c\<lparr> ct_quotas := tenants \<rparr> in
        check_then r c1 (\<lambda>_.
          (Inr (json_response 200 (''{"tenant":'' @ json_string tenant @ '',"ok":true}'')), c1)))))))\<close>

definition tenants_path :: string where
  "tenants_path = ''/v1/tenants/''"

definition route_request ::
  "u64 io_result \<Rightarrow> string \<Rightarrow> string \<Rightarrow> (string \<times> string) list \<Rightarrow> controller \<Rightarrow> response io_result \<times> controller" where
  \<open>route_request now meth path params c =
     (if meth = ''GET'' \<and> path = ''/health'' then (Inr (json_response 200 ''{"ok":true}''), c)
      else if meth = ''GET'' \<and> path = ''/metrics'' then
        and_then (refresh_metrics c) (\<lambda>_ c1.
          (Inr \<lparr> rp_status = 200, rp_content_type = ''text/plain; version=0.0.4'', rp_body = metrics_render (ct_metrics c1) \<rparr>, c1))
      else if meth = ''GET'' \<and> path = ''/v1/nodes'' then
        (Inr (json_response 200 (nodes_json (fleet_nodes (ct_fleet c)))), c)
      else if meth = ''GET'' \<and> path = ''/v1/tenants'' then
        (Inr (json_response 200 (tenants_json (quota_snapshots (ct_quotas c)))), c)
      else if meth = ''POST'' \<and> path = ''/v1/nodes/heartbeat'' then route_heartbeat now params c
      else if meth = ''PUT'' \<and> take 12 path = tenants_path then route_set_quota (drop 12 path) params c
      else (Inr (json_response 404 ''{"error":"not found"}''), c))\<close>

section \<open>A connection\<close>

definition crlf :: string where
  "crlf = [CHR 0x0D, newline]"

definition reason_of :: "nat \<Rightarrow> string" where
  "reason_of status =
     (if status = 200 then ''OK'' else if status = 400 then ''Bad Request'' else if status = 404 then ''Not Found''
      else if status = 431 then ''Request Header Fields Too Large'' else ''Error'')"

definition write_response :: "response \<Rightarrow> string" where
  "write_response r =
     ''HTTP/1.1 '' @ show_nat (rp_status r) @ '' '' @ reason_of (rp_status r) @ crlf @
     ''Content-Type: '' @ rp_content_type r @ crlf @
     ''Content-Length: '' @ show_nat (length (rp_body r)) @ crlf @ ''Connection: close'' @ crlf @ crlf @ rp_body r"

text \<open>\<open>BufRead::read_line\<close>: up to and with the line break; the line must be UTF-8.\<close>

definition read_line :: "string \<Rightarrow> (string \<times> string) io_result" where
  "read_line input =
     (let line = takeWhile (\<lambda>c. c \<noteq> newline) input;
          rest = dropWhile (\<lambda>c. c \<noteq> newline) input;
          line1 = line @ take 1 rest in
      if utf8_valid (as_bytes line1) then Inr (line1, drop 1 rest)
      else Inl (IoError InvalidData ''stream did not contain valid UTF-8''))"

lemma read_line_splits: "read_line input = Inr (line, rest) \<Longrightarrow> line @ rest = input"
proof -
  assume "read_line input = Inr (line, rest)"
  then have "line = takeWhile (\<lambda>c. c \<noteq> newline) input @ take 1 (dropWhile (\<lambda>c. c \<noteq> newline) input)"
    "rest = drop 1 (dropWhile (\<lambda>c. c \<noteq> newline) input)"
    by (auto simp: read_line_def Let_def split: if_splits)
  then show ?thesis by (metis append.assoc append_take_drop_id takeWhile_dropWhile_id)
qed

text \<open>The header loop: \<open>Inr True\<close> when the headers are within the limit.\<close>

function header_loop :: "string \<Rightarrow> nat \<Rightarrow> bool io_result" where
  "header_loop input header_bytes =
     (case read_line input of
        Inl e \<Rightarrow> Inl e
      | Inr (line, rest) \<Rightarrow>
          if line = [] then Inr True
          else if int (header_bytes + length line) > 32768 then Inr False
          else if line = crlf then Inr True
          else header_loop rest (header_bytes + length line))"
  by pat_completeness auto

termination
proof (relation "measure (\<lambda>(input, _). length input)", goal_cases)
  case (2 input header_bytes r line rest)
  then have "line @ rest = input" by (intro read_line_splits) auto
  with 2 show ?case by auto
qed simp

text \<open>The length of the white-space character the bytes start with, or zero.\<close>

fun white_len :: "nat list \<Rightarrow> nat" where
  "white_len [] = 0"
| "white_len (b # bs) =
     (if (9 \<le> b \<and> b \<le> 13) \<or> b = 32 then 1
      else (case bs of
          [] \<Rightarrow> 0
        | c # cs \<Rightarrow>
            if b = 0xC2 \<and> (c = 0x85 \<or> c = 0xA0) then 2
            else (case cs of
                [] \<Rightarrow> 0
              | d # ds \<Rightarrow>
                  if (b = 0xE1 \<and> c = 0x9A \<and> d = 0x80)
                   \<or> (b = 0xE2 \<and> c = 0x80 \<and> (0x80 \<le> d \<and> d \<le> 0x8A \<or> d = 0xA8 \<or> d = 0xA9 \<or> d = 0xAF))
                   \<or> (b = 0xE2 \<and> c = 0x81 \<and> d = 0x9F)
                   \<or> (b = 0xE3 \<and> c = 0x80 \<and> d = 0x80)
                  then 3 else 0)))"

function split_white :: "string \<Rightarrow> string \<Rightarrow> string list" where
  "split_white acc [] = (if acc = [] then [] else [acc])"
| "split_white acc (c # cs) =
     (let n = white_len (map of_char (c # cs)) in
      if n = 0 then split_white (acc @ [c]) cs
      else (if acc = [] then [] else [acc]) @ split_white [] (drop (n - 1) cs))"
  by pat_completeness auto
termination by (relation "measure (\<lambda>(acc, cs). length cs)") auto

definition handle_connection ::
  "u64 io_result \<Rightarrow> string \<Rightarrow> controller \<Rightarrow> string option io_result \<times> controller" where
  \<open>handle_connection now input c =
     check_then (read_line input) c (\<lambda>(line1, rest).
       if line1 = [] \<or> int (length line1) > 8192 then (Inr None, c)
       else
         check_then (header_loop rest (length line1)) c (\<lambda>within.
           if \<not> within then
             (Inr (Some (write_response \<lparr> rp_status = 431, rp_content_type = ''text/plain'',
                                         rp_body = ''request headers too large'' @ [newline] \<rparr>)), c)
           else
             (let parts = split_white [] line1;
                  meth = (case parts of m # _ \<Rightarrow> m | [] \<Rightarrow> []);
                  target = (case parts of _ # t # _ \<Rightarrow> t | _ \<Rightarrow> []);
                  (path, query) = (case split_once (CHR ''?'') target of Some pq \<Rightarrow> pq | None \<Rightarrow> (target, [])) in
              check_then (parse_query query) c (\<lambda>params.
                case route_request now meth path params c of
                  (Inr r, c1) \<Rightarrow> (Inr (Some (write_response r)), c1)
                | (Inl e, c1) \<Rightarrow>
                    (Inr (Some (write_response (json_response 400 (''{"error":'' @ json_string (error_string e) @ ''}'')))), c1)))))\<close>

section \<open>What the controller keeps\<close>

definition valid_id :: "string \<Rightarrow> bool" where
  "valid_id i \<longleftrightarrow> i \<noteq> [] \<and> length i \<le> 128 \<and> list_all id_char i"

definition valid_quota :: "tenant_quota \<Rightarrow> bool" where
  "valid_quota q \<longleftrightarrow> max_bytes q \<noteq> 0 \<and> max_entries q \<noteq> 0 \<and> max_inflight q \<noteq> 0"

definition fleet_ok :: "fleet \<Rightarrow> bool" where
  "fleet_ok nodes \<longleftrightarrow> btree nodes \<and>
     (\<forall>i n. map_of nodes i = Some n \<longrightarrow>
        fn_id n = i \<and> valid_id i \<and> fn_capacity_bytes n \<noteq> 0 \<and> fn_used_bytes n \<le> fn_capacity_bytes n)"

definition usage_within :: "tenant_state \<Rightarrow> bool" where
  "usage_within st \<longleftrightarrow>
     sat_add (used_bytes (ts_usage st)) (reserved_bytes (ts_usage st)) \<le> max_bytes (ts_quota st) \<and>
     sat_add (used_entries (ts_usage st)) (reserved_entries (ts_usage st)) \<le> max_entries (ts_quota st) \<and>
     inflight (ts_usage st) \<le> max_inflight (ts_quota st)"

definition quotas_ok :: "quota_table \<Rightarrow> bool" where
  "quotas_ok tenants \<longleftrightarrow> btree tenants \<and>
     (\<forall>t st. map_of tenants t = Some st \<longrightarrow>
        valid_id t \<and> valid_quota (ts_quota st) \<and> usage_within st)"

definition controller_ok :: "controller \<Rightarrow> bool" where
  "controller_ok c \<longleftrightarrow> metrics_ok (ct_metrics c) \<and> fleet_ok (ct_fleet c) \<and> quotas_ok (ct_quotas c)"

lemma validate_id_Inr [simp]: "validate_id i field = Inr i' \<longleftrightarrow> i' = i \<and> valid_id i"
  by (auto simp: validate_id_def valid_id_def)

lemma quota_validate_Inr [simp]: "quota_validate q = Inr q' \<longleftrightarrow> q' = q \<and> valid_quota q"
  by (auto simp: quota_validate_def valid_quota_def)

text \<open>A call that stops at a failed check leaves the state it had; otherwise it continues.\<close>

lemma check_then_snd:
  "P s \<Longrightarrow> (\<And>a. r = Inr a \<Longrightarrow> P (snd (k a))) \<Longrightarrow> P (snd (check_then r s k))"
  by (cases r) auto

lemma and_then_snd:
  "P (snd r) \<Longrightarrow> (\<And>a s. r = (Inr a, s) \<Longrightarrow> P s \<Longrightarrow> P (snd (k a s))) \<Longrightarrow> P (snd (and_then r k))"
  by (cases r; cases "fst r") auto

lemma if_snd: "(b \<Longrightarrow> P (snd x)) \<Longrightarrow> (\<not> b \<Longrightarrow> P (snd y)) \<Longrightarrow> P (snd (if b then x else y))"
  by simp

lemma heartbeat_ok:
  assumes "fleet_ok nodes"
  shows "fleet_ok (snd (heartbeat now i e role cap used nodes))"
  unfolding heartbeat_def
  by (intro check_then_snd [where P = fleet_ok] if_snd [where P = fleet_ok] assms)
    (use assms in \<open>auto simp: Let_def fleet_ok_def\<close>)

lemma map_of_filter_Some:
  "distinct (map fst m) \<Longrightarrow> map_of (filter P m) k = Some v \<Longrightarrow> map_of m k = Some v"
  by (metis filter_is_subset map_of_SomeD map_of_is_SomeI subsetD)

lemma prune_ok:
  assumes "fleet_ok nodes"
  shows "fleet_ok (snd (prune_stale now age nodes))"
proof -
  have "btree nodes" using assms by (simp add: fleet_ok_def)
  then have "fleet_ok (filter P nodes)" for P
    using assms map_of_filter_Some [OF btree_distinct, of nodes P] by (auto simp: fleet_ok_def)
  then show ?thesis unfolding prune_stale_def by (intro check_then_snd [where P = fleet_ok] assms) (simp add: Let_def)
qed

lemma usage_default_within [simp]: "usage_within \<lparr> ts_quota = q, ts_usage = usage_default \<rparr>"
  by (simp add: usage_within_def usage_default_def sat_add_def)

lemma usage_within_quota [simp]:
  "usage_within (st\<lparr> ts_quota := q \<rparr>) \<longleftrightarrow>
     sat_add (used_bytes (ts_usage st)) (reserved_bytes (ts_usage st)) \<le> max_bytes q \<and>
     sat_add (used_entries (ts_usage st)) (reserved_entries (ts_usage st)) \<le> max_entries q \<and>
     inflight (ts_usage st) \<le> max_inflight q"
  by (simp add: usage_within_def)

lemma quotas_ok_insert:
  "quotas_ok tenants \<Longrightarrow> valid_id t \<Longrightarrow> valid_quota (ts_quota st) \<Longrightarrow> usage_within st \<Longrightarrow>
   quotas_ok (btree_insert t st tenants)"
  by (auto simp: quotas_ok_def)

lemma set_quota_ok:
  assumes "quotas_ok tenants"
  shows "quotas_ok (snd (set_quota t q tenants))"
  unfolding set_quota_def
  by (intro check_then_snd [where P = quotas_ok] assms)
    (use assms in \<open>auto simp: not_less intro!: quotas_ok_insert split: option.split\<close>)

lemma set_gauge_ok: "metrics_ok reg \<Longrightarrow> metrics_ok (snd (set_gauge name labels v reg))"
  using apply_metric_op_ok [of reg "GaugeOp name labels v"] by simp

lemma tenant_gauges_ok: "metrics_ok reg \<Longrightarrow> metrics_ok (snd (tenant_gauges ts reg))"
proof (induction ts arbitrary: reg)
  case (Cons t ts)
  show ?case
    unfolding tenant_gauges.simps
    by (intro and_then_snd [where P = metrics_ok] set_gauge_ok Cons) assumption+
qed simp

lemma refresh_ok:
  assumes "controller_ok c"
  shows "controller_ok (snd (refresh_metrics c)) \<and>
    ct_fleet (snd (refresh_metrics c)) = ct_fleet c \<and> ct_quotas (snd (refresh_metrics c)) = ct_quotas c"
proof -
  have m: "metrics_ok (ct_metrics c)" using assms by (simp add: controller_ok_def)
  have "metrics_ok (ct_metrics (snd (refresh_metrics c)))"
    unfolding refresh_metrics_def Let_def split_beta snd_conv controller.select_convs controller.update_convs
    by simp (intro and_then_snd [where P = metrics_ok] set_gauge_ok tenant_gauges_ok m, assumption+)
  moreover have "ct_fleet (snd (refresh_metrics c)) = ct_fleet c \<and> ct_quotas (snd (refresh_metrics c)) = ct_quotas c"
    by (simp add: refresh_metrics_def Let_def split_beta)
  ultimately show ?thesis using assms by (simp add: controller_ok_def)
qed

lemma controller_ok_updates:
  "controller_ok c \<Longrightarrow> fleet_ok nodes \<Longrightarrow> controller_ok (c\<lparr> ct_fleet := nodes \<rparr>)"
  "controller_ok c \<Longrightarrow> quotas_ok tenants \<Longrightarrow> controller_ok (c\<lparr> ct_quotas := tenants \<rparr>)"
  "controller_ok c \<Longrightarrow> fleet_ok (ct_fleet c)" "controller_ok c \<Longrightarrow> quotas_ok (ct_quotas c)"
  by (simp_all add: controller_ok_def)

lemma route_heartbeat_ok:
  assumes "controller_ok c"
  shows "controller_ok (snd (route_heartbeat now params c))"
  unfolding route_heartbeat_def Let_def split_beta
  by (intro check_then_snd [where P = controller_ok] assms)
    (simp_all add: assms controller_ok_updates heartbeat_ok)

lemma route_set_quota_ok:
  assumes "controller_ok c"
  shows "controller_ok (snd (route_set_quota enc params c))"
  unfolding route_set_quota_def Let_def split_beta
  by (intro check_then_snd [where P = controller_ok] assms)
    (simp_all add: assms controller_ok_updates set_quota_ok)

lemma route_request_ok:
  assumes "controller_ok c"
  shows "controller_ok (snd (route_request now meth path params c))"
  unfolding route_request_def
  by (intro if_snd [where P = controller_ok] and_then_snd [where P = controller_ok])
    (simp_all add: assms refresh_ok route_heartbeat_ok route_set_quota_ok)

text \<open>
  Whatever bytes arrive on a connection, the controller keeps its invariants: tenants have valid
  names, non-zero quotas and usage within them; fleet nodes are filed under their own valid name and
  never report more than their capacity; the metrics registry stays well formed.
\<close>
theorem connections_keep_the_controller_sound:
  assumes "controller_ok c"
  shows "controller_ok (snd (handle_connection now input c))"
  unfolding handle_connection_def Let_def split_beta
  by (intro check_then_snd [where P = controller_ok] if_snd [where P = controller_ok] assms)
    (use route_request_ok [OF assms] in \<open>simp_all add: assms split: sum.split\<close>)

theorem connections_keep_the_controller_sound_witness:
  "controller_ok (snd (handle_connection (Inr 7) ''GET /health HTTP/1.1'' (controller_new [])))"
  by (rule connections_keep_the_controller_sound)
    (simp add: controller_ok_def controller_new_def metrics_ok_def fleet_ok_def quotas_ok_def fleet_new_def quota_manager_new_def)

section \<open>Decoding\<close>

definition hex_digit :: "nat \<Rightarrow> char" where
  "hex_digit n = ''0123456789ABCDEF'' ! n"

text \<open>The reference encoder: every byte as an escape.\<close>

definition percent_encode :: "string \<Rightarrow> string" where
  "percent_encode s = concat (map (\<lambda>c. [CHR ''%'', hex_digit (of_char c div 16), hex_digit (of_char c mod 16)]) s)"

lemma hex_value_digit: "n < 16 \<Longrightarrow> hex_value (of_char (hex_digit n)) = Inr n"
proof -
  assume "n < 16"
  moreover have "list_all (\<lambda>n. hex_value (of_char (hex_digit n)) = Inr n) [0..<16]" by code_simp
  ultimately show ?thesis by (simp only: list_all_iff set_upt atLeastLessThan_iff Ball_def) simp
qed

lemma percent_loop_escape: "percent_loop (percent_encode [c] @ r) acc = percent_loop r (acc @ [c])"
proof -
  have "of_char c < (256 :: nat)" by simp
  then have "of_char c div 16 < (16 :: nat)" "of_char c mod 16 < (16 :: nat)" by linarith+
  then have h: "hex_value (of_char (hex_digit (of_char c div 16))) = Inr (of_char c div 16)"
    "hex_value (of_char (hex_digit (of_char c mod 16))) = Inr (of_char c mod 16)"
    by (simp_all add: hex_value_digit)
  have c: "char_of (of_char c div 16 * 16 + of_char c mod 16 :: nat) = c"
    by (metis char_of_char mult.commute mult_div_mod_eq)
  have e: "percent_encode [c] @ r = CHR ''%'' # hex_digit (of_char c div 16) # hex_digit (of_char c mod 16) # r"
    by (simp add: percent_encode_def)
  show ?thesis unfolding e using h c by simp
qed

lemma percent_loop_encode: "percent_loop (percent_encode s) acc = Inr (acc @ s)"
proof (induction s arbitrary: acc)
  case (Cons c s)
  have "percent_encode (c # s) = percent_encode [c] @ percent_encode s" by (simp add: percent_encode_def)
  then show ?case using Cons [of "acc @ [c]"] by (simp only: percent_loop_escape) simp
qed (simp add: percent_encode_def)

text \<open>
  The decoder of query strings inverts percent-encoding on every UTF-8 string, leaves strings
  without escapes or plus signs alone, and never answers anything but UTF-8 text or an
  \<open>InvalidInput\<close> error (so no request makes it panic).
\<close>
theorem percent_decoding_inverts_encoding:
  "percent_decode (percent_encode s) =
     (if utf8_valid (as_bytes s) then Inr s else Inl (IoError InvalidInput ''query value is not UTF-8'')) \<and>
   (case percent_decode t of
      Inr d \<Rightarrow> utf8_valid (as_bytes d) \<and> length d \<le> length t
    | Inl e \<Rightarrow> (\<exists>msg. e = IoError InvalidInput msg))"
proof -
  have err: "hex_value b = Inl e \<Longrightarrow> \<exists>msg. e = IoError InvalidInput msg" for b e
    by (auto simp: hex_value_def split: if_splits)
  have bounded: "percent_loop t acc = Inr d \<Longrightarrow> length d \<le> length acc + length t" for t acc d
  proof (induction t acc rule: percent_loop.induct)
    case (2 c cs acc)
    from 2(4) show ?case
      by (auto simp: io_simps split: if_splits list.splits dest!: 2(1,3)) (use 2(2) in force)
  qed simp
  have failed: "percent_loop t acc = Inl e \<Longrightarrow> \<exists>msg. e = IoError InvalidInput msg" for t acc e
  proof (induction t acc rule: percent_loop.induct)
    case (2 c cs acc)
    from 2(4) show ?case
      by (auto simp: result_bind_def split: if_splits list.splits sum.splits dest: err 2(1,3)) (use 2(2) in force)
  qed simp
  show ?thesis
    using bounded [of t "[]"] failed [of t "[]"]
    by (cases "percent_loop t []") (auto simp: percent_decode_def percent_loop_encode)
qed

section \<open>JSON strings\<close>

text \<open>A reader of JSON strings without \<open>\u\<close> escapes, after the opening quote.\<close>

fun parse_json_string :: "string \<Rightarrow> (string \<times> string) option" where
  "parse_json_string [] = None"
| "parse_json_string (c # cs) =
     (if c = quote_char then Some ([], cs)
      else if c = CHR 0x5C then
        (case cs of
           [] \<Rightarrow> None
         | d # ds \<Rightarrow>
             map_option (\<lambda>(v, rest). ((if d = CHR ''n'' then newline else if d = CHR ''r'' then CHR 0x0D else d) # v, rest))
               (parse_json_string ds))
      else map_option (\<lambda>(v, rest). (c # v, rest)) (parse_json_string cs))"

definition json_char :: "char \<Rightarrow> string" where
  "json_char c = (if c = CHR 0x5C then [CHR 0x5C, CHR 0x5C] else if c = quote_char then [CHR 0x5C, quote_char]
     else if c = newline then [CHR 0x5C, CHR ''n''] else if c = CHR 0x0D then [CHR 0x5C, CHR ''r''] else [c])"

lemma json_escape_chars: "json_escape v = concat (map json_char v)"
  by (induction v) (auto simp: json_escape_def replace_char_def json_char_def newline_def quote_char_def)

text \<open>
  A name or an address is written into a JSON body as one string literal: reading the literal gives
  back exactly the value, whatever quotes, backslashes or line breaks it holds.
\<close>
theorem json_strings_read_back:
  "\<exists>body. json_string v = quote_char # body \<and> parse_json_string (body @ rest) = Some (v, rest) \<and>
     newline \<notin> set body \<and> CHR 0x0D \<notin> set body"
proof -
  have "parse_json_string (concat (map json_char v) @ quote_char # rest) = Some (v, rest)"
    by (induction v) (auto simp: json_char_def newline_def quote_char_def)
  moreover have "newline \<notin> set (concat (map json_char v)) \<and> CHR 0x0D \<notin> set (concat (map json_char v))"
    by (auto simp: json_char_def newline_def quote_char_def split: if_splits)
  ultimately show ?thesis
    by (intro exI [of _ "json_escape v @ [quote_char]"]) (auto simp: json_string_def json_escape_chars newline_def quote_char_def)
qed

text \<open>
  A request whose query cannot be decoded is dropped without an answer: \<open>handle_connection\<close>
  returns the error of \<open>parse_query\<close> before the part that turns errors into a 400 response.
\<close>
theorem malformed_query_gets_no_answer:
  "fst (handle_connection now (''GET /v1/nodes?a=%zz HTTP/1.1'' @ crlf @ crlf) (controller_new [])) =
     Inl (IoError InvalidInput ''invalid percent escape'')"
  by code_simp

end
