(* ===== verification/Events.thy ===== *)
theory Events
  imports Observability
begin

text \<open>
  The event bus of \<open>src/events.rs\<close> with its Prometheus and OpenTelemetry subscribers. A
  subscriber is its state and its callback, which may panic; publishing numbers the event, hands it to
  every subscriber in the order of their identifiers and counts the panics.
\<close>

section \<open>Events\<close>

datatype kv_event_kind =
    KLookup | KStore | KRetrieve | KMove | KPrefetch | KInvalidate | KPin | KUnpin | KClear | KHealth | KController

definition event_kind_str :: "kv_event_kind \<Rightarrow> string" where
  "event_kind_str k = (case k of
     KLookup \<Rightarrow> ''lookup'' | KStore \<Rightarrow> ''store'' | KRetrieve \<Rightarrow> ''retrieve'' | KMove \<Rightarrow> ''move''
   | KPrefetch \<Rightarrow> ''prefetch'' | KInvalidate \<Rightarrow> ''invalidate'' | KPin \<Rightarrow> ''pin'' | KUnpin \<Rightarrow> ''unpin''
   | KClear \<Rightarrow> ''clear'' | KHealth \<Rightarrow> ''health'' | KController \<Rightarrow> ''controller'')"

datatype kv_event_status = EStarted | ECompleted | EMiss | EError

definition event_status_str :: "kv_event_status \<Rightarrow> string" where
  "event_status_str s = (case s of
     EStarted \<Rightarrow> ''started'' | ECompleted \<Rightarrow> ''completed'' | EMiss \<Rightarrow> ''miss'' | EError \<Rightarrow> ''error'')"

record kv_event =
  ev_sequence :: u64
  ev_timestamp_micros :: u64
  ev_request_id :: "u64 option"
  ev_kind :: kv_event_kind
  ev_status :: kv_event_status
  ev_model_fingerprint :: "string option"
  ev_tier :: "string option"
  ev_blocks :: u64
  ev_bytes :: u64
  ev_duration_micros :: u64
  ev_detail :: "string option"

definition kv_event_new :: "kv_event_kind \<Rightarrow> kv_event_status \<Rightarrow> kv_event" where
  "kv_event_new kind status =
     \<lparr> ev_sequence = 0, ev_timestamp_micros = 0, ev_request_id = None, ev_kind = kind, ev_status = status,
       ev_model_fingerprint = None, ev_tier = None, ev_blocks = 0, ev_bytes = 0, ev_duration_micros = 0,
       ev_detail = None \<rparr>"

definition event_request_id :: "u64 \<Rightarrow> kv_event \<Rightarrow> kv_event" where
  "event_request_id i e = e\<lparr> ev_request_id := Some i \<rparr>"

definition event_model :: "string \<Rightarrow> kv_event \<Rightarrow> kv_event" where
  "event_model m e = e\<lparr> ev_model_fingerprint := Some m \<rparr>"

definition event_tier :: "string \<Rightarrow> kv_event \<Rightarrow> kv_event" where
  "event_tier t e = e\<lparr> ev_tier := Some t \<rparr>"

definition event_counts :: "u64 \<Rightarrow> u64 \<Rightarrow> kv_event \<Rightarrow> kv_event" where
  "event_counts blocks bytes e = e\<lparr> ev_blocks := blocks, ev_bytes := bytes \<rparr>"

definition event_duration :: "u64 \<Rightarrow> kv_event \<Rightarrow> kv_event" where
  "event_duration d e = e\<lparr> ev_duration_micros := d \<rparr>"

definition event_detail :: "string \<Rightarrow> kv_event \<Rightarrow> kv_event" where
  "event_detail d e = e\<lparr> ev_detail := Some d \<rparr>"

section \<open>The bus\<close>

text \<open>The callback returns whether it panicked, and the subscriber's next state.\<close>

record 'e subscriber =
  sub_on_event :: "kv_event \<Rightarrow> 'e \<Rightarrow> bool \<times> 'e"
  sub_state :: 'e

record 'e event_bus =
  bus_subscribers :: "(u64 \<times> 'e subscriber) list"
  bus_next_subscriber :: u64
  bus_next_sequence :: u64
  bus_published :: u64
  bus_subscriber_failures :: u64

definition event_bus_new :: "'e event_bus" where
  "event_bus_new = \<lparr> bus_subscribers = [], bus_next_subscriber = 0, bus_next_sequence = 0, bus_published = 0,
     bus_subscriber_failures = 0 \<rparr>"

definition bus_subscribe :: "'e subscriber \<Rightarrow> 'e event_bus \<Rightarrow> u64 \<times> 'e event_bus" where
  "bus_subscribe sub bus =
     (let i = sat_add (bus_next_subscriber bus) 1 in
      (i, bus\<lparr> bus_next_subscriber := bus_next_subscriber bus + 1,
               bus_subscribers := btree_insert i sub (bus_subscribers bus) \<rparr>))"

definition bus_unsubscribe :: "u64 \<Rightarrow> 'e event_bus \<Rightarrow> bool \<times> 'e event_bus" where
  "bus_unsubscribe i bus =
     (map_of (bus_subscribers bus) i \<noteq> None,
      bus\<lparr> bus_subscribers := [p \<leftarrow> bus_subscribers bus. fst p \<noteq> i] \<rparr>)"

fun deliver :: "kv_event \<Rightarrow> (u64 \<times> 'e subscriber) list \<Rightarrow> u64 \<Rightarrow> (u64 \<times> 'e subscriber) list \<times> u64" where
  "deliver e [] failures = ([], failures)"
| "deliver e ((i, sub) # subs) failures =
     (let (panicked, st) = sub_on_event sub e (sub_state sub);
          (subs', failures') = deliver e subs (if panicked then failures + 1 else failures) in
      ((i, sub\<lparr> sub_state := st \<rparr>) # subs', failures'))"

text \<open>The number is taken before the clock is read, so a clock error consumes it.\<close>

definition bus_publish :: "u64 io_result \<Rightarrow> kv_event \<Rightarrow> 'e event_bus \<Rightarrow> kv_event io_result \<times> 'e event_bus" where
  "bus_publish now event0 bus =
     (let event1 = event0\<lparr> ev_sequence := sat_add (bus_next_sequence bus) 1 \<rparr>;
          bus1 = bus\<lparr> bus_next_sequence := bus_next_sequence bus + 1 \<rparr> in
      check_then now bus1 (\<lambda>t.
        (let event = event1\<lparr> ev_timestamp_micros := t \<rparr>;
             (subs, failures) = deliver event (bus_subscribers bus1) (bus_subscriber_failures bus1) in
         (Inr event, bus1\<lparr> bus_subscribers := subs, bus_subscriber_failures := failures,
                           bus_published := bus_published bus1 + 1 \<rparr>))))"

section \<open>Subscribers\<close>

text \<open>The exporter is external; its state and the failure counter are the subscriber's state.\<close>

definition otel_on_event ::
  "(kv_event \<Rightarrow> 'x \<Rightarrow> unit io_result \<times> 'x) \<Rightarrow> kv_event \<Rightarrow> 'x \<times> u64 \<Rightarrow> bool \<times> ('x \<times> u64)" where
  "otel_on_event export event st =
     (case export event (fst st) of
        (Inr _, x) \<Rightarrow> (False, (x, snd st))
      | (Inl (IoError _ _), x) \<Rightarrow> (False, (x, snd st + 1))
      | (Inl (Panicked _), x) \<Rightarrow> (True, (x, snd st)))"

definition prometheus_on_event :: "kv_event \<Rightarrow> metrics \<Rightarrow> bool \<times> metrics" where
  "prometheus_on_event event reg =
     (let labels = [(''operation'', event_kind_str (ev_kind event)), (''status'', event_status_str (ev_status event))];
          reg1 = snd (inc_counter ''rivet_event_total'' labels 1 reg);
          reg2 = (if ev_bytes event > 0 then snd (inc_counter ''rivet_event_bytes_total'' labels (ev_bytes event) reg1) else reg1);
          reg3 = (if ev_duration_micros event > 0
                  then snd (observe_micros ''rivet_event_duration_micros'' labels (ev_duration_micros event) reg2)
                  else reg2) in
      (False, reg3))"

section \<open>Lemmas\<close>

lemma deliver_keys: "map fst (fst (deliver e subs n)) = map fst subs"
  by (induction e subs n rule: deliver.induct) (auto simp: Let_def split: prod.splits)

text \<open>Every subscriber gets the event exactly once; a panic of one does not keep it from the others.\<close>

lemma deliver_subscribers:
  "fst (deliver e subs n) = map (\<lambda>(i, sub). (i, sub\<lparr> sub_state := snd (sub_on_event sub e (sub_state sub)) \<rparr>)) subs"
  by (induction e subs n rule: deliver.induct) (auto simp: Let_def split: prod.splits)

lemma deliver_failures:
  "snd (deliver e subs n) = n + of_nat (length (filter (\<lambda>(i, sub). fst (sub_on_event sub e (sub_state sub))) subs))"
  by (induction e subs n rule: deliver.induct) (auto simp: Let_def split: prod.splits)

text \<open>Publishing a sequence of events, each with its clock reading.\<close>

fun publish_all :: "(u64 io_result \<times> kv_event) list \<Rightarrow> 'e event_bus \<Rightarrow> kv_event io_result list \<times> 'e event_bus" where
  "publish_all [] bus = ([], bus)"
| "publish_all ((now, e) # es) bus =
     (let (r, bus1) = bus_publish now e bus; (rs, bus2) = publish_all es bus1 in (r # rs, bus2))"

definition sequence_of :: "kv_event io_result list \<Rightarrow> nat list" where
  "sequence_of rs = map (\<lambda>r. unat (ev_sequence (projr r))) (filter (\<lambda>r. \<not> isl r) rs)"

lemma bus_publish_sequence:
  "bus_publish now e bus = (r, bus') \<Longrightarrow> bus_next_sequence bus' = bus_next_sequence bus + 1 \<and>
     (\<forall>ev. r = Inr ev \<longrightarrow> ev_sequence ev = sat_add (bus_next_sequence bus) 1 \<and> ev_kind ev = ev_kind e)"
  by (auto simp: bus_publish_def check_then_def Let_def split: sum.splits prod.splits)

lemma publish_all_sequence:
  "publish_all es bus = (rs, bus') \<Longrightarrow> unat (bus_next_sequence bus) + length es < 2 ^ 64 \<Longrightarrow>
   sorted_wrt (<) (sequence_of rs) \<and>
   (\<forall>n\<in>set (sequence_of rs). unat (bus_next_sequence bus) < n \<and> n \<le> unat (bus_next_sequence bus) + length es)"
proof (induction es bus arbitrary: rs bus' rule: publish_all.induct)
  case (2 now e es bus)
  obtain r bus1 where p: "bus_publish now e bus = (r, bus1)" by fastforce
  obtain rs1 bus2 where q: "publish_all es bus1 = (rs1, bus2)" by fastforce
  have rs: "rs = r # rs1" using 2(2) p q by simp
  note seq = bus_publish_sequence [OF p]
  have n: "unat (bus_next_sequence bus1) = unat (bus_next_sequence bus) + 1"
    using seq 2(3) by (simp add: unat_word_ariths)
  have s: "unat (sat_add (bus_next_sequence bus) 1) = unat (bus_next_sequence bus) + 1"
    using 2(3) by (simp add: unat_sat_add)
  have ih: "sorted_wrt (<) (sequence_of rs1) \<and>
     (\<forall>k\<in>set (sequence_of rs1). unat (bus_next_sequence bus1) < k \<and> k \<le> unat (bus_next_sequence bus1) + length es)"
    by (rule 2(1) [OF refl p [symmetric] q]) (use n 2(3) in simp)
  show ?case
  proof (cases r)
    case (Inl err)
    then show ?thesis using ih n by (fastforce simp: rs sequence_of_def)
  next
    case (Inr ev)
    then have "sequence_of rs = (unat (bus_next_sequence bus) + 1) # sequence_of rs1"
      using seq s by (simp add: rs sequence_of_def)
    then show ?thesis using ih n by fastforce
  qed
qed (simp add: sequence_of_def)

text \<open>Events get strictly increasing sequence numbers, in the order of their publication, also across
  clock failures and panicking subscribers; a published event reaches every subscriber, and the failure
  counter grows by the number of callbacks that panicked.
\<close>

theorem publications_are_numbered_and_delivered:
  assumes "publish_all es event_bus_new = (rs, bus)" "length es < 2 ^ 64"
    and "bus_publish (Inr t) e b = (r, b')"
  shows "sorted_wrt (<) (sequence_of rs) \<and>
    map snd (bus_subscribers b') =
      map (\<lambda>(i, sub). sub\<lparr> sub_state := snd (sub_on_event sub (projr r) (sub_state sub)) \<rparr>) (bus_subscribers b) \<and>
    bus_subscriber_failures b' = bus_subscriber_failures b +
      of_nat (length (filter (\<lambda>(i, sub). fst (sub_on_event sub (projr r) (sub_state sub))) (bus_subscribers b)))"
proof -
  have "sorted_wrt (<) (sequence_of rs)"
    using publish_all_sequence [OF assms(1)] assms(2) by (simp add: event_bus_new_def)
  moreover obtain ev where ev: "r = Inr ev"
    "(bus_subscribers b', bus_subscriber_failures b') = deliver ev (bus_subscribers b) (bus_subscriber_failures b)"
    using assms(3) by (auto simp: bus_publish_def Let_def split: prod.splits)
  ultimately show ?thesis
    using deliver_subscribers [of ev "bus_subscribers b" "bus_subscriber_failures b"]
      deliver_failures [of ev "bus_subscribers b" "bus_subscriber_failures b"]
    by (auto simp: ev(1) split_beta simp flip: ev(2))
qed

theorem publications_are_numbered_and_delivered_witness:
  "\<exists>rs bus. publish_all [(Inr 3, kv_event_new KStore EStarted), (Inr 4, kv_event_new KStore ECompleted)]
       (event_bus_new :: metrics event_bus) = (rs, bus) \<and> sorted_wrt (<) (sequence_of rs) \<and> length (sequence_of rs) = 2"
proof -
  let ?p = "publish_all [(Inr 3, kv_event_new KStore EStarted), (Inr 4, kv_event_new KStore ECompleted)]
    (event_bus_new :: metrics event_bus)"
  obtain rs bus where p: "?p = (rs, bus)" by fastforce
  obtain r b' where q: "bus_publish (Inr 3) (kv_event_new KStore EStarted) (event_bus_new :: metrics event_bus) = (r, b')"
    by fastforce
  have "length (sequence_of (fst ?p)) = 2"
    by (simp add: bus_publish_def Let_def sequence_of_def event_bus_new_def)
  moreover have "sorted_wrt (<) (sequence_of rs)"
    using publications_are_numbered_and_delivered [OF p _ q] by simp
  ultimately show ?thesis using p by auto
qed

end
