(* ===== verification/Pipeline.thy ===== *)
theory Pipeline
  imports Events KvCoherence "HOL-Library.Multiset"
begin

text \<open>
  The asynchronous pipeline of \<open>src/async_runtime.rs\<close>: jobs, their execution on the engine, and
  the interleaving of submitting clients and worker threads as a step relation whose steps are the
  atomic actions of the code (an atomic counter, a locked section of the registry, a channel operation).
  The engine calls of one job are one step; the events a worker publishes are not part of the state. The accounting of the pipeline is an invariant of
  every interleaving, and draining it always ends.
\<close>

section \<open>Data\<close>

datatype async_op = AStore | ARetrieve | AMove | APrefetch | AInvalidate | APin | AUnpin | AClear | AHealth

definition async_event_kind :: "async_op \<Rightarrow> kv_event_kind" where
  "async_event_kind op1 = (case op1 of
     AStore \<Rightarrow> KStore | ARetrieve \<Rightarrow> KRetrieve | AMove \<Rightarrow> KMove | APrefetch \<Rightarrow> KPrefetch
   | AInvalidate \<Rightarrow> KInvalidate | APin \<Rightarrow> KPin | AUnpin \<Rightarrow> KUnpin | AClear \<Rightarrow> KClear | AHealth \<Rightarrow> KHealth)"

datatype job_state = JPending | JRunning | JCompleted | JFailed

text \<open>An \<open>AsyncKvError\<close> is the kind and message of the error it was made from.\<close>

record async_result =
  ar_job_id :: u64
  ar_operation :: async_op
  ar_found :: bool
  ar_requested :: u64
  ar_completed :: u64
  ar_missed :: u64
  ar_bytes :: u64
  ar_elapsed_micros :: u64
  ar_blocks :: "kv_block list"
  ar_health :: "kv_tier_health list"

record job_snapshot =
  js_job_id :: u64
  js_operation :: async_op
  js_state :: job_state
  js_result :: "async_result option"
  js_error :: "io_error option"

record pipeline_stats =
  ps_submitted :: u64
  ps_completed :: u64
  ps_failed :: u64
  ps_inflight :: u64

record move_request =
  mv_key :: kv_block_key
  mv_source :: nat
  mv_destination :: nat
  mv_remove_source :: bool

datatype payload =
    PStore "kv_block list" "duration option" bool
  | PRetrieve "kv_block_key list"
  | PMove "move_request list"
  | PPrefetch "kv_block_key list" nat
  | PInvalidate "kv_block_key list"
  | PPin "kv_block_key list" bool
  | PClear
  | PHealth

record job =
  job_id :: u64
  job_operation :: async_op
  job_payload :: payload

section \<open>Requests\<close>

definition invalid_request :: "string \<Rightarrow> 'a io_result" where
  "invalid_request msg = Inl (IoError InvalidInput msg)"

text \<open>The public submissions check their arguments and name the operation of the job.\<close>

definition submit_store :: "kv_block list \<Rightarrow> duration option \<Rightarrow> bool \<Rightarrow> (async_op \<times> payload) io_result" where
  "submit_store blocks ttl pinned =
     (if blocks = [] then invalid_request ''async store requires at least one KV block''
      else Inr (AStore, PStore blocks ttl pinned))"

definition submit_retrieve :: "kv_block_key list \<Rightarrow> (async_op \<times> payload) io_result" where
  "submit_retrieve keys =
     (if keys = [] then invalid_request ''async retrieve requires at least one key'' else Inr (ARetrieve, PRetrieve keys))"

definition submit_move_many :: "kv_block_key list \<Rightarrow> nat \<Rightarrow> nat \<Rightarrow> bool \<Rightarrow> (async_op \<times> payload) io_result" where
  "submit_move_many keys source destination remove_source =
     (if keys = [] then invalid_request ''async move requires at least one key''
      else Inr (AMove, PMove (map (\<lambda>k. \<lparr> mv_key = k, mv_source = source, mv_destination = destination,
                                     mv_remove_source = remove_source \<rparr>) keys)))"

definition submit_move :: "kv_block_key \<Rightarrow> nat \<Rightarrow> nat \<Rightarrow> bool \<Rightarrow> (async_op \<times> payload) io_result" where
  "submit_move k source destination remove_source = submit_move_many [k] source destination remove_source"

definition submit_prefetch :: "kv_block_key list \<Rightarrow> nat \<Rightarrow> (async_op \<times> payload) io_result" where
  "submit_prefetch keys destination =
     (if keys = [] then invalid_request ''async prefetch requires at least one key''
      else Inr (APrefetch, PPrefetch keys destination))"

definition submit_invalidate :: "kv_block_key list \<Rightarrow> (async_op \<times> payload) io_result" where
  "submit_invalidate keys =
     (if keys = [] then invalid_request ''async invalidation requires at least one key''
      else Inr (AInvalidate, PInvalidate keys))"

definition submit_set_pinned :: "kv_block_key list \<Rightarrow> bool \<Rightarrow> (async_op \<times> payload) io_result" where
  "submit_set_pinned keys pinned =
     (if keys = [] then invalid_request ''async pin operation requires at least one key''
      else Inr (if pinned then APin else AUnpin, PPin keys pinned))"

definition submit_clear :: "(async_op \<times> payload) io_result" where
  "submit_clear = Inr (AClear, PClear)"

definition submit_health :: "(async_op \<times> payload) io_result" where
  "submit_health = Inr (AHealth, PHealth)"

section \<open>Execution of a job\<close>

definition async_result_new :: "u64 \<Rightarrow> async_op \<Rightarrow> async_result" where
  "async_result_new i op1 = \<lparr> ar_job_id = i, ar_operation = op1, ar_found = True, ar_requested = 0, ar_completed = 0,
     ar_missed = 0, ar_bytes = 0, ar_elapsed_micros = 0, ar_blocks = [], ar_health = [] \<rparr>"

fun execute_store ::
  "kv_config \<Rightarrow> kv_block list \<Rightarrow> duration option \<Rightarrow> bool \<Rightarrow> async_result \<Rightarrow> 's kv_engine
   \<Rightarrow> async_result io_result \<times> 's kv_engine" where
  "execute_store cfg [] ttl pinned out eng = (Inr out, eng)"
| "execute_store cfg (b # blocks) ttl pinned out eng =
     and_then (engine_put cfg b ttl pinned eng) (\<lambda>_ eng1.
       execute_store cfg blocks ttl pinned
         (out\<lparr> ar_bytes := sat_add (ar_bytes out) (len64 (blk_bytes b)), ar_completed := ar_completed out + 1 \<rparr>) eng1)"

fun execute_retrieve ::
  "kv_config \<Rightarrow> kv_block_key list \<Rightarrow> async_result \<Rightarrow> 's kv_engine \<Rightarrow> async_result io_result \<times> 's kv_engine" where
  "execute_retrieve cfg [] out eng = (Inr out, eng)"
| "execute_retrieve cfg (k # keys) out eng =
     and_then (engine_get cfg k eng) (\<lambda>r eng1.
       execute_retrieve cfg keys
         (case r of
            Some b \<Rightarrow> out\<lparr> ar_bytes := sat_add (ar_bytes out) (len64 (blk_bytes b)), ar_blocks := ar_blocks out @ [b],
                          ar_completed := ar_completed out + 1 \<rparr>
          | None \<Rightarrow> out\<lparr> ar_missed := ar_missed out + 1 \<rparr>) eng1)"

definition count_hit :: "bool \<Rightarrow> async_result \<Rightarrow> async_result" where
  "count_hit hit out =
     (if hit then out\<lparr> ar_completed := ar_completed out + 1 \<rparr> else out\<lparr> ar_missed := ar_missed out + 1 \<rparr>)"

fun execute_move ::
  "kv_config \<Rightarrow> move_request list \<Rightarrow> async_result \<Rightarrow> 's kv_engine \<Rightarrow> async_result io_result \<times> 's kv_engine" where
  "execute_move cfg [] out eng = (Inr out, eng)"
| "execute_move cfg (m # ms) out eng =
     and_then (move_block cfg (mv_key m) (mv_source m) (mv_destination m) (mv_remove_source m) eng) (\<lambda>hit eng1.
       execute_move cfg ms (count_hit hit out) eng1)"

fun execute_invalidate ::
  "kv_block_key list \<Rightarrow> async_result \<Rightarrow> 's kv_engine \<Rightarrow> async_result io_result \<times> 's kv_engine" where
  "execute_invalidate [] out eng = (Inr out, eng)"
| "execute_invalidate (k # keys) out eng =
     and_then (engine_invalidate k eng) (\<lambda>_ eng1.
       execute_invalidate keys (out\<lparr> ar_completed := ar_completed out + 1 \<rparr>) eng1)"

fun execute_pin ::
  "kv_config \<Rightarrow> kv_block_key list \<Rightarrow> bool \<Rightarrow> async_result \<Rightarrow> 's kv_engine \<Rightarrow> async_result io_result \<times> 's kv_engine" where
  "execute_pin cfg [] pinned out eng = (Inr out, eng)"
| "execute_pin cfg (k # keys) pinned out eng =
     and_then (set_pinned cfg k pinned eng) (\<lambda>hit eng1. execute_pin cfg keys pinned (count_hit hit out) eng1)"

definition found_some :: "async_result io_result \<times> 's kv_engine \<Rightarrow> async_result io_result \<times> 's kv_engine" where
  "found_some r = and_then r (\<lambda>out eng. (Inr (out\<lparr> ar_found := ar_completed out > 0 \<rparr>), eng))"

text \<open>
  \<open>prefetch_to\<close> and \<open>wait\<close>: the prefetch runs on a thread of its own, so a panic in it drops the
  channel and is an error of the waiting call.
\<close>

definition prefetch_wait ::
  "kv_config \<Rightarrow> kv_block_key list \<Rightarrow> nat \<Rightarrow> 's kv_engine \<Rightarrow> prefetch_report io_result \<times> 's kv_engine" where
  "prefetch_wait cfg keys destination eng =
     (case prefetch_worker cfg keys destination eng of
        (Inl (Panicked _), eng1) \<Rightarrow> (Inl (IoError BrokenPipe ''KV prefetch worker exited without a result''), eng1)
      | r \<Rightarrow> r)"

definition execute_payload ::
  "kv_config \<Rightarrow> payload \<Rightarrow> async_result \<Rightarrow> 's kv_engine \<Rightarrow> async_result io_result \<times> 's kv_engine" where
  "execute_payload cfg p out eng =
     (case p of
        PStore blocks ttl pinned \<Rightarrow> execute_store cfg blocks ttl pinned (out\<lparr> ar_requested := len64 blocks \<rparr>) eng
      | PRetrieve keys \<Rightarrow> found_some (execute_retrieve cfg keys (out\<lparr> ar_requested := len64 keys \<rparr>) eng)
      | PMove ms \<Rightarrow> found_some (execute_move cfg ms (out\<lparr> ar_requested := len64 ms \<rparr>) eng)
      | PPrefetch keys destination \<Rightarrow>
          and_then (prefetch_wait cfg keys destination eng) (\<lambda>rep eng1.
            (Inr (out\<lparr> ar_requested := rep_requested rep, ar_completed := rep_populated rep,
                      ar_missed := rep_missed rep, ar_found := rep_populated rep > 0 \<rparr>), eng1))
      | PInvalidate keys \<Rightarrow> execute_invalidate keys (out\<lparr> ar_requested := len64 keys \<rparr>) eng
      | PPin keys pinned \<Rightarrow> found_some (execute_pin cfg keys pinned (out\<lparr> ar_requested := len64 keys \<rparr>) eng)
      | PClear \<Rightarrow> and_then (engine_clear eng) (\<lambda>_ eng1. (Inr (out\<lparr> ar_requested := 1, ar_completed := 1 \<rparr>), eng1))
      | PHealth \<Rightarrow>
          (let (health, eng1) = engine_health eng; ok = list_all th_healthy health in
           (Inr (if ok then out\<lparr> ar_requested := 1, ar_health := health, ar_found := True, ar_completed := 1 \<rparr>
                 else out\<lparr> ar_requested := 1, ar_health := health, ar_found := False, ar_missed := 1 \<rparr>), eng1)))"

text \<open>\<open>elapsed\<close> is the reading of the timer at the end, clamped to 64 bits.\<close>

definition execute ::
  "kv_config \<Rightarrow> u64 \<Rightarrow> job \<Rightarrow> 's kv_engine \<Rightarrow> async_result io_result \<times> 's kv_engine" where
  "execute cfg elapsed j eng =
     and_then (execute_payload cfg (job_payload j) (async_result_new (job_id j) (job_operation j)) eng) (\<lambda>out eng1.
       (Inr (out\<lparr> ar_elapsed_micros := elapsed \<rparr>), eng1))"

section \<open>The pipeline\<close>

text \<open>
  A submission goes through the atomic actions of \<open>submit\<close> and \<open>rollback\<close>; a worker holds at
  most one job. \<open>pl_lost\<close> are the jobs whose worker thread unwound.
\<close>

datatype submit_phase = Allocated | Registered | Counted | Sent | Refused io_error | Uncounted io_error

record submission =
  sb_job :: job
  sb_phase :: submit_phase

datatype worker_phase = Taken | Executing | Finished

record worker_job =
  wj_job :: job
  wj_phase :: worker_phase

type_synonym job_table = "(u64 \<times> job_snapshot) list"

record 's pipeline =
  pl_capacity :: nat
  pl_open :: bool
  pl_workers :: nat
  pl_queue :: "job list"
  pl_jobs :: job_table
  pl_next_id :: u64
  pl_submitted :: u64
  pl_completed :: u64
  pl_failed :: u64
  pl_inflight :: u64
  pl_submissions :: "submission multiset"
  pl_held :: "worker_job multiset"
  pl_lost :: "job multiset"
  pl_engine :: "'s kv_engine"

definition pipeline_new :: "'s kv_engine \<Rightarrow> nat \<Rightarrow> nat \<Rightarrow> 's pipeline io_result" where
  "pipeline_new eng worker_threads queue_capacity =
     (if worker_threads = 0 \<or> queue_capacity = 0
      then invalid_request ''async KV pipeline requires non-zero workers and queue capacity''
      else Inr \<lparr> pl_capacity = queue_capacity, pl_open = True, pl_workers = worker_threads, pl_queue = [], pl_jobs = [],
                 pl_next_id = 0, pl_submitted = 0, pl_completed = 0, pl_failed = 0, pl_inflight = 0,
                 pl_submissions = {#}, pl_held = {#}, pl_lost = {#}, pl_engine = eng \<rparr>)"

definition pending_snapshot :: "job \<Rightarrow> job_snapshot" where
  "pending_snapshot j = \<lparr> js_job_id = job_id j, js_operation = job_operation j, js_state = JPending,
     js_result = None, js_error = None \<rparr>"

definition mark_running :: "u64 \<Rightarrow> job_table \<Rightarrow> job_table" where
  "mark_running i jobs =
     (case map_of jobs i of None \<Rightarrow> jobs | Some snap \<Rightarrow> btree_insert i (snap\<lparr> js_state := JRunning \<rparr>) jobs)"

definition finished_snapshot :: "job \<Rightarrow> async_result io_result \<Rightarrow> job_snapshot" where
  "finished_snapshot j r =
     (case r of
        Inr out \<Rightarrow> \<lparr> js_job_id = job_id j, js_operation = job_operation j, js_state = JCompleted,
                     js_result = Some out, js_error = None \<rparr>
      | Inl e \<Rightarrow> \<lparr> js_job_id = job_id j, js_operation = job_operation j, js_state = JFailed,
                   js_result = None, js_error = Some e \<rparr>)"

text \<open>The locked part of \<open>mark_finished\<close>; the in-flight counter follows in a step of its own.\<close>

definition mark_finished :: "job \<Rightarrow> async_result io_result \<Rightarrow> 's pipeline \<Rightarrow> 's pipeline" where
  "mark_finished j r s =
     s\<lparr> pl_jobs := btree_insert (job_id j) (finished_snapshot j r) (pl_jobs s),
        pl_completed := (if isl r then pl_completed s else pl_completed s + 1),
        pl_failed := (if isl r then pl_failed s + 1 else pl_failed s) \<rparr>"

definition terminal :: "job_snapshot \<Rightarrow> bool" where
  "terminal snap \<longleftrightarrow> js_state snap = JCompleted \<or> js_state snap = JFailed"

definition job_snapshot_of :: "u64 \<Rightarrow> 's pipeline \<Rightarrow> job_snapshot option" where
  "job_snapshot_of i s = map_of (pl_jobs s) i"

definition job_take :: "u64 \<Rightarrow> 's pipeline \<Rightarrow> job_snapshot option \<times> 's pipeline" where
  "job_take i s =
     (case map_of (pl_jobs s) i of
        None \<Rightarrow> (None, s)
      | Some snap \<Rightarrow>
          (Some snap, if terminal snap then s\<lparr> pl_jobs := [p \<leftarrow> pl_jobs s. fst p \<noteq> i] \<rparr> else s))"

definition pipeline_idle :: "'s pipeline \<Rightarrow> bool" where
  "pipeline_idle s = (pl_inflight s = 0)"

definition stats_of :: "'s pipeline \<Rightarrow> pipeline_stats" where
  "stats_of s = \<lparr> ps_submitted = pl_submitted s, ps_completed = pl_completed s, ps_failed = pl_failed s,
     ps_inflight = pl_inflight s \<rparr>"

text \<open>Why \<open>try_send\<close> refuses a job, if it does.\<close>

definition refusal :: "'s pipeline \<Rightarrow> io_error option" where
  "refusal s =
     (if \<not> pl_open s then Some (IoError BrokenPipe ''async KV pipeline is shut down'')
      else if pl_workers s = 0 then Some (IoError BrokenPipe ''async KV pipeline workers are unavailable'')
      else if length (pl_queue s) \<ge> pl_capacity s then Some (IoError WouldBlock ''async KV pipeline queue is full'')
      else None)"

section \<open>Clients\<close>

text \<open>Identifiers are assumed not to run out: a pipeline takes fewer than \<open>2 ^ 64 - 1\<close> submissions.\<close>

inductive client_step :: "'s pipeline \<Rightarrow> 's pipeline \<Rightarrow> bool" where
  allocate: "pl_next_id s < - 1 \<Longrightarrow>
     j = \<lparr> job_id = sat_add (pl_next_id s) 1, job_operation = op1, job_payload = p \<rparr> \<Longrightarrow>
     client_step s (s\<lparr> pl_next_id := pl_next_id s + 1,
       pl_submissions := add_mset \<lparr> sb_job = j, sb_phase = Allocated \<rparr> (pl_submissions s) \<rparr>)"
| register: "pl_submissions s = add_mset \<lparr> sb_job = j, sb_phase = Allocated \<rparr> rest \<Longrightarrow>
     client_step s (s\<lparr> pl_jobs := btree_insert (job_id j) (pending_snapshot j) (pl_jobs s),
       pl_submissions := add_mset \<lparr> sb_job = j, sb_phase = Registered \<rparr> rest \<rparr>)"
| count_in: "pl_submissions s = add_mset \<lparr> sb_job = j, sb_phase = Registered \<rparr> rest \<Longrightarrow>
     client_step s (s\<lparr> pl_inflight := pl_inflight s + 1,
       pl_submissions := add_mset \<lparr> sb_job = j, sb_phase = Counted \<rparr> rest \<rparr>)"
| send: "pl_submissions s = add_mset \<lparr> sb_job = j, sb_phase = Counted \<rparr> rest \<Longrightarrow> refusal s = None \<Longrightarrow>
     client_step s (s\<lparr> pl_queue := pl_queue s @ [j],
       pl_submissions := add_mset \<lparr> sb_job = j, sb_phase = Sent \<rparr> rest \<rparr>)"
| refuse: "pl_submissions s = add_mset \<lparr> sb_job = j, sb_phase = Counted \<rparr> rest \<Longrightarrow> refusal s = Some e \<Longrightarrow>
     client_step s (s\<lparr> pl_submissions := add_mset \<lparr> sb_job = j, sb_phase = Refused e \<rparr> rest \<rparr>)"
| uncount: "pl_submissions s = add_mset \<lparr> sb_job = j, sb_phase = Refused e \<rparr> rest \<Longrightarrow>
     client_step s (s\<lparr> pl_inflight := pl_inflight s - 1,
       pl_submissions := add_mset \<lparr> sb_job = j, sb_phase = Uncounted e \<rparr> rest \<rparr>)"
| forget: "pl_submissions s = add_mset \<lparr> sb_job = j, sb_phase = Uncounted e \<rparr> rest \<Longrightarrow>
     client_step s (s\<lparr> pl_jobs := [q \<leftarrow> pl_jobs s. fst q \<noteq> job_id j], pl_submissions := rest \<rparr>)"
| accept: "pl_submissions s = add_mset \<lparr> sb_job = j, sb_phase = Sent \<rparr> rest \<Longrightarrow>
     client_step s (s\<lparr> pl_submitted := pl_submitted s + 1, pl_submissions := rest \<rparr>)"
| take_job: "job_take i s = (r, s') \<Longrightarrow> client_step s s'"
| close: "pl_submissions s = {#} \<Longrightarrow> client_step s (s\<lparr> pl_open := False \<rparr>)"

section \<open>Workers\<close>

definition panicked :: "async_result io_result \<Rightarrow> bool" where
  "panicked r \<longleftrightarrow> (\<exists>msg. r = Inl (Panicked msg))"

inductive worker_step :: "kv_config \<Rightarrow> 's pipeline \<Rightarrow> 's pipeline \<Rightarrow> bool" for cfg where
  receive: "pl_queue s = j # queue \<Longrightarrow> size (pl_held s) < pl_workers s \<Longrightarrow>
     worker_step cfg s (s\<lparr> pl_queue := queue, pl_held := add_mset \<lparr> wj_job = j, wj_phase = Taken \<rparr> (pl_held s) \<rparr>)"
| start: "pl_held s = add_mset \<lparr> wj_job = j, wj_phase = Taken \<rparr> rest \<Longrightarrow>
     worker_step cfg s (s\<lparr> pl_jobs := mark_running (job_id j) (pl_jobs s),
       pl_held := add_mset \<lparr> wj_job = j, wj_phase = Executing \<rparr> rest \<rparr>)"
| finish: "pl_held s = add_mset \<lparr> wj_job = j, wj_phase = Executing \<rparr> rest \<Longrightarrow>
     execute cfg elapsed j (pl_engine s) = (r, eng') \<Longrightarrow> \<not> panicked r \<Longrightarrow>
     worker_step cfg s ((mark_finished j r s)\<lparr> pl_engine := eng',
       pl_held := add_mset \<lparr> wj_job = j, wj_phase = Finished \<rparr> rest \<rparr>)"
| die: "pl_held s = add_mset \<lparr> wj_job = j, wj_phase = Executing \<rparr> rest \<Longrightarrow>
     execute cfg elapsed j (pl_engine s) = (r, eng') \<Longrightarrow> panicked r \<Longrightarrow>
     worker_step cfg s (s\<lparr> pl_engine := eng', pl_held := rest, pl_workers := pl_workers s - 1,
       pl_lost := add_mset j (pl_lost s) \<rparr>)"
| retire: "pl_held s = add_mset \<lparr> wj_job = j, wj_phase = Finished \<rparr> rest \<Longrightarrow>
     worker_step cfg s (s\<lparr> pl_inflight := pl_inflight s - 1, pl_held := rest \<rparr>)"
| exit: "\<not> pl_open s \<Longrightarrow> pl_queue s = [] \<Longrightarrow> size (pl_held s) < pl_workers s \<Longrightarrow>
     worker_step cfg s (s\<lparr> pl_workers := pl_workers s - 1 \<rparr>)"

inductive pipeline_reachable :: "kv_config \<Rightarrow> 's pipeline \<Rightarrow> bool" for cfg where
  created: "pipeline_new eng workers capacity = Inr s \<Longrightarrow> pipeline_reachable cfg s"
| client: "pipeline_reachable cfg s \<Longrightarrow> client_step s s' \<Longrightarrow> pipeline_reachable cfg s'"
| worker: "pipeline_reachable cfg s \<Longrightarrow> worker_step cfg s s' \<Longrightarrow> pipeline_reachable cfg s'"

inductive_cases client_stepE: "client_step s s'"
inductive_cases worker_stepE: "worker_step cfg s s'"

section \<open>The counters\<close>

fun counted :: "submit_phase \<Rightarrow> bool" where
  "counted Counted = True"
| "counted (Refused _) = True"
| "counted _ = False"

definition n_subs :: "(submit_phase \<Rightarrow> bool) \<Rightarrow> submission multiset \<Rightarrow> nat" where
  "n_subs P M = size {#x \<in># M. P (sb_phase x)#}"

definition n_held :: "(worker_phase \<Rightarrow> bool) \<Rightarrow> worker_job multiset \<Rightarrow> nat" where
  "n_held P M = size {#x \<in># M. P (wj_phase x)#}"

lemma n_subs_simps [simp]:
  "n_subs P {#} = 0" "n_subs P (add_mset x M) = (if P (sb_phase x) then 1 else 0) + n_subs P M"
  by (simp_all add: n_subs_def)

lemma n_held_simps [simp]:
  "n_held P {#} = 0" "n_held P (add_mset x M) = (if P (wj_phase x) then 1 else 0) + n_held P M"
  by (simp_all add: n_held_def)

definition counters_ok :: "'s pipeline \<Rightarrow> bool" where
  "counters_ok s \<longleftrightarrow>
     unat (pl_inflight s) = n_subs counted (pl_submissions s) + length (pl_queue s) + size (pl_held s) + size (pl_lost s) \<and>
     unat (pl_submitted s) + n_subs (\<lambda>p. p = Sent) (pl_submissions s) =
       length (pl_queue s) + n_held (\<lambda>p. p \<noteq> Finished) (pl_held s) + size (pl_lost s) +
       unat (pl_completed s) + unat (pl_failed s) \<and>
     n_held (\<lambda>p. p = Finished) (pl_held s) \<le> unat (pl_completed s) + unat (pl_failed s) \<and>
     unat (pl_submitted s) + size (pl_submissions s) \<le> unat (pl_next_id s)"

lemma n_subs_le: "n_subs counted M + n_subs (\<lambda>p. p = Sent) M \<le> size M"
  by (induction M) auto

lemma n_held_split: "size M = n_held (\<lambda>p. p = Finished) M + n_held (\<lambda>p. p \<noteq> Finished) M"
  by (induction M) auto

lemma unat_inc: "unat (a :: u64) + 1 < 2 ^ 64 \<Longrightarrow> unat (a + 1) = unat a + 1"
  by (simp add: unat_word_ariths)

lemma unat_dec: "0 < unat (a :: u64) \<Longrightarrow> unat (a - 1) = unat a - 1"
  by (simp add: unat_sub word_le_nat_alt)

lemma counters_bound:
  assumes "counters_ok s"
  shows "unat (pl_inflight s) \<le> n_subs counted (pl_submissions s) + n_subs (\<lambda>p. p = Sent) (pl_submissions s) + unat (pl_submitted s)"
    and "unat (pl_completed s) + unat (pl_failed s) + n_held (\<lambda>p. p \<noteq> Finished) (pl_held s) \<le>
      unat (pl_submitted s) + size (pl_submissions s)"
    and "unat (pl_submitted s) + size (pl_submissions s) < 2 ^ 64"
  using assms n_subs_le [of "pl_submissions s"] n_held_split [of "pl_held s"] unat64_bound [of "pl_next_id s"]
  by (auto simp: counters_ok_def)

lemma client_step_counters:
  assumes "client_step s s'" "counters_ok s"
  shows "counters_ok s'"
  using assms(1)
proof (cases rule: client_step.cases)
  case (allocate j op1 p)
  have "unat (pl_next_id s + 1) = unat (pl_next_id s) + 1"
    using allocate(2) by (intro unat_inc) (simp add: word_less_nat_alt unsigned_minus_1_eq_mask mask_eq_exp_minus_1)
  with assms(2) allocate show ?thesis by (simp add: counters_ok_def)
next
  case (count_in j rest)
  have "unat (pl_inflight s) + 1 < 2 ^ 64"
    using counters_bound [OF assms(2)] n_subs_le [of rest] count_in by simp
  then have "unat (pl_inflight s + 1) = unat (pl_inflight s) + 1" by (rule unat_inc)
  with assms(2) count_in show ?thesis by (simp add: counters_ok_def)
next
  case (uncount j e rest)
  have "unat (pl_inflight s - 1) = unat (pl_inflight s) - 1"
    using assms(2) uncount by (intro unat_dec) (simp add: counters_ok_def)
  with assms(2) uncount show ?thesis by (simp add: counters_ok_def)
next
  case (accept j rest)
  have "unat (pl_submitted s) + 1 < 2 ^ 64" using counters_bound(3) [OF assms(2)] accept by simp
  then have "unat (pl_submitted s + 1) = unat (pl_submitted s) + 1" by (rule unat_inc)
  with assms(2) accept show ?thesis by (simp add: counters_ok_def)
qed (use assms(2) in \<open>auto simp: counters_ok_def job_take_def split: option.splits if_splits\<close>)

lemma worker_step_counters:
  assumes "worker_step cfg s s'" "counters_ok s"
  shows "counters_ok s'"
  using assms(1)
proof (cases rule: worker_step.cases)
  case (finish j rest elapsed r eng')
  have b: "unat (pl_completed s) + 1 < 2 ^ 64" "unat (pl_failed s) + 1 < 2 ^ 64"
    using counters_bound(2,3) [OF assms(2)] finish by simp_all
  then have "unat (pl_completed s + 1) = unat (pl_completed s) + 1" "unat (pl_failed s + 1) = unat (pl_failed s) + 1"
    by (simp_all only: unat_inc)
  with assms(2) finish show ?thesis by (simp add: counters_ok_def mark_finished_def)
next
  case (retire j rest)
  have "unat (pl_inflight s - 1) = unat (pl_inflight s) - 1"
    using assms(2) retire by (intro unat_dec) (simp add: counters_ok_def)
  with assms(2) retire show ?thesis by (simp add: counters_ok_def)
qed (use assms(2) in \<open>auto simp: counters_ok_def\<close>)

lemma reachable_counters: "pipeline_reachable cfg s \<Longrightarrow> counters_ok s"
proof (induction rule: pipeline_reachable.induct)
  case (created eng workers capacity s)
  then show ?case by (auto simp: pipeline_new_def invalid_request_def counters_ok_def split: if_splits)
qed (blast intro: client_step_counters worker_step_counters)+

section \<open>The registry\<close>

text \<open>
  The jobs the pipeline is responsible for, by identifier: those of submissions that have not sent
  them, the queued ones, the ones a worker has not finished, and the lost ones. All but those not yet
  registered have a non-terminal entry in the registry.
\<close>

definition sub_ids :: "(submit_phase \<Rightarrow> bool) \<Rightarrow> submission multiset \<Rightarrow> u64 multiset" where
  "sub_ids P M = image_mset (\<lambda>x. job_id (sb_job x)) {#x \<in># M. P (sb_phase x)#}"

definition held_ids :: "worker_job multiset \<Rightarrow> u64 multiset" where
  "held_ids M = image_mset (\<lambda>x. job_id (wj_job x)) {#x \<in># M. wj_phase x \<noteq> Finished#}"

definition past_submit :: "'s pipeline \<Rightarrow> u64 multiset" where
  "past_submit s = mset (map job_id (pl_queue s)) + held_ids (pl_held s) + image_mset job_id (pl_lost s)"

definition owned_ids :: "'s pipeline \<Rightarrow> u64 multiset" where
  "owned_ids s = sub_ids (\<lambda>p. p = Allocated) (pl_submissions s) +
     sub_ids (\<lambda>p. p \<noteq> Allocated \<and> p \<noteq> Sent) (pl_submissions s) + past_submit s"

definition registered_ids :: "'s pipeline \<Rightarrow> u64 multiset" where
  "registered_ids s = sub_ids (\<lambda>p. p \<noteq> Allocated \<and> p \<noteq> Sent) (pl_submissions s) + past_submit s"

definition pending_in :: "job_table \<Rightarrow> u64 \<Rightarrow> bool" where
  "pending_in jobs i \<longleftrightarrow> (\<exists>snap. map_of jobs i = Some snap \<and> \<not> terminal snap)"

definition registry_ok :: "'s pipeline \<Rightarrow> bool" where
  "registry_ok s \<longleftrightarrow>
     (\<forall>i. count (owned_ids s) i \<le> 1) \<and> (\<forall>i \<in># owned_ids s. i \<le> pl_next_id s) \<and>
     (\<forall>i. pending_in (pl_jobs s) i \<longleftrightarrow> i \<in># registered_ids s)"

lemma sub_ids_simps [simp]:
  "sub_ids P {#} = {#}"
  "sub_ids P (add_mset x M) = (if P (sb_phase x) then {#job_id (sb_job x)#} else {#}) + sub_ids P M"
  by (simp_all add: sub_ids_def)

lemma held_ids_simps [simp]:
  "held_ids {#} = {#}"
  "held_ids (add_mset x M) = (if wj_phase x \<noteq> Finished then {#job_id (wj_job x)#} else {#}) + held_ids M"
  by (simp_all add: held_ids_def)

lemma not_terminal_pending [simp]: "\<not> terminal (pending_snapshot j)"
  by (simp add: terminal_def pending_snapshot_def)

lemma terminal_finished [simp]: "terminal (finished_snapshot j r)"
  by (simp add: terminal_def finished_snapshot_def split: sum.splits)

lemma pending_in_insert [simp]:
  "pending_in (btree_insert k snap jobs) i \<longleftrightarrow> (if i = k then \<not> terminal snap else pending_in jobs i)"
  by (simp add: pending_in_def)

lemma map_of_filter_key: "map_of [q \<leftarrow> m. fst q \<noteq> k] i = (if i = k then None else map_of m i)"
  by (induction m) auto

lemma pending_in_remove [simp]:
  "pending_in [q \<leftarrow> jobs. fst q \<noteq> k] i \<longleftrightarrow> i \<noteq> k \<and> pending_in jobs i"
  by (simp add: pending_in_def map_of_filter_key)

lemma pending_in_running: "pending_in jobs k \<Longrightarrow> pending_in (mark_running k jobs) i \<longleftrightarrow> pending_in jobs i"
  by (auto simp: pending_in_def mark_running_def terminal_def split: option.splits)

lemmas registry_simps = registry_ok_def owned_ids_def registered_ids_def past_submit_def

lemma below_all_not_owned:
  assumes "\<forall>i \<in># M. i \<le> n" "n < - 1"
  shows "n + 1 \<notin># M" and "\<forall>i \<in># M. i \<le> n + (1 :: u64)"
proof -
  have "unat n + 1 < 2 ^ 64"
    using assms(2) by (simp add: word_less_nat_alt unsigned_minus_1_eq_mask mask_eq_exp_minus_1)
  then have "n < n + 1" by (simp add: word_less_nat_alt unat_inc)
  with assms(1) show "n + 1 \<notin># M" "\<forall>i \<in># M. i \<le> n + 1" by (auto dest: order.strict_trans1 order.strict_implies_order)
qed

lemma sat_add_one: "n < - 1 \<Longrightarrow> sat_add n (1 :: u64) = n + 1"
proof -
  assume "n < - 1"
  then have "- 1 - n \<noteq> 0" by auto
  then have "1 \<le> - 1 - n" by (metis unat_gt_0 word_le_nat_alt unat_1 less_eq_Suc_le One_nat_def)
  then show ?thesis by (simp add: sat_add_def)
qed

lemma owned_once: "count M x \<le> 1 \<Longrightarrow> M = add_mset x N \<Longrightarrow> x \<notin># N"
  by (simp add: not_in_iff)

lemma registry_shrink:
  assumes "owned_ids s' \<subseteq># owned_ids s" "pl_next_id s' = pl_next_id s" "registry_ok s"
    and "\<And>i. pending_in (pl_jobs s') i \<longleftrightarrow> i \<in># registered_ids s'"
  shows "registry_ok s'"
  using assms mset_subset_eq_count [OF assms(1)] mset_subset_eqD [OF assms(1)]
  by (metis (no_types, lifting) le_trans registry_ok_def)

lemma job_take_pending:
  assumes "job_take i s = (r, s')"
  obtains jobs where "s' = s\<lparr> pl_jobs := jobs \<rparr>" "\<And>k. pending_in jobs k \<longleftrightarrow> pending_in (pl_jobs s) k"
proof (cases "s' = s")
  case True
  show ?thesis by (rule that [of "pl_jobs s"]) (simp_all add: True)
next
  case False
  with assms obtain snap where "map_of (pl_jobs s) i = Some snap" "terminal snap"
      "s' = s\<lparr> pl_jobs := [p \<leftarrow> pl_jobs s. fst p \<noteq> i] \<rparr>"
    by (auto simp: job_take_def split: option.splits if_splits)
  then show ?thesis by (intro that [of "[p \<leftarrow> pl_jobs s. fst p \<noteq> i]"]) (auto simp: pending_in_def map_of_filter_key)
qed

lemma client_step_registry:
  assumes "client_step s s'" "registry_ok s"
  shows "registry_ok s'"
  using assms(1)
proof (cases rule: client_step.cases)
  case (allocate j op1 p)
  have "job_id j = pl_next_id s + 1"
    using allocate by (simp add: sat_add_one)
  moreover have "pl_next_id s + 1 \<notin># owned_ids s" "\<forall>i \<in># owned_ids s. i \<le> pl_next_id s + 1"
    using below_all_not_owned [of "owned_ids s" "pl_next_id s"] assms(2) allocate by (auto simp: registry_ok_def)
  ultimately show ?thesis using assms(2) allocate by (auto simp: registry_simps not_in_iff)
next
  case (register j rest)
  then show ?thesis using assms(2) by (auto simp: registry_simps)
next
  case (forget j e rest)
  have "count (owned_ids s) (job_id j) \<le> 1" using assms(2) by (simp add: registry_ok_def)
  with forget have "job_id j \<notin># sub_ids (\<lambda>p. p \<noteq> Allocated \<and> p \<noteq> Sent) rest + past_submit s"
    by (simp add: owned_ids_def not_in_iff)
  then have free: "job_id j \<notin># registered_ids s'" using forget by (simp add: registered_ids_def past_submit_def)
  show ?thesis
  proof (rule registry_shrink [OF _ _ assms(2)])
    show "pending_in (pl_jobs s') i \<longleftrightarrow> i \<in># registered_ids s'" for i
      using assms(2) forget free by (cases "i = job_id j") (simp_all add: registered_ids_def past_submit_def registry_ok_def)
  qed (use forget in \<open>simp_all add: owned_ids_def past_submit_def\<close>)
next
  case (take_job i r)
  from job_take_pending [OF take_job] obtain jobs
    where "s' = s\<lparr> pl_jobs := jobs \<rparr>" "\<And>k. pending_in jobs k \<longleftrightarrow> pending_in (pl_jobs s) k" by blast
  with assms(2) show ?thesis by (simp add: registry_simps)
qed (use assms(2) in \<open>auto simp: registry_simps\<close>)

lemma worker_step_registry:
  assumes "worker_step cfg s s'" "registry_ok s"
  shows "registry_ok s'"
  using assms(1)
proof (cases rule: worker_step.cases)
  case (start j rest)
  then have "pending_in (pl_jobs s) (job_id j)" using assms(2) by (auto simp: registry_simps)
  with start assms(2) show ?thesis by (auto simp: registry_simps pending_in_running)
next
  case (finish j rest elapsed r eng')
  have "count (owned_ids s) (job_id j) \<le> 1" using assms(2) by (simp add: registry_ok_def)
  from owned_once [OF this, of "sub_ids (\<lambda>p. p = Allocated) (pl_submissions s) +
      (sub_ids (\<lambda>p. p \<noteq> Allocated \<and> p \<noteq> Sent) (pl_submissions s) +
       (mset (map job_id (pl_queue s)) + held_ids rest + image_mset job_id (pl_lost s)))"] finish
  have "job_id j \<notin># sub_ids (\<lambda>p. p \<noteq> Allocated \<and> p \<noteq> Sent) (pl_submissions s) +
      (mset (map job_id (pl_queue s)) + held_ids rest + image_mset job_id (pl_lost s))"
    by (simp add: owned_ids_def past_submit_def)
  with finish have free: "job_id j \<notin># registered_ids s'"
    by (simp add: registered_ids_def past_submit_def mark_finished_def)
  show ?thesis
  proof (rule registry_shrink [OF _ _ assms(2)])
    show "pending_in (pl_jobs s') i \<longleftrightarrow> i \<in># registered_ids s'" for i
      using assms(2) finish free by (cases "i = job_id j") (simp_all add: registered_ids_def past_submit_def registry_ok_def mark_finished_def)
  qed (use finish in \<open>simp_all add: owned_ids_def past_submit_def mark_finished_def\<close>)
qed (use assms(2) in \<open>auto simp: registry_simps\<close>)

lemma reachable_registry: "pipeline_reachable cfg s \<Longrightarrow> registry_ok s"
proof (induction rule: pipeline_reachable.induct)
  case (created eng workers capacity s)
  then show ?case
    by (auto simp: pipeline_new_def invalid_request_def registry_simps pending_in_def split: if_splits)
qed (blast intro: client_step_registry worker_step_registry)+

section \<open>Draining\<close>

definition phase_work :: "worker_phase \<Rightarrow> nat" where
  "phase_work p = (case p of Taken \<Rightarrow> 3 | Executing \<Rightarrow> 2 | Finished \<Rightarrow> 1)"

definition work_left :: "'s pipeline \<Rightarrow> nat" where
  "work_left s = 4 * length (pl_queue s) + (\<Sum>x \<in># pl_held s. phase_work (wj_phase x)) + pl_workers s"

lemma worker_step_work:
  assumes "worker_step cfg s s'"
  shows "work_left s' < work_left s"
  using assms by cases (auto simp: work_left_def phase_work_def mark_finished_def)

lemma worker_step_staffed: "worker_step cfg s s' \<Longrightarrow> size (pl_held s) \<le> pl_workers s \<Longrightarrow> size (pl_held s') \<le> pl_workers s'"
  by (cases rule: worker_step.cases) (auto simp: mark_finished_def)

lemma client_step_staffed: "client_step s s' \<Longrightarrow> size (pl_held s) \<le> pl_workers s \<Longrightarrow> size (pl_held s') \<le> pl_workers s'"
  by (cases rule: client_step.cases) (auto simp: job_take_def split: option.splits if_splits)

lemma reachable_staffed: "pipeline_reachable cfg s \<Longrightarrow> size (pl_held s) \<le> pl_workers s"
proof (induction rule: pipeline_reachable.induct)
  case (created eng workers capacity s)
  then show ?case by (auto simp: pipeline_new_def invalid_request_def split: if_splits)
qed (blast intro: client_step_staffed worker_step_staffed)+

lemma worker_blocked:
  assumes "\<And>s'. \<not> worker_step cfg s s'"
  shows "pl_held s = {#} \<and> (pl_queue s = [] \<or> pl_workers s = 0)"
proof (cases "pl_held s")
  case empty
  show ?thesis
  proof (cases "pl_queue s")
    case (Cons j queue)
    with empty assms worker_step.receive [of s j queue cfg] show ?thesis by auto
  qed (simp add: empty)
next
  case (add w rest)
  show ?thesis
  proof (cases "wj_phase w")
    case Taken
    with add assms worker_step.start [of s "wj_job w" rest cfg] show ?thesis by (cases w) auto
  next
    case Executing
    obtain r eng' where "execute cfg 0 (wj_job w) (pl_engine s) = (r, eng')" by fastforce
    with Executing add assms worker_step.finish [of s "wj_job w" rest cfg 0 r eng']
      worker_step.die [of s "wj_job w" rest cfg 0 r eng'] show ?thesis by (cases w) auto
  next
    case Finished
    with add assms worker_step.retire [of s "wj_job w" rest cfg] show ?thesis by (cases w) auto
  qed
qed

lemma worker_steps_drain:
  "size (pl_held s) \<le> pl_workers s \<Longrightarrow>
     \<exists>s'. (worker_step cfg)\<^sup>*\<^sup>* s s' \<and> pl_held s' = {#} \<and> (pl_queue s' = [] \<or> pl_workers s' = 0)"
proof (induction "work_left s" arbitrary: s rule: less_induct)
  case less
  show ?case
  proof (cases "\<exists>s1. worker_step cfg s s1")
    case True
    then obtain s1 where step: "worker_step cfg s s1" ..
    from less.hyps [OF worker_step_work [OF step] worker_step_staffed [OF step less.prems]] step
    show ?thesis by (blast intro: converse_rtranclp_into_rtranclp)
  next
    case False
    then show ?thesis using worker_blocked by blast
  qed
qed

section \<open>Properties\<close>

lemma reachable_client_steps: "client_step\<^sup>*\<^sup>* s s' \<Longrightarrow> pipeline_reachable cfg s \<Longrightarrow> pipeline_reachable cfg s'"
  by (induction rule: rtranclp_induct) (blast intro: pipeline_reachable.client)+

lemma reachable_worker_steps: "(worker_step cfg)\<^sup>*\<^sup>* s s' \<Longrightarrow> pipeline_reachable cfg s \<Longrightarrow> pipeline_reachable cfg s'"
  by (induction rule: rtranclp_induct) (blast intro: pipeline_reachable.worker)+

text \<open>A run used by the witnesses: one client submits a job and a worker takes it up.\<close>

definition demo_job :: job where
  "demo_job = \<lparr> job_id = 1, job_operation = AInvalidate, job_payload = PInvalidate [demo_key] \<rparr>"

definition panicking_engine :: "unit cache kv_engine" where
  "panicking_engine = demo_engine\<lparr> eng_tiers := [(demo_tier\<lparr> kt_remove := \<lambda>_ c. (Inl (Panicked ''poisoned''), c) \<rparr>, demo_cache)] \<rparr>"

definition demo_executing :: "unit cache kv_engine \<Rightarrow> unit cache pipeline" where
  "demo_executing eng = \<lparr> pl_capacity = 1, pl_open = True, pl_workers = 1, pl_queue = [],
     pl_jobs = [(1, (pending_snapshot demo_job)\<lparr> js_state := JRunning \<rparr>)],
     pl_next_id = 1, pl_submitted = 1, pl_completed = 0, pl_failed = 0, pl_inflight = 1,
     pl_submissions = {#}, pl_held = {#\<lparr> wj_job = demo_job, wj_phase = Executing \<rparr>#}, pl_lost = {#}, pl_engine = eng \<rparr>"

lemma demo_executing_reachable: "pipeline_reachable cfg (demo_executing eng)"
proof -
  define s0 where "s0 = \<lparr> pl_capacity = 1, pl_open = True, pl_workers = 1, pl_queue = [], pl_jobs = [],
     pl_next_id = 0, pl_submitted = 0, pl_completed = 0, pl_failed = 0, pl_inflight = 0,
     pl_submissions = {#}, pl_held = {#}, pl_lost = {#}, pl_engine = eng \<rparr>"
  define s1 where "s1 = s0\<lparr> pl_next_id := 1, pl_submissions := {#\<lparr> sb_job = demo_job, sb_phase = Allocated \<rparr>#} \<rparr>"
  define s2 where "s2 = s1\<lparr> pl_jobs := [(1, pending_snapshot demo_job)],
     pl_submissions := {#\<lparr> sb_job = demo_job, sb_phase = Registered \<rparr>#} \<rparr>"
  define s3 where "s3 = s2\<lparr> pl_inflight := 1, pl_submissions := {#\<lparr> sb_job = demo_job, sb_phase = Counted \<rparr>#} \<rparr>"
  define s4 where "s4 = s3\<lparr> pl_queue := [demo_job], pl_submissions := {#\<lparr> sb_job = demo_job, sb_phase = Sent \<rparr>#} \<rparr>"
  define s5 where "s5 = s4\<lparr> pl_submitted := 1, pl_submissions := {#} \<rparr>"
  define s6 where "s6 = s5\<lparr> pl_queue := [], pl_held := {#\<lparr> wj_job = demo_job, wj_phase = Taken \<rparr>#} \<rparr>"
  note defs = s0_def s1_def s2_def s3_def s4_def s5_def s6_def
  have "pipeline_reachable cfg s0" by (rule created [of eng 1 1]) (simp add: s0_def pipeline_new_def)
  moreover have "client_step s0 s1"
    using client_step.allocate [of s0 demo_job AInvalidate "PInvalidate [demo_key]"]
    by (simp add: defs demo_job_def sat_add_def word_gt_0)
  moreover have "client_step s1 s2" using client_step.register [of s1 demo_job "{#}"] by (simp add: defs demo_job_def)
  moreover have "client_step s2 s3" using client_step.count_in [of s2 demo_job "{#}"] by (simp add: defs)
  moreover have "client_step s3 s4" using client_step.send [of s3 demo_job "{#}"] by (simp add: defs refusal_def)
  moreover have "client_step s4 s5" using client_step.accept [of s4 demo_job "{#}"] by (simp add: defs)
  moreover have "worker_step cfg s5 s6" using worker_step.receive [of s5 demo_job "[]" cfg] by (simp add: defs)
  moreover have "worker_step cfg s6 (demo_executing eng)"
    using worker_step.start [of s6 demo_job "{#}" cfg]
    by (simp add: defs demo_executing_def mark_running_def demo_job_def)
  ultimately show ?thesis by (meson pipeline_reachable.client pipeline_reachable.worker)
qed

text \<open>C19:
  An idle pipeline has settled every job. In every state the interleaved clients and workers can reach in
  which \<open>finish\<close> sees no job in flight and no submission is in progress, the queue is empty,
  no worker holds or lost a job, every submitted job is counted once as completed or failed, and every
  job still in the registry is in a terminal state.
\<close>

theorem idle_pipeline_has_settled_every_job:
  assumes "pipeline_reachable cfg s" "pipeline_idle s" "pl_submissions s = {#}"
  shows "pl_queue s = [] \<and> pl_held s = {#} \<and> pl_lost s = {#} \<and>
    unat (pl_submitted s) = unat (pl_completed s) + unat (pl_failed s) \<and>
    (\<forall>snap \<in> ran (map_of (pl_jobs s)). terminal snap)"
proof -
  note c = reachable_counters [OF assms(1)] and r = reachable_registry [OF assms(1)]
  have settled: "pl_queue s = []" "pl_held s = {#}" "pl_lost s = {#}"
    using c assms(2,3) by (simp_all add: counters_ok_def pipeline_idle_def)
  then have "registered_ids s = {#}" using assms(3) by (simp add: registered_ids_def past_submit_def)
  then have "\<not> pending_in (pl_jobs s) i" for i using r by (simp add: registry_ok_def)
  then show ?thesis using c settled assms(3) by (auto simp: counters_ok_def pending_in_def ran_def)
qed

lemma demo_job_finishes:
  obtains r eng' where "execute demo_kv_config 0 demo_job demo_engine = (Inr r, eng')"
proof -
  have "\<not> isl (fst (engine_invalidate demo_key demo_engine))" by code_simp
  then obtain eng' where "engine_invalidate demo_key demo_engine = (Inr (), eng')"
    by (metis (full_types) isl_def prod.collapse sum.collapse(2) unit.exhaust)
  then show ?thesis by (intro that) (simp add: execute_def execute_payload_def demo_job_def)
qed

theorem idle_pipeline_has_settled_every_job_witness:
  "\<exists>s :: unit cache pipeline. pipeline_reachable demo_kv_config s \<and> pl_submitted s = 1 \<and>
     unat (pl_submitted s) = unat (pl_completed s) + unat (pl_failed s)"
proof -
  obtain r eng' where run: "execute demo_kv_config 0 demo_job demo_engine = (Inr r, eng')" by (rule demo_job_finishes)
  define s1 where "s1 = (mark_finished demo_job (Inr r) (demo_executing demo_engine))
    \<lparr> pl_engine := eng', pl_held := {#\<lparr> wj_job = demo_job, wj_phase = Finished \<rparr>#} \<rparr>"
  define s2 where "s2 = s1\<lparr> pl_inflight := 0, pl_held := {#} \<rparr>"
  have "worker_step demo_kv_config (demo_executing demo_engine) s1"
    using worker_step.finish [of "demo_executing demo_engine" demo_job "{#}" demo_kv_config 0 "Inr r" eng'] run
    by (simp add: s1_def demo_executing_def panicked_def)
  moreover have "worker_step demo_kv_config s1 s2"
    using worker_step.retire [of s1 demo_job "{#}" demo_kv_config]
    by (simp add: s1_def s2_def demo_executing_def mark_finished_def)
  ultimately have reach: "pipeline_reachable demo_kv_config s2"
    by (meson demo_executing_reachable pipeline_reachable.worker)
  have sub: "pl_submitted s2 = 1" "pipeline_idle s2" "pl_submissions s2 = {#}"
    by (simp_all add: s1_def s2_def demo_executing_def mark_finished_def pipeline_idle_def)
  from idle_pipeline_has_settled_every_job [OF reach sub(2,3)] reach sub(1) show ?thesis by (intro exI [of _ s2]) simp
qed

text \<open>The registry and the in-flight counter account for every job. In every reachable state, whatever the
  interleaving, the counter is the number of jobs counted in and not yet refused, queued, held by a worker
  or lost with one; the identifiers with a non-terminal registry entry are exactly those of the registered
  unfinished jobs; and no identifier belongs to two of them.
\<close>

theorem pipeline_accounts_for_every_job:
  assumes "pipeline_reachable cfg s"
  shows "unat (pl_inflight s) =
      n_subs counted (pl_submissions s) + length (pl_queue s) + size (pl_held s) + size (pl_lost s) \<and>
    {i. pending_in (pl_jobs s) i} = set_mset (registered_ids s) \<and> (\<forall>i. count (owned_ids s) i \<le> 1)"
  using reachable_counters [OF assms] reachable_registry [OF assms] by (auto simp: counters_ok_def registry_ok_def)

theorem pipeline_accounts_for_every_job_witness:
  "{i. pending_in (pl_jobs (demo_executing demo_engine)) i} = {1}"
proof -
  have "set_mset (registered_ids (demo_executing demo_engine)) = {1}"
    by (simp add: registered_ids_def past_submit_def demo_executing_def demo_job_def)
  with pipeline_accounts_for_every_job [OF demo_executing_reachable [of demo_kv_config demo_engine]]
  show ?thesis by simp
qed

text \<open>C21:
  The workers never run forever on a fixed backlog. With no client acting, no infinite sequence of worker
  steps exists, from any state and for any tiers.
\<close>

theorem worker_steps_terminate: "wfp (\<lambda>s' s. worker_step cfg s s')"
  by (rule wfp_if_convertible_to_nat [of _ work_left]) (rule worker_step_work)



text \<open>
  A job lost with a panicking worker is never settled: whatever the clients and the other workers do
  afterwards, the in-flight counter stays positive.
\<close>

inductive pipeline_step :: "kv_config \<Rightarrow> 's pipeline \<Rightarrow> 's pipeline \<Rightarrow> bool" for cfg where
  by_client: "client_step s s' \<Longrightarrow> pipeline_step cfg s s'"
| by_worker: "worker_step cfg s s' \<Longrightarrow> pipeline_step cfg s s'"

lemma client_step_lost: "client_step s s' \<Longrightarrow> pl_lost s' = pl_lost s"
  by (cases rule: client_step.cases) (auto simp: job_take_def split: option.splits if_splits)

lemma worker_step_lost: "worker_step cfg s s' \<Longrightarrow> pl_lost s \<subseteq># pl_lost s'"
  by (induction rule: worker_step.induct) (simp_all add: mark_finished_def)

lemma pipeline_step_keeps_lost: "pipeline_step cfg s s' \<Longrightarrow> pl_lost s \<subseteq># pl_lost s'"
  by (induction rule: pipeline_step.induct) (simp_all add: client_step_lost worker_step_lost)

text \<open>C22:
  A panic in the engine makes \<open>finish\<close> time out forever. Once a worker has unwound while it
  executed a job, no continuation of any interleaving is idle, and the registry keeps the job in a
  non-terminal state.
\<close>

theorem lost_job_blocks_finish:
  assumes "pipeline_reachable cfg s" "j \<in># pl_lost s" "(pipeline_step cfg)\<^sup>*\<^sup>* s s'"
  shows "\<not> pipeline_idle s' \<and> pending_in (pl_jobs s') (job_id j)"
proof -
  have "pipeline_reachable cfg s' \<and> pl_lost s \<subseteq># pl_lost s'"
    using assms(3,1)
  proof (induction rule: rtranclp_induct)
    case (step t u)
    then have t: "pipeline_reachable cfg t" "pl_lost s \<subseteq># pl_lost t" by simp_all
    from t(2) pipeline_step_keeps_lost [OF step(2)] have "pl_lost s \<subseteq># pl_lost u" by (rule subset_mset.trans)
    moreover from step(2) t(1) have "pipeline_reachable cfg u"
      by cases (blast intro: pipeline_reachable.client pipeline_reachable.worker)+
    ultimately show ?case by simp
  qed simp
  then have reach: "pipeline_reachable cfg s'" and sub: "pl_lost s \<subseteq># pl_lost s'" by simp_all
  from mset_subset_eqD [OF sub assms(2)] have j: "j \<in># pl_lost s'" .
  from j have "pl_lost s' \<noteq> {#}" by auto
  then have "0 < unat (pl_inflight s')"
    using reachable_counters [OF reach] by (simp add: counters_ok_def nonempty_has_size)
  moreover have "job_id j \<in># registered_ids s'" using j by (simp add: registered_ids_def past_submit_def)
  ultimately show ?thesis using reachable_registry [OF reach] by (auto simp: pipeline_idle_def registry_ok_def)
qed

theorem lost_job_blocks_finish_witness:
  "\<exists>s. pipeline_reachable demo_kv_config s \<and> pl_lost s = {#demo_job#} \<and>
     (\<nexists>s'. (pipeline_step demo_kv_config)\<^sup>*\<^sup>* s s' \<and> pipeline_idle (s' :: unit cache pipeline))"
proof -
  have "fst (engine_invalidate demo_key panicking_engine) = Inl (Panicked ''poisoned'')" by code_simp
  then obtain eng' where run: "engine_invalidate demo_key panicking_engine = (Inl (Panicked ''poisoned''), eng')"
    by (metis prod.collapse)
  define s where "s = (demo_executing panicking_engine)
    \<lparr> pl_engine := eng', pl_held := {#}, pl_workers := 0, pl_lost := {#demo_job#} \<rparr>"
  from run have "execute demo_kv_config 0 demo_job panicking_engine = (Inl (Panicked ''poisoned''), eng')"
    by (simp add: execute_def execute_payload_def demo_job_def)
  then have "worker_step demo_kv_config (demo_executing panicking_engine) s"
    using worker_step.die [of "demo_executing panicking_engine" demo_job "{#}" demo_kv_config 0 _ eng']
    by (simp add: s_def demo_executing_def panicked_def)
  then have s: "pipeline_reachable demo_kv_config s" "pl_lost s = {#demo_job#}"
    by (auto intro: demo_executing_reachable pipeline_reachable.worker simp: s_def)
  then show ?thesis using lost_job_blocks_finish [OF s(1), of demo_job] by (intro exI [of _ s]) auto
qed

section \<open>Reports\<close>

definition same_job :: "async_result \<Rightarrow> async_result \<Rightarrow> bool" where
  "same_job out out' \<longleftrightarrow> ar_job_id out' = ar_job_id out \<and> ar_operation out' = ar_operation out \<and>
     ar_requested out' = ar_requested out"

lemma len64_simps [simp]: "len64 [] = 0" "len64 (x # xs) = 1 + len64 xs" "len64 (xs @ ys) = len64 xs + len64 ys"
  by (simp_all add: len64_def)

lemma execute_store_counts:
  "execute_store cfg blocks ttl pinned out eng = (Inr out', eng') \<Longrightarrow>
     same_job out out' \<and> ar_completed out' = ar_completed out + len64 blocks \<and> ar_missed out' = ar_missed out \<and>
     ar_blocks out' = ar_blocks out"
  by (induction blocks arbitrary: out eng) (fastforce simp: io_simps same_job_def)+

lemma execute_retrieve_counts:
  "execute_retrieve cfg keys out eng = (Inr out', eng') \<Longrightarrow>
     same_job out out' \<and> ar_completed out' + ar_missed out' = ar_completed out + ar_missed out + len64 keys \<and>
     len64 (ar_blocks out') - ar_completed out' = len64 (ar_blocks out) - ar_completed out"
  by (induction keys arbitrary: out eng) (fastforce simp: io_simps same_job_def split: option.splits)+

lemma count_hit_simps [simp]:
  "same_job (count_hit hit out) out' \<longleftrightarrow> same_job out out'" "ar_blocks (count_hit hit out) = ar_blocks out"
  "ar_completed (count_hit hit out) + ar_missed (count_hit hit out) = ar_completed out + ar_missed out + 1"
  by (simp_all add: count_hit_def same_job_def)

lemma execute_move_counts:
  "execute_move cfg ms out eng = (Inr out', eng') \<Longrightarrow>
     same_job out out' \<and> ar_completed out' + ar_missed out' = ar_completed out + ar_missed out + len64 ms \<and>
     ar_blocks out' = ar_blocks out"
proof (induction ms arbitrary: out eng)
  case (Cons k ks)
  then obtain hit eng1 where "execute_move cfg ks (count_hit hit out) eng1 = (Inr out', eng')" by (auto simp: io_simps)
  from Cons.IH [OF this] show ?case by (simp add: add.assoc)
qed (simp add: same_job_def)

lemma execute_invalidate_counts:
  "execute_invalidate keys out eng = (Inr out', eng') \<Longrightarrow>
     same_job out out' \<and> ar_completed out' = ar_completed out + len64 keys \<and> ar_missed out' = ar_missed out \<and>
     ar_blocks out' = ar_blocks out"
  by (induction keys arbitrary: out eng) (fastforce simp: io_simps same_job_def)+

lemma execute_pin_counts:
  "execute_pin cfg keys pinned out eng = (Inr out', eng') \<Longrightarrow>
     same_job out out' \<and> ar_completed out' + ar_missed out' = ar_completed out + ar_missed out + len64 keys \<and>
     ar_blocks out' = ar_blocks out"
proof (induction keys arbitrary: out eng)
  case (Cons k ks)
  then obtain hit eng1 where "execute_pin cfg ks pinned (count_hit hit out) eng1 = (Inr out', eng')" by (auto simp: io_simps)
  from Cons.IH [OF this] show ?case by (simp add: add.assoc)
qed (simp add: same_job_def)

definition payload_items :: "payload \<Rightarrow> nat" where
  "payload_items p = (case p of PStore bs _ _ \<Rightarrow> length bs | PRetrieve ks \<Rightarrow> length ks | PMove ms \<Rightarrow> length ms
     | PPrefetch ks _ \<Rightarrow> length ks | PInvalidate ks \<Rightarrow> length ks | PPin ks _ \<Rightarrow> length ks | PClear \<Rightarrow> 1 | PHealth \<Rightarrow> 1)"

lemma prefetch_counts:
  assumes "prefetch_wait cfg keys destination eng = (Inr rep, eng')" "length keys < 2 ^ 64"
  shows "rep_populated rep + rep_missed rep = of_nat (length keys) \<and> rep_requested rep = of_nat (length keys)"
proof -
  have run: "prefetch_worker cfg keys destination eng = (Inr rep, eng')"
    using assms(1) by (auto simp: prefetch_wait_def split: prod.splits sum.splits io_error.splits)
  have "rep_requested rep = of_nat (unat (rep_requested rep))" by simp
  moreover have "rep_populated rep + rep_missed rep = of_nat (unat (rep_populated rep) + unat (rep_missed rep))" by simp
  ultimately show ?thesis using prefetch_report_adds_up [OF run assms(2)] by simp
qed

text \<open>A successful job reports on every item of its request. The result carries the job's identifier and
  operation, the requested count is the number of items of the payload, completed and missed add up to it,
  and a retrieval returns as many blocks as it counts completed, every other operation none.
\<close>

theorem job_reports_add_up:
  assumes "execute cfg elapsed j eng = (Inr out, eng')" "payload_items (job_payload j) < 2 ^ 64"
  shows "ar_job_id out = job_id j \<and> ar_operation out = job_operation j \<and>
    ar_requested out = of_nat (payload_items (job_payload j)) \<and>
    ar_completed out + ar_missed out = ar_requested out \<and>
    len64 (ar_blocks out) = (case job_payload j of PRetrieve _ \<Rightarrow> ar_completed out | _ \<Rightarrow> 0)"
proof (cases "job_payload j")
  case (PHealth)
  with assms(1) show ?thesis
    by (auto simp: execute_def execute_payload_def async_result_new_def payload_items_def Let_def io_simps split: prod.splits if_splits)
next
  case (PPrefetch ks d)
  with assms show ?thesis
    by (auto simp: execute_def execute_payload_def async_result_new_def payload_items_def io_simps dest!: prefetch_counts)
qed (use assms(1) in \<open>auto simp: execute_def execute_payload_def async_result_new_def payload_items_def found_some_def
      io_simps same_job_def len64_def
      dest!: execute_store_counts execute_retrieve_counts execute_move_counts execute_invalidate_counts execute_pin_counts\<close>)

theorem job_reports_add_up_witness:
  "\<exists>out eng'. execute demo_kv_config 0 demo_job demo_engine = (Inr out, eng') \<and> ar_completed out + ar_missed out = 1"
proof -
  obtain out eng' where run: "execute demo_kv_config 0 demo_job demo_engine = (Inr out, eng')" by (rule demo_job_finishes)
  from job_reports_add_up [OF run] run show ?thesis by (auto simp: payload_items_def demo_job_def)
qed

end
