(* ===== verification/Remote.thy ===== *)
theory Remote
  imports Kv
begin

text \<open>
  The remote tier of \<open>src/remote.rs\<close>: the byte protocol, the client tier and the connection
  handler of the server. A stream is the bytes still to be read, the error of reading past them, the bytes
  written, and the faults of the coming writes; a link carries a request to the server and its
  answer back and may cut either anywhere. Over a sound link the remote tier is the tier behind
  the server; over any link a request is applied at most once and success is never reported wrongly.
\<close>

section \<open>Limits\<close>

record remote_limits =
  rl_max_payload_bytes :: nat
  rl_max_model_bytes :: nat
  rl_max_inflight_connections :: nat
  rl_connect_timeout :: duration
  rl_io_timeout :: duration

definition remote_limits_default :: "(nat \<Rightarrow> duration) \<Rightarrow> remote_limits" where
  "remote_limits_default from_secs = \<lparr> rl_max_payload_bytes = 512 * 1024 * 1024, rl_max_model_bytes = 64 * 1024,
     rl_max_inflight_connections = 64, rl_connect_timeout = from_secs 5, rl_io_timeout = from_secs 30 \<rparr>"

definition validate_limits :: "remote_limits \<Rightarrow> unit io_result" where
  "validate_limits l =
     (if rl_max_payload_bytes l = 0 \<or> rl_max_model_bytes l = 0 \<or> rl_max_inflight_connections l = 0
      then Inl (IoError InvalidInput ''remote limits must be greater than zero'') else Inr ())"

text \<open>\<open>resolved\<close> is what \<open>to_socket_addrs\<close> answers.\<close>

definition resolve_one :: "'a list io_result \<Rightarrow> 'a io_result" where
  "resolve_one resolved =
     result_bind resolved (\<lambda>addrs.
       case addrs of [] \<Rightarrow> Inl (IoError InvalidInput ''address resolved to no endpoints'') | a # _ \<Rightarrow> Inr a)"

record 'a tcp_kv_tier =
  tk_name :: string
  tk_endpoint :: 'a
  tk_limits :: remote_limits

definition tcp_kv_tier_new :: "string \<Rightarrow> 'a list io_result \<Rightarrow> remote_limits \<Rightarrow> 'a tcp_kv_tier io_result" where
  "tcp_kv_tier_new name resolved limits =
     (if blank name then Inl (IoError InvalidInput ''remote tier name must not be empty'')
      else result_bind (validate_limits limits) (\<lambda>_.
        result_bind (resolve_one resolved) (\<lambda>endpoint.
          Inr \<lparr> tk_name = name, tk_endpoint = endpoint, tk_limits = limits \<rparr>)))"

section \<open>Streams\<close>

text \<open>A write that fails after sending \<open>n\<close> of its bytes is the fault \<open>Some (n, e)\<close>.\<close>

record tcp_stream =
  sk_in :: "u8 list"
  sk_at_end :: io_error
  sk_out :: "u8 list"
  sk_faults :: "(nat \<times> io_error) option list"

definition write_all :: "u8 list \<Rightarrow> tcp_stream \<Rightarrow> unit io_result \<times> tcp_stream" where
  "write_all bs st =
     (case sk_faults st of
        Some (n, e) # fs \<Rightarrow> (Inl e, st\<lparr> sk_out := sk_out st @ take n bs, sk_faults := fs \<rparr>)
      | fs \<Rightarrow> (Inr (), st\<lparr> sk_out := sk_out st @ bs, sk_faults := tl fs \<rparr>))"

definition read_exact :: "nat \<Rightarrow> tcp_stream \<Rightarrow> u8 list io_result \<times> tcp_stream" where
  "read_exact n st =
     (if n \<le> length (sk_in st) then (Inr (take n (sk_in st)), st\<lparr> sk_in := drop n (sk_in st) \<rparr>)
      else (Inl (sk_at_end st), st\<lparr> sk_in := [] \<rparr>))"

definition net_read_u8 :: "tcp_stream \<Rightarrow> u8 io_result \<times> tcp_stream" where
  "net_read_u8 st = and_then (read_exact 1 st) (\<lambda>bs st1. (Inr (hd bs), st1))"

definition net_read_u32 :: "tcp_stream \<Rightarrow> u32 io_result \<times> tcp_stream" where
  "net_read_u32 st = and_then (read_exact 4 st) (\<lambda>bs st1. (Inr (le_word bs), st1))"

definition net_read_u64 :: "tcp_stream \<Rightarrow> u64 io_result \<times> tcp_stream" where
  "net_read_u64 st = and_then (read_exact 8 st) (\<lambda>bs st1. (Inr (le_word bs), st1))"

definition net_write_u32 :: "u32 \<Rightarrow> tcp_stream \<Rightarrow> unit io_result \<times> tcp_stream" where
  "net_write_u32 v st = write_all (u32_le v) st"

definition net_write_u64 :: "u64 \<Rightarrow> tcp_stream \<Rightarrow> unit io_result \<times> tcp_stream" where
  "net_write_u64 v st = write_all (u64_le v) st"

definition protocol_error :: "string \<Rightarrow> io_error" where
  "protocol_error msg = IoError InvalidData msg"

section \<open>Messages\<close>

definition net_magic :: "u8 list" where
  "net_magic = as_bytes ''RKVNET1'' @ [10]"

definition OP_GET :: u8 where "OP_GET = 1"
definition OP_PUT :: u8 where "OP_PUT = 2"
definition OP_REMOVE :: u8 where "OP_REMOVE = 3"
definition OP_CLEAR :: u8 where "OP_CLEAR = 4"
definition OP_PING :: u8 where "OP_PING = 5"
definition STATUS_OK :: u8 where "STATUS_OK = 0"
definition STATUS_MISS :: u8 where "STATUS_MISS = 1"
definition STATUS_ERROR :: u8 where "STATUS_ERROR = 2"

lemmas protocol_bytes [simp] = OP_GET_def OP_PUT_def OP_REMOVE_def OP_CLEAR_def OP_PING_def
  STATUS_OK_def STATUS_MISS_def STATUS_ERROR_def

definition MAX_ERROR_BYTES :: nat where
  "MAX_ERROR_BYTES = 8 * 1024"

definition write_request_header :: "u8 \<Rightarrow> tcp_stream \<Rightarrow> unit io_result \<times> tcp_stream" where
  "write_request_header opcode st = and_then (write_all net_magic st) (\<lambda>_ st1. write_all [opcode] st1)"

definition read_request_header :: "tcp_stream \<Rightarrow> u8 io_result \<times> tcp_stream" where
  "read_request_header st =
     and_then (read_exact (length net_magic) st) (\<lambda>m st1.
       if m \<noteq> net_magic then (Inl (protocol_error ''invalid remote protocol magic''), st1) else net_read_u8 st1)"

definition write_status :: "u8 \<Rightarrow> tcp_stream \<Rightarrow> unit io_result \<times> tcp_stream" where
  "write_status status st = and_then (write_all net_magic st) (\<lambda>_ st1. write_all [status] st1)"

definition read_status :: "tcp_stream \<Rightarrow> u8 io_result \<times> tcp_stream" where
  "read_status st =
     and_then (read_exact (length net_magic) st) (\<lambda>m st1.
       if m \<noteq> net_magic then (Inl (protocol_error ''invalid remote response magic''), st1) else net_read_u8 st1)"

definition write_error_response :: "string \<Rightarrow> tcp_stream \<Rightarrow> unit io_result \<times> tcp_stream" where
  "write_error_response msg st =
     (let bytes = take (min (length (as_bytes msg)) MAX_ERROR_BYTES) (as_bytes msg) in
      and_then (write_status STATUS_ERROR st) (\<lambda>_ st1.
      and_then (net_write_u32 (of_nat (length bytes)) st1) (\<lambda>_ st2.
        write_all bytes st2)))"

text \<open>\<open>read_remote_error\<close> answers the error the server reported, or fails itself.\<close>

definition read_remote_error :: "tcp_stream \<Rightarrow> io_error io_result \<times> tcp_stream" where
  "read_remote_error st =
     and_then (net_read_u32 st) (\<lambda>len st1.
       if unat len > MAX_ERROR_BYTES then (Inl (protocol_error ''remote error message exceeds protocol limit''), st1)
       else and_then (read_exact (unat len) st1) (\<lambda>bytes st2.
         if utf8_valid bytes then (Inr (IoError Other (from_bytes bytes)), st2)
         else (Inl (protocol_error ''remote error message is not UTF-8''), st2)))"

definition expect_simple_response :: "tcp_stream \<Rightarrow> unit io_result \<times> tcp_stream" where
  "expect_simple_response st =
     and_then (read_status st) (\<lambda>status st1.
       if status = STATUS_OK then (Inr (), st1)
       else if status = STATUS_ERROR then and_then (read_remote_error st1) (\<lambda>e st2. (Inl e, st2))
       else (Inl (protocol_error (''unexpected remote status '' @ show_nat (unat status))), st1))"

text \<open>The six numbers of a key, in the order of the wire.\<close>

definition key_numbers :: "kv_block_key \<Rightarrow> u32 list" where
  "key_numbers k = [key_block_index k, key_token_start k, key_token_count k, key_layer_start k, key_layer_count k,
     key_layout_version k]"

fun write_u32s :: "u32 list \<Rightarrow> tcp_stream \<Rightarrow> unit io_result \<times> tcp_stream" where
  "write_u32s [] st = (Inr (), st)"
| "write_u32s (v # vs) st = and_then (net_write_u32 v st) (\<lambda>_ st1. write_u32s vs st1)"

definition write_key :: "remote_limits \<Rightarrow> kv_block_key \<Rightarrow> tcp_stream \<Rightarrow> unit io_result \<times> tcp_stream" where
  "write_key limits k st =
     (let model = as_bytes (key_model_fingerprint k) in
      if model = [] \<or> length model > rl_max_model_bytes limits \<or> int (length model) > 0xFFFFFFFF
      then (Inl (IoError InvalidInput ''model fingerprint exceeds remote protocol limits''), st)
      else and_then (net_write_u32 (of_nat (length model)) st) (\<lambda>_ st1.
        and_then (write_all model st1) (\<lambda>_ st2.
        and_then (write_all (key_sequence_hash k) st2) (\<lambda>_ st3.
          write_u32s (key_numbers k) st3))))"

definition read_key :: "remote_limits \<Rightarrow> tcp_stream \<Rightarrow> kv_block_key io_result \<times> tcp_stream" where
  "read_key limits st =
     and_then (net_read_u32 st) (\<lambda>model_len st1.
       if model_len = 0 \<or> unat model_len > rl_max_model_bytes limits
       then (Inl (protocol_error ''invalid model fingerprint length''), st1)
       else and_then (read_exact (unat model_len) st1) (\<lambda>model st2.
         if \<not> utf8_valid model then (Inl (protocol_error ''model fingerprint is not UTF-8''), st2)
         else and_then (read_exact 32 st2) (\<lambda>sequence_hash st3.
           and_then (net_read_u32 st3) (\<lambda>block_index st4.
           and_then (net_read_u32 st4) (\<lambda>token_start st5.
           and_then (net_read_u32 st5) (\<lambda>token_count st6.
           and_then (net_read_u32 st6) (\<lambda>layer_start st7.
           and_then (net_read_u32 st7) (\<lambda>layer_count st8.
           and_then (net_read_u32 st8) (\<lambda>layout_version st9.
             if token_count = 0 \<or> layer_count = 0
             then (Inl (protocol_error ''remote KV key has an empty token or layer range''), st9)
             else (Inr \<lparr> key_model_fingerprint = from_bytes model, key_sequence_hash = sequence_hash,
                         key_block_index = block_index, key_token_start = token_start, key_token_count = token_count,
                         key_layer_start = layer_start, key_layer_count = layer_count,
                         key_layout_version = layout_version \<rparr>, st9))))))))))"

definition write_entry_body :: "remote_limits \<Rightarrow> kv_tier_entry \<Rightarrow> tcp_stream \<Rightarrow> unit io_result \<times> tcp_stream" where
  "write_entry_body limits e st =
     (let len = length (te_bytes e) in
      if len = 0 \<or> len > rl_max_payload_bytes limits
      then (Inl (IoError InvalidInput ''KV payload exceeds remote protocol limits''), st)
      else and_then (net_write_u64 (te_expires_at e) st) (\<lambda>_ st1.
        and_then (write_all [bool_byte (te_pinned e)] st1) (\<lambda>_ st2.
        and_then (net_write_u64 (of_nat len) st2) (\<lambda>_ st3.
          write_all (te_bytes e) st3))))"

text \<open>A payload buffer above \<open>isize::MAX\<close> bytes is a capacity panic.\<close>

definition read_entry :: "remote_limits \<Rightarrow> kv_block_key \<Rightarrow> tcp_stream \<Rightarrow> kv_tier_entry io_result \<times> tcp_stream" where
  "read_entry limits k st =
     and_then (net_read_u64 st) (\<lambda>expires_at st1.
     and_then (net_read_u8 st1) (\<lambda>pin st2.
       if pin > 1 then (Inl (protocol_error ''invalid remote pin flag''), st2)
       else and_then (net_read_u64 st2) (\<lambda>len st3.
         if len = 0 \<or> unat len > rl_max_payload_bytes limits
         then (Inl (protocol_error ''remote payload exceeds configured limit''), st3)
         else if 0x8000000000000000 \<le> len then (Inl (Panicked ''capacity overflow''), st3)
         else and_then (read_exact (unat len) st3) (\<lambda>bytes st4.
           (Inr \<lparr> te_block = \<lparr> blk_key = k, blk_bytes = bytes \<rparr>, te_expires_at = expires_at,
                  te_pinned = (pin = 1) \<rparr>, st4)))))"

section \<open>The server\<close>

text \<open>The state of a handler: its stream and the tier behind the server.\<close>

definition on_stream :: "(tcp_stream \<Rightarrow> 'a io_result \<times> tcp_stream) \<Rightarrow> tcp_stream \<times> 's \<Rightarrow> 'a io_result \<times> (tcp_stream \<times> 's)" where
  "on_stream f h = (case f (fst h) of (r, st) \<Rightarrow> (r, (st, snd h)))"

definition on_tier :: "('s \<Rightarrow> 'a io_result \<times> 's) \<Rightarrow> tcp_stream \<times> 's \<Rightarrow> 'a io_result \<times> (tcp_stream \<times> 's)" where
  "on_tier f h = (case f (snd h) of (r, s) \<Rightarrow> (r, (fst h, s)))"

definition serve_request ::
  "remote_limits \<Rightarrow> 's kv_tier \<Rightarrow> u8 \<Rightarrow> tcp_stream \<times> 's \<Rightarrow> unit io_result \<times> (tcp_stream \<times> 's)" where
  "serve_request limits tier opcode h =
     (if opcode = OP_GET then
        and_then (on_stream (read_key limits) h) (\<lambda>k h1.
        and_then (on_tier (kt_get tier k) h1) (\<lambda>found h2.
          case found of
            Some entry \<Rightarrow> and_then (on_stream (write_status STATUS_OK) h2) (\<lambda>_ h3.
                            on_stream (write_entry_body limits entry) h3)
          | None \<Rightarrow> on_stream (write_status STATUS_MISS) h2))
      else if opcode = OP_PUT then
        and_then (on_stream (read_key limits) h) (\<lambda>k h1.
        and_then (on_stream (read_entry limits k) h1) (\<lambda>entry h2.
        and_then (on_tier (kt_put tier entry) h2) (\<lambda>_ h3. on_stream (write_status STATUS_OK) h3)))
      else if opcode = OP_REMOVE then
        and_then (on_stream (read_key limits) h) (\<lambda>k h1.
        and_then (on_tier (kt_remove tier k) h1) (\<lambda>_ h2. on_stream (write_status STATUS_OK) h2))
      else if opcode = OP_CLEAR then
        and_then (on_tier (kt_clear tier) h) (\<lambda>_ h1. on_stream (write_status STATUS_OK) h1)
      else if opcode = OP_PING then
        and_then (on_tier (kt_health tier) h) (\<lambda>_ h1. on_stream (write_status STATUS_OK) h1)
      else (Inl (protocol_error (''unsupported remote opcode '' @ show_nat (unat opcode))), h))"

text \<open>An error is reported to the peer; a panic unwinds the connection thread and reports nothing.\<close>

definition serve_connection ::
  "remote_limits \<Rightarrow> 's kv_tier \<Rightarrow> tcp_stream \<times> 's \<Rightarrow> unit io_result \<times> (tcp_stream \<times> 's)" where
  "serve_connection limits tier h =
     (case and_then (on_stream read_request_header h) (\<lambda>opcode h1. serve_request limits tier opcode h1) of
        (Inl (Panicked msg), h1) \<Rightarrow> (Inl (Panicked msg), h1)
      | (Inl error, h1) \<Rightarrow> (Inl error, snd (on_stream (write_error_response (error_string error)) h1))
      | (Inr _, h1) \<Rightarrow> (Inr (), h1))"

text \<open>The accept loop refuses a connection above its limit before it reads anything.\<close>

definition accept_connection ::
  "remote_limits \<Rightarrow> 's kv_tier \<Rightarrow> nat \<Rightarrow> tcp_stream \<times> 's \<Rightarrow> tcp_stream \<times> 's" where
  "accept_connection limits tier inflight h =
     (if inflight \<ge> rl_max_inflight_connections limits
      then snd (on_stream (write_error_response ''remote KV server is at its connection limit'') h)
      else snd (serve_connection limits tier h))"

section \<open>The client\<close>

text \<open>
  One call: the client connects and writes its request, the server reads the part of it that arrives,
  the client reads the part of the answer that arrives. \<open>None\<close> stands for everything.
\<close>

record link =
  lk_connect :: "unit io_result"
  lk_client_faults :: "(nat \<times> io_error) option list"
  lk_request_arrives :: "nat option"
  lk_request_end :: io_error
  lk_inflight :: nat
  lk_server_faults :: "(nat \<times> io_error) option list"
  lk_answer_arrives :: "nat option"
  lk_answer_end :: io_error

definition arriving :: "nat option \<Rightarrow> u8 list \<Rightarrow> u8 list" where
  "arriving limit bs = (case limit of None \<Rightarrow> bs | Some n \<Rightarrow> take n bs)"

definition exchange ::
  "link \<Rightarrow> remote_limits \<Rightarrow> 's kv_tier \<Rightarrow> (tcp_stream \<Rightarrow> unit io_result \<times> tcp_stream)
   \<Rightarrow> (tcp_stream \<Rightarrow> 'a io_result \<times> tcp_stream) \<Rightarrow> 's \<Rightarrow> 'a io_result \<times> 's" where
  "exchange lk limits tier send receive s =
     check_then (lk_connect lk) s (\<lambda>_.
       (let (sent, client) = send \<lparr> sk_in = [], sk_at_end = lk_answer_end lk, sk_out = [],
              sk_faults = lk_client_faults lk \<rparr>;
            (server, s1) = accept_connection limits tier (lk_inflight lk)
              (\<lparr> sk_in = arriving (lk_request_arrives lk) (sk_out client), sk_at_end = lk_request_end lk, sk_out = [],
                 sk_faults = lk_server_faults lk \<rparr>, s) in
        check_then sent s1 (\<lambda>_.
          (fst (receive (client\<lparr> sk_in := arriving (lk_answer_arrives lk) (sk_out server) \<rparr>)), s1))))"

definition send_key :: "u8 \<Rightarrow> remote_limits \<Rightarrow> kv_block_key \<Rightarrow> tcp_stream \<Rightarrow> unit io_result \<times> tcp_stream" where
  "send_key opcode limits k st = and_then (write_request_header opcode st) (\<lambda>_ st1. write_key limits k st1)"

definition receive_entry :: "remote_limits \<Rightarrow> kv_block_key \<Rightarrow> tcp_stream \<Rightarrow> kv_tier_entry option io_result \<times> tcp_stream" where
  "receive_entry limits k st =
     and_then (read_status st) (\<lambda>status st1.
       if status = STATUS_OK then and_then (read_entry limits k st1) (\<lambda>e st2. (Inr (Some e), st2))
       else if status = STATUS_MISS then (Inr None, st1)
       else if status = STATUS_ERROR then and_then (read_remote_error st1) (\<lambda>e st2. (Inl e, st2))
       else (Inl (protocol_error (''invalid remote status '' @ show_nat (unat status))), st1))"

definition tcp_get ::
  "remote_limits \<Rightarrow> link \<Rightarrow> remote_limits \<Rightarrow> 's kv_tier \<Rightarrow> kv_block_key \<Rightarrow> 's \<Rightarrow> kv_tier_entry option io_result \<times> 's" where
  "tcp_get limits lk server tier k s = exchange lk server tier (send_key OP_GET limits k) (receive_entry limits k) s"

definition tcp_put ::
  "remote_limits \<Rightarrow> link \<Rightarrow> remote_limits \<Rightarrow> 's kv_tier \<Rightarrow> kv_tier_entry \<Rightarrow> 's \<Rightarrow> unit io_result \<times> 's" where
  "tcp_put limits lk server tier e s =
     (if length (te_bytes e) > rl_max_payload_bytes limits
      then (Inl (IoError InvalidInput ''KV payload exceeds configured remote limit''), s)
      else exchange lk server tier
        (\<lambda>st. and_then (send_key OP_PUT limits (te_key e) st) (\<lambda>_ st1. write_entry_body limits e st1))
        expect_simple_response s)"

definition tcp_remove ::
  "remote_limits \<Rightarrow> link \<Rightarrow> remote_limits \<Rightarrow> 's kv_tier \<Rightarrow> kv_block_key \<Rightarrow> 's \<Rightarrow> unit io_result \<times> 's" where
  "tcp_remove limits lk server tier k s = exchange lk server tier (send_key OP_REMOVE limits k) expect_simple_response s"

definition tcp_clear ::
  "remote_limits \<Rightarrow> link \<Rightarrow> remote_limits \<Rightarrow> 's kv_tier \<Rightarrow> 's \<Rightarrow> unit io_result \<times> 's" where
  "tcp_clear limits lk server tier s = exchange lk server tier (write_request_header OP_CLEAR) expect_simple_response s"

definition tcp_ping ::
  "remote_limits \<Rightarrow> link \<Rightarrow> remote_limits \<Rightarrow> 's kv_tier \<Rightarrow> 's \<Rightarrow> unit io_result \<times> 's" where
  "tcp_ping limits lk server tier s = exchange lk server tier (write_request_header OP_PING) expect_simple_response s"

text \<open>The client as a tier, whose state is that of the tier behind the server.\<close>

definition tcp_vt :: "'a tcp_kv_tier \<Rightarrow> link \<Rightarrow> remote_limits \<Rightarrow> 's kv_tier \<Rightarrow> 's kv_tier" where
  "tcp_vt client lk server tier =
     \<lparr> kt_name = tk_name client, kt_get = tcp_get (tk_limits client) lk server tier,
       kt_put = tcp_put (tk_limits client) lk server tier, kt_remove = tcp_remove (tk_limits client) lk server tier,
       kt_clear = tcp_clear (tk_limits client) lk server tier, kt_health = tcp_ping (tk_limits client) lk server tier \<rparr>"

section \<open>Writers and readers\<close>

text \<open>The bytes of a key, an entry body and an error answer.\<close>

definition key_bytes :: "kv_block_key \<Rightarrow> u8 list" where
  "key_bytes k = u32_le (of_nat (length (key_model_fingerprint k))) @ as_bytes (key_model_fingerprint k) @
     key_sequence_hash k @ concat (map u32_le (key_numbers k))"

definition body_bytes :: "kv_tier_entry \<Rightarrow> u8 list" where
  "body_bytes e = u64_le (te_expires_at e) @ [bool_byte (te_pinned e)] @ u64_le (of_nat (length (te_bytes e))) @ te_bytes e"

definition error_bytes :: "string \<Rightarrow> u8 list" where
  "error_bytes msg = (let bs = take MAX_ERROR_BYTES (as_bytes msg) in
     net_magic @ [STATUS_ERROR] @ u32_le (of_nat (length bs)) @ bs)"

text \<open>
  A writer of \<open>bs\<close> leaves a prefix of \<open>bs\<close> on the wire, all of it when it succeeds, and never
  touches the input.
\<close>

definition writer :: "(tcp_stream \<Rightarrow> unit io_result \<times> tcp_stream) \<Rightarrow> u8 list \<Rightarrow> bool" where
  "writer f bs \<longleftrightarrow> (\<forall>st. \<exists>n. sk_out (snd (f st)) = sk_out st @ take n bs \<and> sk_in (snd (f st)) = sk_in st \<and>
     sk_at_end (snd (f st)) = sk_at_end st \<and> (fst (f st) = Inr () \<longrightarrow> length bs \<le> n))"

text \<open>Without faults it writes all of \<open>bs\<close>.\<close>

definition sound_writer :: "(tcp_stream \<Rightarrow> unit io_result \<times> tcp_stream) \<Rightarrow> u8 list \<Rightarrow> bool" where
  "sound_writer f bs \<longleftrightarrow> (\<forall>st. sk_faults st = [] \<longrightarrow> f st = (Inr (), st\<lparr> sk_out := sk_out st @ bs \<rparr>))"

named_theorems writers

lemma writer_write_all [writers]: "writer (write_all bs) bs"
  unfolding writer_def
proof
  fix st
  show "\<exists>n. sk_out (snd (write_all bs st)) = sk_out st @ take n bs \<and> sk_in (snd (write_all bs st)) = sk_in st \<and>
     sk_at_end (snd (write_all bs st)) = sk_at_end st \<and> (fst (write_all bs st) = Inr () \<longrightarrow> length bs \<le> n)"
  proof (cases "sk_faults st")
    case Nil
    then show ?thesis by (intro exI [of _ "length bs"]) (simp add: write_all_def)
  next
    case (Cons f fs)
    then show ?thesis
      by (cases f) (auto simp: write_all_def intro: exI [of _ "length bs"] split: prod.splits)
  qed
qed

lemma writer_Nil: "writer (\<lambda>st. (Inr (), st)) []"
  by (simp add: writer_def)

lemma writer_error [writers]: "writer (\<lambda>st. (Inl e, st)) bs"
  unfolding writer_def by (intro allI exI [of _ 0]) simp

lemma writer_seq [writers]:
  assumes "writer f a" "writer g b"
  shows "writer (\<lambda>st. and_then (f st) (\<lambda>_ st1. g st1)) (a @ b)"
  unfolding writer_def
proof
  fix st
  obtain r st1 where f: "f st = (r, st1)" by fastforce
  obtain n where n: "sk_out st1 = sk_out st @ take n a" "sk_in st1 = sk_in st" "sk_at_end st1 = sk_at_end st"
      "r = Inr () \<Longrightarrow> length a \<le> n"
    using assms(1) f unfolding writer_def by (metis fst_conv snd_conv)
  show "\<exists>n. sk_out (snd (and_then (f st) (\<lambda>_. g))) = sk_out st @ take n (a @ b) \<and>
      sk_in (snd (and_then (f st) (\<lambda>_. g))) = sk_in st \<and> sk_at_end (snd (and_then (f st) (\<lambda>_. g))) = sk_at_end st \<and>
      (fst (and_then (f st) (\<lambda>_. g)) = Inr () \<longrightarrow> length (a @ b) \<le> n)"
  proof (cases r)
    case (Inl e)
    then show ?thesis using f n by (intro exI [of _ "min n (length a)"]) (simp add: min_def)
  next
    case (Inr u)
    obtain m where "sk_out (snd (g st1)) = sk_out st1 @ take m b" "sk_in (snd (g st1)) = sk_in st1"
        "sk_at_end (snd (g st1)) = sk_at_end st1" "fst (g st1) = Inr () \<Longrightarrow> length b \<le> m"
      using assms(2) unfolding writer_def by metis
    with Inr f n show ?thesis by (intro exI [of _ "length a + m"]) simp
  qed
qed

lemma writer_if [writers]: "(b \<Longrightarrow> writer f bs) \<Longrightarrow> (\<not> b \<Longrightarrow> writer g bs) \<Longrightarrow> writer (\<lambda>st. if b then f st else g st) bs"
  by (cases b) simp_all

lemma writer_u32s: "writer (write_u32s vs) (concat (map u32_le vs))"
proof (induction vs)
  case Nil
  have "write_u32s [] = (\<lambda>st. (Inr (), st))" by (rule ext) simp
  then show ?case using writer_Nil by simp
next
  case (Cons v vs)
  have "write_u32s (v # vs) = (\<lambda>st. and_then (net_write_u32 v st) (\<lambda>_ st1. write_u32s vs st1))" by (rule ext) simp
  moreover have "net_write_u32 v = write_all (u32_le v)" by (rule ext) (simp add: net_write_u32_def)
  ultimately show ?case using writer_seq [OF writer_write_all Cons] by simp
qed

lemma sound_seq:
  "sound_writer f a \<Longrightarrow> sound_writer g b \<Longrightarrow> sound_writer (\<lambda>st. and_then (f st) (\<lambda>_ st1. g st1)) (a @ b)"
  by (simp add: sound_writer_def)

lemma sound_write_all: "sound_writer (write_all bs) bs"
  by (simp add: sound_writer_def write_all_def)

lemma sound_u32s: "sound_writer (write_u32s vs) (concat (map u32_le vs))"
  by (induction vs) (simp_all add: sound_writer_def net_write_u32_def write_all_def)

lemma writer_header: "writer (write_request_header opcode) (net_magic @ [opcode])"
proof -
  have "write_request_header opcode = (\<lambda>st. and_then (write_all net_magic st) (\<lambda>_ st1. write_all [opcode] st1))"
    by (rule ext) (simp add: write_request_header_def)
  then show ?thesis by (simp only:) (intro writers)
qed

lemma writer_status: "writer (write_status status) (net_magic @ [status])"
proof -
  have "write_status status = (\<lambda>st. and_then (write_all net_magic st) (\<lambda>_ st1. write_all [status] st1))"
    by (rule ext) (simp add: write_status_def)
  then show ?thesis by (simp only:) (intro writers)
qed

lemma writer_key: "writer (write_key limits k) (key_bytes k)"
proof -
  have "write_key limits k = (\<lambda>st.
     if key_model_fingerprint k = [] \<or> length (key_model_fingerprint k) > rl_max_model_bytes limits \<or>
        int (length (key_model_fingerprint k)) > 0xFFFFFFFF
     then (Inl (IoError InvalidInput ''model fingerprint exceeds remote protocol limits''), st)
     else and_then (write_all (u32_le (of_nat (length (key_model_fingerprint k)))) st) (\<lambda>_ st1.
        and_then (write_all (as_bytes (key_model_fingerprint k)) st1) (\<lambda>_ st2.
        and_then (write_all (key_sequence_hash k) st2) (\<lambda>_ st3. write_u32s (key_numbers k) st3))))"
    by (rule ext) (simp add: write_key_def net_write_u32_def Let_def as_bytes_def)
  then show ?thesis unfolding key_bytes_def by (simp only:) (intro writers writer_u32s)
qed

lemma writer_body: "writer (write_entry_body limits e) (body_bytes e)"
proof -
  have "write_entry_body limits e = (\<lambda>st.
     if length (te_bytes e) = 0 \<or> length (te_bytes e) > rl_max_payload_bytes limits
     then (Inl (IoError InvalidInput ''KV payload exceeds remote protocol limits''), st)
     else and_then (write_all (u64_le (te_expires_at e)) st) (\<lambda>_ st1.
        and_then (write_all [bool_byte (te_pinned e)] st1) (\<lambda>_ st2.
        and_then (write_all (u64_le (of_nat (length (te_bytes e)))) st2) (\<lambda>_ st3. write_all (te_bytes e) st3))))"
    by (rule ext) (simp add: write_entry_body_def net_write_u64_def Let_def)
  then show ?thesis unfolding body_bytes_def by (simp only:) (intro writers)
qed

lemma writer_error_response: "writer (write_error_response msg) (error_bytes msg)"
proof -
  have "write_error_response msg = (\<lambda>st.
     and_then (write_status STATUS_ERROR st) (\<lambda>_ st1.
     and_then (write_all (u32_le (of_nat (length (take MAX_ERROR_BYTES (as_bytes msg))))) st1) (\<lambda>_ st2.
       write_all (take MAX_ERROR_BYTES (as_bytes msg)) st2)))"
    by (rule ext) (simp add: write_error_response_def net_write_u32_def Let_def min_def)
  moreover have "error_bytes msg = (net_magic @ [STATUS_ERROR]) @
      (u32_le (of_nat (length (take MAX_ERROR_BYTES (as_bytes msg)))) @ take MAX_ERROR_BYTES (as_bytes msg))"
    by (simp add: error_bytes_def Let_def)
  ultimately show ?thesis by (simp only:) (intro writers writer_status)
qed

lemma writer_send_key: "writer (send_key opcode limits k) ((net_magic @ [opcode]) @ key_bytes k)"
proof -
  have "send_key opcode limits k = (\<lambda>st. and_then (write_request_header opcode st) (\<lambda>_ st1. write_key limits k st1))"
    by (rule ext) (simp add: send_key_def)
  then show ?thesis by (simp only:) (intro writers writer_header writer_key)
qed

text \<open>
  A reader consumes a prefix of its input; what it answers does not depend on the bytes behind it.
\<close>

definition reader :: "(tcp_stream \<Rightarrow> 'a io_result \<times> tcp_stream) \<Rightarrow> bool" where
  "reader f \<longleftrightarrow> (\<forall>st a st1. f st = (Inr a, st1) \<longrightarrow>
     st1 = st\<lparr> sk_in := sk_in st1 \<rparr> \<and> (\<forall>z. f (st\<lparr> sk_in := sk_in st @ z \<rparr>) = (Inr a, st1\<lparr> sk_in := sk_in st1 @ z \<rparr>)))"

named_theorems readers

lemma reader_exact [readers]: "reader (read_exact n)"
  by (auto simp: reader_def read_exact_def split: if_splits)

lemma reader_return [readers]: "reader (\<lambda>st. (Inr a, st))"
  by (auto simp: reader_def)

lemma reader_error [readers]: "reader (\<lambda>st. (Inl e, st))"
  by (simp add: reader_def)

lemma reader_seq [readers]:
  assumes "reader f" "\<And>a. reader (g a)"
  shows "reader (\<lambda>st. and_then (f st) (\<lambda>a st1. g a st1))"
  unfolding reader_def
proof (intro allI impI)
  fix st b st2
  assume "and_then (f st) (\<lambda>a st1. g a st1) = (Inr b, st2)"
  then obtain a st1 where f: "f st = (Inr a, st1)" and g: "g a st1 = (Inr b, st2)" by (auto simp: and_then_eq_Inr)
  have 1: "st1 = st\<lparr> sk_in := sk_in st1 \<rparr>" "\<And>z. f (st\<lparr> sk_in := sk_in st @ z \<rparr>) = (Inr a, st1\<lparr> sk_in := sk_in st1 @ z \<rparr>)"
    using assms(1) f unfolding reader_def by blast+
  have 2: "st2 = st1\<lparr> sk_in := sk_in st2 \<rparr>" "\<And>z. g a (st1\<lparr> sk_in := sk_in st1 @ z \<rparr>) = (Inr b, st2\<lparr> sk_in := sk_in st2 @ z \<rparr>)"
    using assms(2) g unfolding reader_def by blast+
  have "st2 = st\<lparr> sk_in := sk_in st2 \<rparr>" by (subst 2(1), subst 1(1)) simp
  with 1(2) 2(2) show "st2 = st\<lparr> sk_in := sk_in st2 \<rparr> \<and>
      (\<forall>z. and_then (f (st\<lparr> sk_in := sk_in st @ z \<rparr>)) (\<lambda>a st1. g a st1) = (Inr b, st2\<lparr> sk_in := sk_in st2 @ z \<rparr>))"
    by simp
qed

lemma reader_if [readers]: "(b \<Longrightarrow> reader f) \<Longrightarrow> (\<not> b \<Longrightarrow> reader g) \<Longrightarrow> reader (\<lambda>st. if b then f st else g st)"
  by (cases b) simp_all

lemma reader_u8 [readers]: "reader net_read_u8" and reader_u32 [readers]: "reader net_read_u32"
  and reader_u64 [readers]: "reader net_read_u64"
  unfolding net_read_u8_def [abs_def] net_read_u32_def [abs_def] net_read_u64_def [abs_def] by (intro readers)+

lemma reader_key [readers]: "reader (read_key limits)"
  unfolding read_key_def [abs_def] by (intro readers)

lemma reader_entry [readers]: "reader (read_entry limits k)"
  unfolding read_entry_def [abs_def] by (intro readers)

lemma reader_header [readers]: "reader read_request_header"
  unfolding read_request_header_def [abs_def] by (intro readers)

lemma reader_status [readers]: "reader read_status"
  unfolding read_status_def [abs_def] by (intro readers)

section \<open>Round trips on the wire\<close>

lemma net_read_append: "length a = n \<Longrightarrow> read_exact n (st\<lparr> sk_in := a @ z \<rparr>) = (Inr a, st\<lparr> sk_in := z \<rparr>)"
  by (simp add: read_exact_def)

lemma read_number [simp]:
  "net_read_u32 (st\<lparr> sk_in := u32_le v @ z \<rparr>) = (Inr v, st\<lparr> sk_in := z \<rparr>)"
  "net_read_u64 (st\<lparr> sk_in := u64_le w @ z \<rparr>) = (Inr w, st\<lparr> sk_in := z \<rparr>)"
  "net_read_u8 (st\<lparr> sk_in := b # z \<rparr>) = (Inr b, st\<lparr> sk_in := z \<rparr>)"
  by (simp_all add: net_read_u32_def net_read_u64_def net_read_u8_def read_exact_def)

lemma length_net_magic [simp]: "length net_magic = 8"
  by (simp add: net_magic_def)

lemma read_header_append [simp]:
  "read_request_header (st\<lparr> sk_in := net_magic @ b # z \<rparr>) = (Inr b, st\<lparr> sk_in := z \<rparr>)"
  "read_status (st\<lparr> sk_in := net_magic @ b # z \<rparr>) = (Inr b, st\<lparr> sk_in := z \<rparr>)"
  by (simp_all add: read_request_header_def read_status_def net_read_append)

text \<open>What every Rust key satisfies: a UTF-8 fingerprint of less than 4 GiB and a 32-byte hash.\<close>

definition wire_key :: "kv_block_key \<Rightarrow> bool" where
  "wire_key k \<longleftrightarrow> utf8_valid (as_bytes (key_model_fingerprint k)) \<and> length (key_model_fingerprint k) < 2 ^ 32 \<and>
     length (key_sequence_hash k) = 32"

text \<open>What a side with these limits takes.\<close>

definition key_fits :: "remote_limits \<Rightarrow> kv_block_key \<Rightarrow> bool" where
  "key_fits limits k \<longleftrightarrow> key_model_fingerprint k \<noteq> [] \<and> length (key_model_fingerprint k) \<le> rl_max_model_bytes limits \<and>
     key_token_count k \<noteq> 0 \<and> key_layer_count k \<noteq> 0"

definition body_fits :: "remote_limits \<Rightarrow> kv_tier_entry \<Rightarrow> bool" where
  "body_fits limits e \<longleftrightarrow> te_bytes e \<noteq> [] \<and> length (te_bytes e) \<le> rl_max_payload_bytes limits"

lemma read_key_append:
  assumes "wire_key k"
  shows "fst (read_key limits (st\<lparr> sk_in := key_bytes k @ z \<rparr>)) = Inr k' \<longleftrightarrow> key_fits limits k \<and> k' = k"
    and "key_fits limits k \<Longrightarrow> snd (read_key limits (st\<lparr> sk_in := key_bytes k @ z \<rparr>)) = st\<lparr> sk_in := z \<rparr>"
proof -
  let ?m = "as_bytes (key_model_fingerprint k)"
  let ?n = "of_nat (length (key_model_fingerprint k)) :: u32"
  have n: "unat ?n = length ?m" using assms by (simp add: wire_key_def unat_of_nat)
  then have n0: "?n = 0 \<longleftrightarrow> key_model_fingerprint k = []" by (metis length_as_bytes length_0_conv unat_eq_0)
  have "read_key limits (st\<lparr> sk_in := key_bytes k @ z \<rparr>) =
     (if key_model_fingerprint k = [] \<or> length (key_model_fingerprint k) > rl_max_model_bytes limits
      then (Inl (protocol_error ''invalid model fingerprint length''),
            st\<lparr> sk_in := ?m @ key_sequence_hash k @ concat (map u32_le (key_numbers k)) @ z \<rparr>)
      else if key_token_count k = 0 \<or> key_layer_count k = 0
      then (Inl (protocol_error ''remote KV key has an empty token or layer range''), st\<lparr> sk_in := z \<rparr>)
      else (Inr k, st\<lparr> sk_in := z \<rparr>))"
    using assms n n0
    by (simp add: read_key_def key_bytes_def wire_key_def net_read_append key_numbers_def)
  then show "fst (read_key limits (st\<lparr> sk_in := key_bytes k @ z \<rparr>)) = Inr k' \<longleftrightarrow> key_fits limits k \<and> k' = k"
    and "key_fits limits k \<Longrightarrow> snd (read_key limits (st\<lparr> sk_in := key_bytes k @ z \<rparr>)) = st\<lparr> sk_in := z \<rparr>"
    by (auto simp: key_fits_def not_le not_less)
qed

lemma read_entry_append:
  assumes "length (te_bytes e) < 2 ^ 63"
  shows "fst (read_entry limits k (st\<lparr> sk_in := body_bytes e @ z \<rparr>)) = Inr e' \<longleftrightarrow>
      body_fits limits e \<and> e' = e\<lparr> te_block := (te_block e)\<lparr> blk_key := k \<rparr> \<rparr>"
    and "body_fits limits e \<Longrightarrow> snd (read_entry limits k (st\<lparr> sk_in := body_bytes e @ z \<rparr>)) = st\<lparr> sk_in := z \<rparr>"
proof -
  let ?n = "of_nat (length (te_bytes e)) :: u64"
  have n: "unat ?n = length (te_bytes e)" using assms by (simp add: unat_of_nat)
  then have n0: "?n = 0 \<longleftrightarrow> te_bytes e = []" by (metis length_0_conv unat_eq_0)
  have big: "\<not> 0x8000000000000000 \<le> ?n" using assms n by (simp add: word_le_nat_alt)
  have "read_entry limits k (st\<lparr> sk_in := body_bytes e @ z \<rparr>) =
     (if te_bytes e = [] \<or> length (te_bytes e) > rl_max_payload_bytes limits
      then (Inl (protocol_error ''remote payload exceeds configured limit''), st\<lparr> sk_in := te_bytes e @ z \<rparr>)
      else (Inr (e\<lparr> te_block := (te_block e)\<lparr> blk_key := k \<rparr> \<rparr>), st\<lparr> sk_in := z \<rparr>))"
    using n n0 big by (simp add: read_entry_def body_bytes_def net_read_append bool_byte_def)
  then show "fst (read_entry limits k (st\<lparr> sk_in := body_bytes e @ z \<rparr>)) = Inr e' \<longleftrightarrow>
      body_fits limits e \<and> e' = e\<lparr> te_block := (te_block e)\<lparr> blk_key := k \<rparr> \<rparr>"
    and "body_fits limits e \<Longrightarrow> snd (read_entry limits k (st\<lparr> sk_in := body_bytes e @ z \<rparr>)) = st\<lparr> sk_in := z \<rparr>"
    by (auto simp: body_fits_def)
qed

section \<open>The server on a truncated request\<close>

lemma reader_take:
  assumes "reader f" "f (st\<lparr> sk_in := take m bs \<rparr>) = (Inr a, st1)"
  shows "fst (f (st\<lparr> sk_in := bs \<rparr>)) = Inr a" and "st1 = st\<lparr> sk_in := sk_in st1 \<rparr>"
    and "sk_in (snd (f (st\<lparr> sk_in := bs \<rparr>))) = sk_in st1 @ drop m bs"
proof -
  let ?st = "st\<lparr> sk_in := take m bs \<rparr>"
  have r: "st1 = ?st\<lparr> sk_in := sk_in st1 \<rparr>"
    "f (?st\<lparr> sk_in := sk_in ?st @ drop m bs \<rparr>) = (Inr a, st1\<lparr> sk_in := sk_in st1 @ drop m bs \<rparr>)"
    using assms unfolding reader_def by blast+
  from r(2) have *: "f (st\<lparr> sk_in := bs \<rparr>) = (Inr a, st1\<lparr> sk_in := sk_in st1 @ drop m bs \<rparr>)" by simp
  then show "fst (f (st\<lparr> sk_in := bs \<rparr>)) = Inr a" "sk_in (snd (f (st\<lparr> sk_in := bs \<rparr>))) = sk_in st1 @ drop m bs" by simp_all
  from r(1) show "st1 = st\<lparr> sk_in := sk_in st1 \<rparr>" by simp
qed

text \<open>An answer that is a prefix of an error answer.\<close>

definition failing :: "tcp_stream \<Rightarrow> bool" where
  "failing st \<longleftrightarrow> (\<exists>n w. sk_out st = take n (net_magic @ STATUS_ERROR # w))"

lemma error_response_failing: "sk_out st = [] \<Longrightarrow> failing (snd (write_error_response msg st))"
  using writer_error_response [of msg] unfolding writer_def failing_def error_bytes_def Let_def
  by (metis append_Cons append_Nil)

definition report :: "unit io_result \<times> (tcp_stream \<times> 's) \<Rightarrow> unit io_result \<times> (tcp_stream \<times> 's)" where
  "report x = (case x of
     (Inl (Panicked msg), h1) \<Rightarrow> (Inl (Panicked msg), h1)
   | (Inl error, h1) \<Rightarrow> (Inl error, snd (on_stream (write_error_response (error_string error)) h1))
   | (Inr _, h1) \<Rightarrow> (Inr (), h1))"

lemma serve_connection_report:
  "serve_connection limits tier h =
     report (and_then (on_stream read_request_header h) (\<lambda>opcode h1. serve_request limits tier opcode h1))"
  by (simp add: serve_connection_def report_def)

lemma report_tier: "snd (snd (report x)) = snd (snd x)"
  by (cases x; cases "fst x") (auto simp: report_def on_stream_def split: io_error.splits prod.splits)

lemma failing_empty: "sk_out st = [] \<Longrightarrow> failing st"
  unfolding failing_def by (intro exI [of _ 0]) simp

lemma report_failing:
  assumes "fst x = Inl e" "sk_out (fst (snd x)) = []"
  shows "failing (fst (snd (report x)))"
proof (cases e)
  case (IoError kind msg)
  obtain st s where x: "x = (Inl (IoError kind msg), (st, s))" using assms(1) IoError by (cases x) auto
  then show ?thesis using error_response_failing [of st msg] assms(2)
    by (simp add: report_def on_stream_def split_beta)
next
  case (Panicked msg)
  then obtain st s where "x = (Inl (Panicked msg), (st, s))" using assms(1) by (cases x) auto
  then show ?thesis using assms(2) by (simp add: report_def failing_empty)
qed

lemma on_stream_Inr: "on_stream f h = (Inr a, h1) \<longleftrightarrow> (\<exists>st. f (fst h) = (Inr a, st) \<and> h1 = (st, snd h))"
  by (auto simp: on_stream_def split: prod.splits)

definition read_only :: "(tcp_stream \<Rightarrow> 'a io_result \<times> tcp_stream) \<Rightarrow> bool" where
  "read_only f \<longleftrightarrow> (\<forall>st. sk_out (snd (f st)) = sk_out st \<and> sk_faults (snd (f st)) = sk_faults st)"

lemma read_only_seq [readers]: "read_only f \<Longrightarrow> (\<And>a. read_only (g a)) \<Longrightarrow> read_only (\<lambda>st. and_then (f st) (\<lambda>a st1. g a st1))"
  by (simp add: read_only_def and_then_def split: prod.splits sum.splits) (metis snd_conv)

lemma read_only_if [readers]: "read_only f \<Longrightarrow> read_only g \<Longrightarrow> read_only (\<lambda>st. if b then f st else g st)"
  by (cases b) simp_all

lemma read_only_base [readers]: "read_only (read_exact n)" "read_only (\<lambda>st. (r, st))"
  by (simp_all add: read_only_def read_exact_def)

lemma read_only_parts [readers]: "read_only net_read_u8" "read_only net_read_u32" "read_only net_read_u64"
  unfolding net_read_u8_def [abs_def] net_read_u32_def [abs_def] net_read_u64_def [abs_def] by (intro readers)+

lemma read_only_messages [readers]:
  "read_only (read_key limits)" "read_only (read_entry limits k)" "read_only read_request_header"
  unfolding read_key_def [abs_def] read_entry_def [abs_def] read_request_header_def [abs_def] by (intro readers)+

text \<open>
  The server on a prefix of the request \<open>net_magic @ opcode # body\<close>, for an operation that parses its
  argument, calls the tier once and answers: it calls the tier with the argument of the whole
  request, or it answers an error and leaves the tier alone.
\<close>

lemma serve_connection_cases:
  assumes req: "\<And>h. serve_request limits tier opcode h =
      and_then (on_stream P h) (\<lambda>a h1. and_then (on_tier (f a) h1) (\<lambda>b h2. on_stream (W b) h2))"
    and P: "reader P" "read_only P" "\<And>st a'. fst (P (st\<lparr> sk_in := body \<rparr>)) = Inr a' \<Longrightarrow> a' = a"
    and out: "sk_out st0 = []"
    and run: "serve_connection limits tier (st0\<lparr> sk_in := take m (net_magic @ opcode # body) \<rparr>, s) = (r, (st', s'))"
  shows "(s' = s \<and> failing st') \<or> (\<exists>e. f a s = (Inl e, s') \<and> failing st') \<or>
    (\<exists>b st1. f a s = (Inr b, s') \<and> sk_out st1 = [] \<and> sk_faults st1 = sk_faults st0 \<and>
       report (on_stream (W b) (st1, s')) = (r, (st', s')))"
proof -
  let ?in = "st0\<lparr> sk_in := take m (net_magic @ opcode # body) \<rparr>"
  have ro: "sk_out (snd (read_request_header st)) = sk_out st" "sk_out (snd (P st)) = sk_out st"
      "sk_faults (snd (read_request_header st)) = sk_faults st" "sk_faults (snd (P st)) = sk_faults st" for st
    using P(2) read_only_messages(3) by (simp_all add: read_only_def)
  have failed: "failing st' \<and> s' = snd (snd x)" if "x = (Inl e, h)" "sk_out (fst h) = []" "report x = (r, (st', s'))" for x e h
    using report_failing [of x e] report_tier [of x] that by simp
  obtain r1 st1 where h: "read_request_header ?in = (r1, st1)" by fastforce
  then have o1: "sk_out st1 = []" using ro(1) [of ?in] out by simp
  show ?thesis
  proof (cases r1)
    case (Inl e)
    then show ?thesis
      using failed [of _ e "(st1, s)"] run h o1 by (simp add: serve_connection_report on_stream_def)
  next
    case (Inr opcode')
    note t = reader_take [OF reader_header h [unfolded Inr]]
    have op_eq: "opcode' = opcode" and rest: "body = sk_in st1 @ drop m (net_magic @ opcode # body)"
      using t(1,3) by simp_all
    obtain r2 st2 where p: "P st1 = (r2, st2)" by fastforce
    then have o2: "sk_out st2 = []" using ro(2) [of st1] o1 by simp
    show ?thesis
    proof (cases r2)
      case (Inl e)
      then show ?thesis
        using failed [of _ e "(st2, s)"] run h p o2 \<open>r1 = Inr opcode'\<close>
        by (simp add: serve_connection_report on_stream_def req op_eq)
    next
      case (Inr a')
      have "P (st1\<lparr> sk_in := sk_in st1 @ drop m (net_magic @ opcode # body) \<rparr>) = (Inr a', st2\<lparr> sk_in := sk_in st2 @ drop m (net_magic @ opcode # body) \<rparr>)"
        using P(1) p Inr unfolding reader_def by blast
      then have a: "a' = a" using P(3) [of st1 a'] rest by simp
      obtain r3 s3 where f: "f a s = (r3, s3)" by fastforce
      show ?thesis
      proof (cases r3)
        case (Inl e)
        then show ?thesis
          using failed [of _ e "(st2, s3)"] run h p f o2 \<open>r1 = Inr opcode'\<close> \<open>r2 = Inr a'\<close>
          by (simp add: serve_connection_report on_stream_def on_tier_def req op_eq a)
      next
        case (Inr b)
        then have "report (on_stream (W b) (st2, s3)) = (r, (st', s'))"
          using run h p f \<open>r1 = Inr opcode'\<close> \<open>r2 = Inr a'\<close>
          by (simp add: serve_connection_report on_stream_def on_tier_def req op_eq a)
        moreover have "s' = s3"
          using calculation report_tier [of "on_stream (W b) (st2, s3)"] by (simp add: on_stream_def split: prod.splits)
        moreover have "sk_faults st2 = sk_faults st0" using ro(3) [of ?in] ro(4) [of st1] h p by simp
        ultimately show ?thesis using f Inr o2 by blast
      qed
    qed
  qed
qed

section \<open>One call over any link\<close>

lemma arriving_take: "\<exists>n. arriving l bs = take n bs"
  by (cases l) (auto simp: arriving_def intro: exI [of _ "length bs"])

lemma exchange_cases:
  assumes req: "\<And>h. serve_request limits tier opcode h =
      and_then (on_stream P h) (\<lambda>a h1. and_then (on_tier (f a) h1) (\<lambda>b h2. on_stream (W b) h2))"
    and P: "reader P" "read_only P" "\<forall>st a'. fst (P (st\<lparr> sk_in := body \<rparr>)) = Inr a' \<longrightarrow> a' = a"
    and send: "writer send (net_magic @ opcode # body)"
    and run: "exchange lk limits tier send receive s = (r, s')"
  obtains (failed) e where "r = Inl e" "s' = s \<or> s' = snd (f a s)"
  | (refused) client server where "r = fst (receive (client\<lparr> sk_in := arriving (lk_answer_arrives lk) (sk_out server) \<rparr>))"
      "failing server" "s' = s \<or> (\<exists>e. f a s = (Inl e, s'))"
  | (served) client b st1 where "f a s = (Inr b, s')" "sk_out st1 = []" "sk_faults st1 = lk_server_faults lk"
      "r = fst (receive (client\<lparr> sk_in := arriving (lk_answer_arrives lk)
             (sk_out (fst (snd (report (on_stream (W b) (st1, s')))))) \<rparr>))"
proof (cases "lk_connect lk")
  case (Inl e)
  then show ?thesis using run failed [of e] by (simp add: exchange_def)
next
  case (Inr u)
  obtain sent client where c: "send \<lparr> sk_in = [], sk_at_end = lk_answer_end lk, sk_out = [],
      sk_faults = lk_client_faults lk \<rparr> = (sent, client)" by fastforce
  obtain n where "sk_out client = take n (net_magic @ opcode # body)"
    using send c unfolding writer_def by (metis append_Nil snd_conv tcp_stream.select_convs(3))
  with arriving_take [of "lk_request_arrives lk" "sk_out client"] obtain m
    where m: "arriving (lk_request_arrives lk) (sk_out client) = take m (net_magic @ opcode # body)"
    by (metis take_take)
  let ?in = "\<lparr> sk_in = take m (net_magic @ opcode # body), sk_at_end = lk_request_end lk, sk_out = [],
      sk_faults = lk_server_faults lk \<rparr>"
  obtain server s1 where a: "accept_connection limits tier (lk_inflight lk) (?in, s) = (server, s1)" by fastforce
  have r: "s' = s1" "r = (case sent of Inl e \<Rightarrow> Inl e
      | Inr _ \<Rightarrow> fst (receive (client\<lparr> sk_in := arriving (lk_answer_arrives lk) (sk_out server) \<rparr>)))"
    using run c m a Inr by (auto simp: exchange_def check_then_def split: sum.splits)
  have "(s1 = s \<and> failing server) \<or> (\<exists>e. f a s = (Inl e, s1) \<and> failing server) \<or>
    (\<exists>b st1. f a s = (Inr b, s1) \<and> sk_out st1 = [] \<and> sk_faults st1 = lk_server_faults lk \<and> fst (snd (report (on_stream (W b) (st1, s1)))) = server)"
  proof (cases "lk_inflight lk \<ge> rl_max_inflight_connections limits")
    case True
    then show ?thesis using a error_response_failing [of ?in]
      by (auto simp: accept_connection_def on_stream_def split_beta)
  next
    case False
    then obtain r' where "serve_connection limits tier (?in, s) = (r', (server, s1))"
      using a by (auto simp: accept_connection_def) (metis prod.collapse)
    then have "serve_connection limits tier
        (\<lparr> sk_in = [], sk_at_end = lk_request_end lk, sk_out = [], sk_faults = lk_server_faults lk \<rparr>
          \<lparr> sk_in := take m (net_magic @ opcode # body) \<rparr>, s) = (r', (server, s1))" by simp
    from serve_connection_cases [OF req P(1,2) _ _ this] P(3) show ?thesis by fastforce
  qed
  then show ?thesis using r failed refused served by (cases sent) fastforce+
qed

lemma failing_status:
  assumes "failing st" "fst (read_status (cl\<lparr> sk_in := arriving l (sk_out st) \<rparr>)) = Inr status"
  shows "status = STATUS_ERROR"
proof -
  obtain n w where "sk_out st = take n (net_magic @ STATUS_ERROR # w)" using assms(1) unfolding failing_def by blast
  with arriving_take [of l "sk_out st"] obtain m where m: "arriving l (sk_out st) = take m (net_magic @ STATUS_ERROR # w)"
    by (metis take_take)
  with assms(2) obtain st1 where "read_status (cl\<lparr> sk_in := take m (net_magic @ STATUS_ERROR # w) \<rparr>) = (Inr status, st1)"
    by (metis prod.collapse)
  from reader_take(1) [OF reader_status this] show ?thesis by simp
qed

lemma failing_simple:
  assumes "failing st"
  shows "fst (expect_simple_response (cl\<lparr> sk_in := arriving l (sk_out st) \<rparr>)) \<noteq> Inr ()"
proof -
  obtain r st1 where r: "read_status (cl\<lparr> sk_in := arriving l (sk_out st) \<rparr>) = (r, st1)" by fastforce
  show ?thesis
  proof (cases r)
    case (Inr status)
    then have "status = STATUS_ERROR" using failing_status [OF assms] r by (metis fst_conv)
    moreover have "fst (and_then (read_remote_error st1) (\<lambda>e st2. (Inl e, st2))) \<noteq> Inr ()"
      by (simp add: and_then_def split: prod.splits sum.splits)
    ultimately show ?thesis using r Inr by (simp add: expect_simple_response_def)
  qed (simp add: expect_simple_response_def r)
qed

lemma exchange_simple:
  assumes req: "\<And>h. serve_request limits tier opcode h =
      and_then (on_stream P h) (\<lambda>a h1. and_then (on_tier (f a) h1) (\<lambda>_ h2. on_stream (write_status STATUS_OK) h2))"
    and P: "reader P" "read_only P" "\<And>st a'. fst (P (st\<lparr> sk_in := body \<rparr>)) = Inr a' \<Longrightarrow> a' = a"
    and send: "writer send (net_magic @ opcode # body)"
    and run: "exchange lk limits tier send expect_simple_response s = (r, s')"
  shows "(s' = s \<or> s' = snd (f a s)) \<and> (r = Inr () \<longrightarrow> f a s = (Inr (), s'))"
proof -
  from P(3) have "\<forall>st a'. fst (P (st\<lparr> sk_in := body \<rparr>)) = Inr a' \<longrightarrow> a' = a" by blast
  note cases = exchange_cases [where W = "\<lambda>_. write_status STATUS_OK", OF req P(1,2) this send run]
  show ?thesis using failing_simple by (cases rule: cases) auto
qed

section \<open>Safety over any link\<close>

lemma on_stream_seq:
  "and_then (on_stream f h) (\<lambda>a h1. and_then (on_stream (g a) h1) c) =
     and_then (on_stream (\<lambda>st. and_then (f st) (\<lambda>a st1. g a st1)) h) c"
  by (cases "f (fst h)"; cases "fst (f (fst h))") (auto simp: on_stream_def and_then_def split: prod.splits sum.splits)

lemma on_stream_return: "on_stream (\<lambda>st. (Inr a, st)) h = (Inr a, h)"
  by (simp add: on_stream_def)

abbreviation read_put :: "remote_limits \<Rightarrow> tcp_stream \<Rightarrow> kv_tier_entry io_result \<times> tcp_stream" where
  "read_put limits \<equiv> (\<lambda>st. and_then (read_key limits st) (\<lambda>k st1. read_entry limits k st1))"

lemma serve_requests:
  "serve_request limits tier OP_PUT h = and_then (on_stream (read_put limits) h)
     (\<lambda>e h1. and_then (on_tier (kt_put tier e) h1) (\<lambda>_ h2. on_stream (write_status STATUS_OK) h2))"
  "serve_request limits tier OP_REMOVE h = and_then (on_stream (read_key limits) h)
     (\<lambda>k h1. and_then (on_tier (kt_remove tier k) h1) (\<lambda>_ h2. on_stream (write_status STATUS_OK) h2))"
  "serve_request limits tier OP_CLEAR h = and_then (on_stream (\<lambda>st. (Inr (), st)) h)
     (\<lambda>_ h1. and_then (on_tier (kt_clear tier) h1) (\<lambda>_ h2. on_stream (write_status STATUS_OK) h2))"
  "serve_request limits tier OP_PING h = and_then (on_stream (\<lambda>st. (Inr (), st)) h)
     (\<lambda>_ h1. and_then (on_tier (kt_health tier) h1) (\<lambda>_ h2. on_stream (write_status STATUS_OK) h2))"
  by (simp_all add: serve_request_def on_stream_seq [symmetric] on_stream_return)

lemma read_put_argument:
  assumes "wire_key (te_key e)" "length (te_bytes e) < 2 ^ 63"
    "fst (read_put limits (st\<lparr> sk_in := key_bytes (te_key e) @ body_bytes e @ z \<rparr>)) = Inr e'"
  shows "e' = e"
proof -
  let ?st = "st\<lparr> sk_in := key_bytes (te_key e) @ body_bytes e @ z \<rparr>"
  obtain k st1 where k: "read_key limits ?st = (Inr k, st1)"
    using assms(3) by (cases "read_key limits ?st"; cases "fst (read_key limits ?st)") auto
  then have "key_fits limits (te_key e)" "k = te_key e" "st1 = st\<lparr> sk_in := body_bytes e @ z \<rparr>"
    using read_key_append [OF assms(1), where limits = limits and st = st and z = "body_bytes e @ z"] by auto
  then show ?thesis using assms(3) k read_entry_append(1) [OF assms(2), where limits = limits and st = st and z = z and k = "te_key e" and e' = e'] by auto
qed

lemma tcp_put_cases:
  assumes "wire_key (te_key e)" "length (te_bytes e) < 2 ^ 63" "tcp_put limits lk server tier e s = (r, s')"
  shows "(s' = s \<or> s' = snd (kt_put tier e s)) \<and> (r = Inr () \<longrightarrow> kt_put tier e s = (Inr (), s'))"
proof (cases "length (te_bytes e) > rl_max_payload_bytes limits")
  case True
  then show ?thesis using assms(3) by (auto simp: tcp_put_def)
next
  case False
  have send: "writer (\<lambda>st. and_then (send_key OP_PUT limits (te_key e) st) (\<lambda>_ st1. write_entry_body limits e st1))
      (net_magic @ OP_PUT # (key_bytes (te_key e) @ body_bytes e))"
    using writer_seq [OF writer_send_key [of OP_PUT limits "te_key e"] writer_body [of limits e]] by simp
  show ?thesis
    by (rule exchange_simple [where f = "kt_put tier" and a = e, OF serve_requests(1) _ _ _ send])
      (use assms False read_put_argument [OF assms(1,2), where limits = server and z = "[]"] in
        \<open>auto simp: tcp_put_def intro: readers\<close>)
qed

text \<open>C23:
  A remote write is applied at most once, and never reported falsely. However requests and answers are
  cut, whatever write fails and whatever the limits of the two sides are, a put either leaves the tier
  behind the server alone or applies exactly the entry the client was given; if it answers success, the tier
  accepted that entry.
\<close>

theorem remote_put_applies_at_most_once:
  assumes "wire_key (te_key e)" "length (te_bytes e) < 2 ^ 63" "tcp_put limits lk server tier e s = (r, s')"
  shows "(s' = s \<or> s' = snd (kt_put tier e s)) \<and> (r = Inr () \<longrightarrow> kt_put tier e s = (Inr (), s'))"
  using assms by (rule tcp_put_cases)

text \<open>The same holds of a remote removal, of clearing and of the health probe.
\<close>

theorem remote_commands_apply_at_most_once:
  assumes "wire_key k" "tcp_remove limits lk server tier k s = (r1, s1)"
    "tcp_clear limits lk server tier s = (r2, s2)" "tcp_ping limits lk server tier s = (r3, s3)"
  shows "(s1 = s \<or> s1 = snd (kt_remove tier k s)) \<and> (r1 = Inr () \<longrightarrow> kt_remove tier k s = (Inr (), s1)) \<and>
    (s2 = s \<or> s2 = snd (kt_clear tier s)) \<and> (r2 = Inr () \<longrightarrow> kt_clear tier s = (Inr (), s2)) \<and>
    (s3 = s \<or> s3 = snd (kt_health tier s)) \<and> (r3 = Inr () \<longrightarrow> kt_health tier s = (Inr (), s3))"
proof -
  have key: "writer (send_key OP_REMOVE limits k) (net_magic @ OP_REMOVE # key_bytes k)"
    using writer_send_key [of OP_REMOVE limits k] by simp
  have "(s1 = s \<or> s1 = snd (kt_remove tier k s)) \<and> (r1 = Inr () \<longrightarrow> kt_remove tier k s = (Inr (), s1))"
    by (rule exchange_simple [where f = "kt_remove tier" and a = k, OF serve_requests(2) _ _ _ key])
      (use assms read_key_append(1) [OF assms(1), where limits = server and z = "[]"] in \<open>auto simp: tcp_remove_def intro: readers\<close>)
  moreover have "(s2 = s \<or> s2 = snd (kt_clear tier s)) \<and> (r2 = Inr () \<longrightarrow> kt_clear tier s = (Inr (), s2))"
    by (rule exchange_simple [where f = "\<lambda>_. kt_clear tier" and a = "()" and body = "[]", OF serve_requests(3)])
      (use assms writer_header [of OP_CLEAR] in \<open>auto simp: tcp_clear_def intro: readers\<close>)
  moreover have "(s3 = s \<or> s3 = snd (kt_health tier s)) \<and> (r3 = Inr () \<longrightarrow> kt_health tier s = (Inr (), s3))"
    by (rule exchange_simple [where f = "\<lambda>_. kt_health tier" and a = "()" and body = "[]", OF serve_requests(4)])
      (use assms writer_header [of OP_PING] in \<open>auto simp: tcp_ping_def intro: readers\<close>)
  ultimately show ?thesis by blast
qed

abbreviation answer_get :: "remote_limits \<Rightarrow> kv_tier_entry option \<Rightarrow> tcp_stream \<Rightarrow> unit io_result \<times> tcp_stream" where
  "answer_get limits found \<equiv> (case found of
     Some entry \<Rightarrow> (\<lambda>st. and_then (write_status STATUS_OK st) (\<lambda>_ st1. write_entry_body limits entry st1))
   | None \<Rightarrow> write_status STATUS_MISS)"

lemma serve_get:
  "serve_request limits tier OP_GET h = and_then (on_stream (read_key limits) h)
     (\<lambda>k h1. and_then (on_tier (kt_get tier k) h1) (\<lambda>found h2. on_stream (answer_get limits found) h2))"
  by (auto simp: serve_request_def on_stream_def and_then_def fun_eq_iff split: option.splits prod.splits sum.splits)

abbreviation rekey :: "kv_block_key \<Rightarrow> kv_tier_entry \<Rightarrow> kv_tier_entry" where
  "rekey k e \<equiv> e\<lparr> te_block := (te_block e)\<lparr> blk_key := k \<rparr> \<rparr>"

lemma read_only_error:
  "and_then x (\<lambda>e st. (Inl e, st)) \<noteq> (Inr a, st1)" "fst (and_then x (\<lambda>e st. (Inl e, st))) \<noteq> Inr a"
  by (simp_all add: and_then_def split: prod.splits sum.splits)

lemma reader_remote_error: "reader (\<lambda>st. and_then (read_remote_error st) (\<lambda>e st2. (Inl e, st2)))"
  by (simp add: reader_def read_only_error)

lemma reader_receive: "reader (receive_entry limits k)"
  unfolding receive_entry_def [abs_def] by (intro readers reader_remote_error)

text \<open>What the client makes of a complete answer.\<close>

lemma receive_error: "fst (receive_entry limits k (cl\<lparr> sk_in := net_magic @ STATUS_ERROR # w \<rparr>)) \<noteq> Inr a"
  by (simp add: receive_entry_def read_only_error)

lemma receive_miss: "fst (receive_entry limits k (cl\<lparr> sk_in := net_magic @ [STATUS_MISS] \<rparr>)) = Inr None"
  by (simp add: receive_entry_def)

lemma receive_hit:
  assumes "length (te_bytes e) < 2 ^ 63"
  shows "fst (receive_entry limits k (cl\<lparr> sk_in := net_magic @ STATUS_OK # body_bytes e \<rparr>)) = Inr a \<longleftrightarrow>
    body_fits limits e \<and> a = Some (rekey k e)"
proof -
  let ?st = "cl\<lparr> sk_in := body_bytes e @ [] \<rparr>"
  obtain r st1 where r: "read_entry limits k ?st = (r, st1)" by fastforce
  have "fst (receive_entry limits k (cl\<lparr> sk_in := net_magic @ STATUS_OK # body_bytes e \<rparr>)) =
      (case r of Inl err \<Rightarrow> Inl err | Inr e' \<Rightarrow> Inr (Some e'))"
    using r by (simp add: receive_entry_def split: sum.splits)
  moreover have "r = Inr e' \<longleftrightarrow> body_fits limits e \<and> e' = rekey k e" for e'
    using read_entry_append(1) [OF assms, where limits = limits and k = k and st = cl and z = "[]" and e' = e'] r by simp
  ultimately show ?thesis by (cases r) auto
qed

text \<open>A refused entry puts an error answer behind the status byte; its magic is not a pin flag.\<close>

lemma receive_refused:
  "fst (receive_entry limits k (cl\<lparr> sk_in := net_magic @ STATUS_OK # (net_magic @ STATUS_ERROR # w) \<rparr>)) \<noteq> Inr a"
proof -
  have "net_read_u64 (cl\<lparr> sk_in := net_magic @ STATUS_ERROR # w \<rparr>) = (Inr (le_word net_magic), cl\<lparr> sk_in := STATUS_ERROR # w \<rparr>)"
    by (simp add: net_read_u64_def net_read_append)
  then show ?thesis by (simp add: receive_entry_def read_entry_def)
qed

lemma sound_status: "sk_faults st = [] \<Longrightarrow> write_status b st = (Inr (), st\<lparr> sk_out := sk_out st @ net_magic @ [b] \<rparr>)"
  by (simp add: write_status_def write_all_def)

lemma sound_body:
  "sk_faults st = [] \<Longrightarrow> body_fits limits e \<Longrightarrow>
     write_entry_body limits e st = (Inr (), st\<lparr> sk_out := sk_out st @ body_bytes e \<rparr>)"
  by (simp add: write_entry_body_def body_fits_def Let_def net_write_u64_def write_all_def body_bytes_def)

lemma refused_body: "\<not> body_fits limits e \<Longrightarrow>
    write_entry_body limits e st = (Inl (IoError InvalidInput ''KV payload exceeds remote protocol limits''), st)"
  by (auto simp: write_entry_body_def body_fits_def Let_def)

lemma sound_error: "sk_faults st = [] \<Longrightarrow> write_error_response msg st = (Inr (), st\<lparr> sk_out := sk_out st @ error_bytes msg \<rparr>)"
  by (simp add: write_error_response_def error_bytes_def Let_def sound_status net_write_u32_def write_all_def min_def)

lemma answer_get_bytes:
  assumes "sk_out st = []" "sk_faults st = []"
  shows "sk_out (fst (snd (report (on_stream (answer_get limits found) (st, s))))) =
    (case found of
       None \<Rightarrow> net_magic @ [STATUS_MISS]
     | Some e \<Rightarrow> net_magic @ STATUS_OK # (if body_fits limits e then body_bytes e
         else error_bytes ''KV payload exceeds remote protocol limits''))"
  using assms by (cases found) (simp_all add: on_stream_def sound_status sound_body refused_body report_def sound_error)

lemma tcp_get_cases:
  assumes "wire_key k" "lk_server_faults lk = []"
    "case fst (kt_get tier k s) of Inr (Some e) \<Rightarrow> length (te_bytes e) < 2 ^ 63 | _ \<Rightarrow> True"
    "tcp_get limits lk server tier k s = (r, s')"
  shows "(s' = s \<or> s' = snd (kt_get tier k s)) \<and> (r = Inr None \<longrightarrow> kt_get tier k s = (Inr None, s')) \<and>
    (\<forall>e'. r = Inr (Some e') \<longrightarrow> (\<exists>e. kt_get tier k s = (Inr (Some e), s') \<and> e' = rekey k e))"
proof -
  have send: "writer (send_key OP_GET limits k) (net_magic @ OP_GET # key_bytes k)"
    using writer_send_key [of OP_GET limits k] by simp
  have P: "\<forall>st a'. fst (read_key server (st\<lparr> sk_in := key_bytes k \<rparr>)) = Inr a' \<longrightarrow> a' = k"
    using read_key_append(1) [OF assms(1), where limits = server and z = "[]"] by simp
  have run: "exchange lk server tier (send_key OP_GET limits k) (receive_entry limits k) s = (r, s')"
    using assms(4) by (simp add: tcp_get_def)
  show ?thesis
  proof (cases rule: exchange_cases [where W = "answer_get server", OF serve_get reader_key read_only_messages(1) P send run])
    case (1 e)
    then show ?thesis by auto
  next
    case (2 client st)
    then obtain n w where "sk_out st = take n (net_magic @ STATUS_ERROR # w)" unfolding failing_def by blast
    with arriving_take [of "lk_answer_arrives lk" "sk_out st"] obtain m
      where m: "arriving (lk_answer_arrives lk) (sk_out st) = take m (net_magic @ STATUS_ERROR # w)" by (metis take_take)
    have "r \<noteq> Inr a" for a
      using reader_take(1) [OF reader_receive [of limits k], where st = client and m = m and
          bs = "net_magic @ STATUS_ERROR # w" and a = a] receive_error [where limits = limits and k = k and cl = client and w = w and a = a] 2(1) m by (metis prod.collapse)
    then show ?thesis using 2(3) by auto
  next
    case (3 client found st1)
    let ?full = "sk_out (fst (snd (report (on_stream (answer_get server found) (st1, s')))))"
    obtain m where m: "arriving (lk_answer_arrives lk) ?full = take m ?full" using arriving_take by blast
    have full: "fst (receive_entry limits k (client\<lparr> sk_in := ?full \<rparr>)) = Inr a" if "r = Inr a" for a
      using reader_take(1) [OF reader_receive [of limits k], where st = client and m = m and
          bs = ?full and a = a] 3(4) m that by (metis prod.collapse)
    note bytes = answer_get_bytes [OF 3(2) 3(3) [unfolded assms(2)], where limits = server and found = found and s = s']
    have "case found of None \<Rightarrow> a = None | Some e \<Rightarrow> a = Some (rekey k e)" if "r = Inr a" for a
      using full [OF that, unfolded bytes] assms(3) 3(1) receive_refused [where limits = limits and k = k and cl = client and a = a]
      by (cases found) (auto simp: receive_miss receive_hit error_bytes_def Let_def simp del: protocol_bytes split: if_splits)
    then show ?thesis using 3(1) by (cases found) fastforce+
  qed
qed

text \<open>C24:
  A remote read never invents data. When no write of the server fails while the connection lives on,
  every entry a remote read returns is the one the tier answered for the key, and a miss is a miss of the
  tier, wherever the request or the answer is cut.
\<close>

theorem remote_get_answers_the_tier:
  assumes "wire_key k" "lk_server_faults lk = []"
    "case fst (kt_get tier k s) of Inr (Some e) \<Rightarrow> length (te_bytes e) < 2 ^ 63 | _ \<Rightarrow> True"
    "tcp_get limits lk server tier k s = (r, s')"
  shows "(s' = s \<or> s' = snd (kt_get tier k s)) \<and> (r = Inr None \<longrightarrow> kt_get tier k s = (Inr None, s')) \<and>
    (\<forall>e'. r = Inr (Some e') \<longrightarrow> (\<exists>e. kt_get tier k s = (Inr (Some e), s') \<and> e' = rekey k e))"
  using assms by (rule tcp_get_cases)

section \<open>Remote tiers keep the contract of the engine\<close>

text \<open>A link on which no write of the server fails while the connection lives on.\<close>

definition steady :: "link \<Rightarrow> link" where
  "steady lk = lk\<lparr> lk_server_faults := [] \<rparr>"

definition small_view :: "(kv_block_key \<Rightarrow> kv_tier_entry option) \<Rightarrow> bool" where
  "small_view v \<longleftrightarrow> (\<forall>x \<in> ran v. length (te_bytes x) < 2 ^ 63)"

lemma small_view_le: "v' \<subseteq>\<^sub>m v \<Longrightarrow> small_view v \<Longrightarrow> small_view v'"
  by (force simp: small_view_def ran_def map_le_def dom_def)

lemma small_view_put:
  assumes "small_view v" "length (te_bytes x) < 2 ^ 63" "\<forall>k. k \<noteq> te_key x \<longrightarrow> v' k \<in> {None, v k}"
    "v' (te_key x) \<in> {None, v (te_key x), Some x}"
  shows "small_view v'"
proof -
  have "v' k = None \<or> v' k = v k \<or> v' k = Some x" for k using assms(3,4) by (cases "k = te_key x") auto
  then have "length (te_bytes y) < 2 ^ 63" if "v' k = Some y" for k y
    using that assms(1,2) by (metis (mono_tags, lifting) option.distinct(1) option.inject ranI small_view_def)
  then show ?thesis by (auto simp: small_view_def ran_def)
qed

context coherent_tier begin

lemma small_coherent: "coherent_tier vt view (\<lambda>s. invar s \<and> small_view (view s)) used fits"
proof
  fix s s' k and e :: io_error and r x w and u :: unit
  assume inv: "invar s \<and> small_view (view s)"
  show "view s' \<subseteq>\<^sub>m view s \<and> invar s' \<and> small_view (view s')" if "k \<in> used" "kt_get vt k s = (Inl e, s')"
    using get_error [OF _ that] inv small_view_le by blast
  show "(r = None \<or> r = view s k) \<and> view s' \<subseteq>\<^sub>m view s \<and> invar s' \<and> small_view (view s')"
    if "k \<in> used" "kt_get vt k s = (Inr r, s')"
    using get_result [OF _ that] inv small_view_le by blast
  show "view s' \<subseteq>\<^sub>m view s \<and> invar s' \<and> small_view (view s')" if "k \<in> used" "kt_remove vt k s = (w, s')"
    using remove_any [OF _ that] inv small_view_le by blast
  show "view s' k = None" if "k \<in> used" "kt_remove vt k s = (Inr u, s')" using remove_result [OF _ that] inv by blast
  show "(invar s' \<and> small_view (view s')) \<and> (\<forall>k. k \<noteq> te_key x \<longrightarrow> view s' k \<in> {None, view s k}) \<and>
      view s' (te_key x) \<in> {None, view s (te_key x), Some x}"
    if x: "te_key x \<in> used" "length (te_bytes x) < 2 ^ 63" "kt_put vt x s = (w, s')"
  proof -
    have v: "invar s' \<and> (\<forall>k. k \<noteq> te_key x \<longrightarrow> view s' k \<in> {None, view s k}) \<and>
        view s' (te_key x) \<in> {None, view s (te_key x), Some x}" using put_any [OF _ x] inv by blast
    then show ?thesis using small_view_put [of "view s" x "view s'"] inv x(2) by blast
  qed
  show "view s' (te_key x) \<in> {None, Some x}"
    if "te_key x \<in> used" "length (te_bytes x) < 2 ^ 63" "fits x" "kt_put vt x s = (Inr u, s')"
    using put_result [OF _ that] inv by blast
  show "te_key x = k" if "view s k = Some x" using view_key inv that by blast
qed

lemma remote_coherent:
  "coherent_tier (tcp_vt client (steady lk) server vt) view (\<lambda>s. invar s \<and> small_view (view s)) {k \<in> used. wire_key k} fits"
proof
  fix s s' k and e :: io_error and r x w and u :: unit
  let ?vt = "tcp_vt client (steady lk) server vt"
  assume inv: "invar s \<and> small_view (view s)"
  have get: "view s' \<subseteq>\<^sub>m view s \<and> invar s' \<and> (\<forall>a. y = Inr a \<longrightarrow> a = None \<or> a = view s k)"
    if k: "k \<in> {k \<in> used. wire_key k}" and run: "kt_get ?vt k s = (y, s')" for y
  proof -
    obtain q t where q: "kt_get vt k s = (q, t)" by fastforce
    have t: "view t \<subseteq>\<^sub>m view s \<and> invar t"
      using get_error [of s k _ t] get_result [of s k _ t] inv k q by (cases q) auto
    have ans: "q = Inr None \<or> q = Inr (view s k)" if "q = Inr a" for a
      using get_result [of s k a t] inv k q that by auto
    have small: "case fst (kt_get vt k s) of Inr (Some e) \<Rightarrow> length (te_bytes e) < 2 ^ 63 | _ \<Rightarrow> True"
    proof -
      have "length (te_bytes e) < 2 ^ 63" if "view s k = Some e" for e
        using inv that by (auto simp: small_view_def ran_def)
      then show ?thesis using ans q by (force split: sum.splits option.splits)
    qed
    have "tcp_get (tk_limits client) (steady lk) server vt k s = (y, s')" using run by (simp add: tcp_vt_def)
    from tcp_get_cases [OF _ _ small this] k have c: "s' = s \<or> s' = t" and d: "y = Inr None \<longrightarrow> q = Inr None"
      and e: "\<And>e'. y = Inr (Some e') \<Longrightarrow> \<exists>e. q = Inr (Some e) \<and> e' = rekey k e"
      using q by (auto simp: steady_def)
    have "a = view s k" if y: "y = Inr (Some x)" "a = Some x" for a x
    proof -
      obtain e where e: "q = Inr (Some e)" "x = rekey k e" using e y(1) by blast
      with ans have v: "view s k = Some e" by auto
      then have "te_key e = k" using view_key inv by blast
      with v e y(2) show ?thesis by (cases e, cases "te_block e") auto
    qed
    then have "a = None \<or> a = view s k" if "y = Inr a" for a using that by (cases a) auto
    with c t inv show ?thesis by auto
  qed
  show "view s' \<subseteq>\<^sub>m view s \<and> invar s' \<and> small_view (view s')"
    if "k \<in> {k \<in> used. wire_key k}" "kt_get ?vt k s = (Inl e, s')"
    using get [OF that] inv small_view_le by blast
  show "(r = None \<or> r = view s k) \<and> view s' \<subseteq>\<^sub>m view s \<and> invar s' \<and> small_view (view s')"
    if "k \<in> {k \<in> used. wire_key k}" "kt_get ?vt k s = (Inr r, s')"
    using get [OF that] inv small_view_le by blast
  have rem: "(s' = s \<or> s' = snd (kt_remove vt k s)) \<and> (w = Inr () \<longrightarrow> kt_remove vt k s = (Inr (), s'))"
    if "k \<in> {k \<in> used. wire_key k}" "kt_remove ?vt k s = (w, s')" for w
  proof -
    obtain r2 s2 r3 s3 where o: "tcp_clear (tk_limits client) (steady lk) server vt s = (r2, s2)"
      "tcp_ping (tk_limits client) (steady lk) server vt s = (r3, s3)" by fastforce
    have "tcp_remove (tk_limits client) (steady lk) server vt k s = (w, s')" using that(2) by (simp add: tcp_vt_def)
    from remote_commands_apply_at_most_once [OF _ this o] that(1) show ?thesis by simp
  qed
  show "view s' \<subseteq>\<^sub>m view s \<and> invar s' \<and> small_view (view s')"
    if "k \<in> {k \<in> used. wire_key k}" "kt_remove ?vt k s = (w, s')"
  proof -
    have "view s' \<subseteq>\<^sub>m view s \<and> invar s'"
      using rem [OF that] remove_any [of s k "fst (kt_remove vt k s)" "snd (kt_remove vt k s)"] inv that(1) by auto
    then show ?thesis using inv small_view_le by blast
  qed
  show "view s' k = None" if "k \<in> {k \<in> used. wire_key k}" "kt_remove ?vt k s = (Inr u, s')"
    using rem [OF that] remove_result [of s k "()" s'] inv that(1) by simp
  have put: "(s' = s \<or> s' = snd (kt_put vt x s)) \<and> (w = Inr () \<longrightarrow> kt_put vt x s = (Inr (), s'))"
    if "te_key x \<in> {k \<in> used. wire_key k}" "length (te_bytes x) < 2 ^ 63" "kt_put ?vt x s = (w, s')" for w
    using tcp_put_cases [of x "tk_limits client" "steady lk" server vt s w s'] that by (simp add: tcp_vt_def)
  show "(invar s' \<and> small_view (view s')) \<and> (\<forall>k. k \<noteq> te_key x \<longrightarrow> view s' k \<in> {None, view s k}) \<and>
      view s' (te_key x) \<in> {None, view s (te_key x), Some x}"
    if x: "te_key x \<in> {k \<in> used. wire_key k}" "length (te_bytes x) < 2 ^ 63" "kt_put ?vt x s = (w, s')"
  proof -
    have v: "invar s' \<and> (\<forall>k. k \<noteq> te_key x \<longrightarrow> view s' k \<in> {None, view s k}) \<and>
        view s' (te_key x) \<in> {None, view s (te_key x), Some x}"
      using put [OF x] put_any [of s x "fst (kt_put vt x s)" "snd (kt_put vt x s)"] inv x(1,2) by auto
    then have "small_view (view s')" using small_view_put [of "view s" x "view s'"] inv x(2) by blast
    with v show ?thesis by blast
  qed
  show "view s' (te_key x) \<in> {None, Some x}"
    if "te_key x \<in> {k \<in> used. wire_key k}" "length (te_bytes x) < 2 ^ 63" "fits x" "kt_put ?vt x s = (Inr u, s')"
    using put [OF that(1,2,4)] put_result [of s x "()" s'] inv that(1-3) by simp
  show "te_key x = k" if "view s k = Some x" using view_key inv that by blast
qed

end

interpretation remote_cct: coherent_tier "tcp_vt client (steady lk) server (cct_vt cr cfg name)" "cct_view cr used"
  "\<lambda>s. cct_inv cr cfg used s \<and> small_view (cct_view cr used s)" "{k \<in> used. wire_key k}" "cct_fits cfg"
  by (rule cct.remote_coherent)

section \<open>Transparency over a sound link\<close>

definition sound_link :: "link \<Rightarrow> remote_limits \<Rightarrow> bool" where
  "sound_link lk server \<longleftrightarrow> lk_connect lk = Inr () \<and> lk_client_faults lk = [] \<and> lk_request_arrives lk = None \<and>
     lk_inflight lk < rl_max_inflight_connections server \<and> lk_server_faults lk = [] \<and> lk_answer_arrives lk = None"

text \<open>An error message that fits the answer.\<close>

definition plain_error :: "io_error \<Rightarrow> bool" where
  "plain_error e \<longleftrightarrow> (case e of IoError _ msg \<Rightarrow> utf8_valid (as_bytes msg) \<and> length msg \<le> MAX_ERROR_BYTES | Panicked _ \<Rightarrow> False)"

text \<open>What a remote caller sees of a result of the tier: errors become \<open>io::Error::other\<close>.\<close>

definition seen_remotely :: "('a \<Rightarrow> 'b) \<Rightarrow> 'a io_result \<times> 's \<Rightarrow> 'b io_result \<times> 's" where
  "seen_remotely g x = (case x of (Inr a, s) \<Rightarrow> (Inr (g a), s) | (Inl e, s) \<Rightarrow> (Inl (IoError Other (error_string e)), s))"

lemma read_remote_error_append:
  assumes "utf8_valid (as_bytes msg)" "length msg \<le> MAX_ERROR_BYTES"
  shows "fst (read_status (cl\<lparr> sk_in := error_bytes msg \<rparr>)) = Inr STATUS_ERROR"
    and "fst (read_remote_error (snd (read_status (cl\<lparr> sk_in := error_bytes msg \<rparr>)))) = Inr (IoError Other msg)"
proof -
  have "unat (of_nat (length msg) :: u32) = length msg" using assms(2) by (simp add: unat_of_nat MAX_ERROR_BYTES_def)
  then show "fst (read_status (cl\<lparr> sk_in := error_bytes msg \<rparr>)) = Inr STATUS_ERROR"
    and "fst (read_remote_error (snd (read_status (cl\<lparr> sk_in := error_bytes msg \<rparr>)))) = Inr (IoError Other msg)"
    using assms net_read_append [where a = "as_bytes msg" and n = "length msg" and st = cl and z = "[]"]
    by (simp_all add: error_bytes_def Let_def read_remote_error_def)
qed

lemma receive_error_bytes:
  assumes "utf8_valid (as_bytes msg)" "length msg \<le> MAX_ERROR_BYTES"
  shows "fst (receive_entry limits k (cl\<lparr> sk_in := error_bytes msg \<rparr>)) = Inl (IoError Other msg)"
    and "fst (expect_simple_response (cl\<lparr> sk_in := error_bytes msg \<rparr>)) = Inl (IoError Other msg)"
proof -
  obtain r st1 where r: "read_status (cl\<lparr> sk_in := error_bytes msg \<rparr>) = (r, st1)" by fastforce
  obtain r2 st2 where r2: "read_remote_error st1 = (r2, st2)" by fastforce
  have "r = Inr STATUS_ERROR" "r2 = Inr (IoError Other msg)"
    using read_remote_error_append [OF assms, where cl = cl] r r2 by simp_all
  then show "fst (receive_entry limits k (cl\<lparr> sk_in := error_bytes msg \<rparr>)) = Inl (IoError Other msg)"
    and "fst (expect_simple_response (cl\<lparr> sk_in := error_bytes msg \<rparr>)) = Inl (IoError Other msg)"
    using r r2 by (simp_all add: receive_entry_def expect_simple_response_def)
qed

lemma simple_ok: "fst (expect_simple_response (cl\<lparr> sk_in := net_magic @ [STATUS_OK] \<rparr>)) = Inr ()"
  by (simp add: expect_simple_response_def)

text \<open>The whole request reaches the server, the whole answer the client.\<close>

lemma sound_exchange:
  assumes req: "\<And>h. serve_request server tier opcode h =
      and_then (on_stream P h) (\<lambda>a h1. and_then (on_tier (f a) h1) (\<lambda>b h2. on_stream (W b) h2))"
    and P: "\<And>st. P (st\<lparr> sk_in := body \<rparr>) = (Inr a, st\<lparr> sk_in := [] \<rparr>)"
    and send: "\<And>st. sk_faults st = [] \<Longrightarrow> send st = (Inr (), st\<lparr> sk_out := sk_out st @ net_magic @ opcode # body \<rparr>)"
    and W: "\<And>b st. fst (f a s) = Inr b \<Longrightarrow> sk_faults st = [] \<Longrightarrow> W b st = (Inr (), st\<lparr> sk_out := sk_out st @ answer b \<rparr>)"
    and plain: "case fst (f a s) of Inl e \<Rightarrow> plain_error e | Inr _ \<Rightarrow> True"
    and rcv: "\<And>cl b. fst (f a s) = Inr b \<Longrightarrow> fst (receive (cl\<lparr> sk_in := answer b \<rparr>)) = Inr (g b)"
      "\<And>cl msg. utf8_valid (as_bytes msg) \<Longrightarrow> length msg \<le> MAX_ERROR_BYTES \<Longrightarrow>
         fst (receive (cl\<lparr> sk_in := error_bytes msg \<rparr>)) = Inl (IoError Other msg)"
    and link: "sound_link lk server"
  shows "exchange lk server tier send receive s = seen_remotely g (f a s)"
proof -
  obtain r s1 where f: "f a s = (r, s1)" by fastforce
  let ?st = "\<lparr> sk_in = net_magic @ opcode # body, sk_at_end = lk_request_end lk, sk_out = [], sk_faults = [] \<rparr>"
  have h: "read_request_header ?st = (Inr opcode, ?st\<lparr> sk_in := body \<rparr>)"
    using read_header_append(1) [where st = ?st and b = opcode and z = body] by simp
  have p: "P (?st\<lparr> sk_in := body \<rparr>) = (Inr a, ?st\<lparr> sk_in := [] \<rparr>)" by (rule P)
  let ?cl = "\<lparr> sk_in = [], sk_at_end = lk_answer_end lk, sk_out = net_magic @ opcode # body, sk_faults = [] \<rparr>"
  have busy: "\<not> rl_max_inflight_connections server \<le> lk_inflight lk" using link by (simp add: sound_link_def)
  show ?thesis
  proof (cases r)
    case (Inl e)
    then obtain kind msg where e: "e = IoError kind msg" "utf8_valid (as_bytes msg)" "length msg \<le> MAX_ERROR_BYTES"
      using plain f by (auto simp: plain_error_def split: io_error.splits)
    have "snd (serve_connection server tier (?st, s)) = (?st\<lparr> sk_in := [], sk_out := error_bytes msg \<rparr>, s1)"
      using h p f Inl e
      by (simp add: serve_connection_report on_stream_def on_tier_def req report_def sound_error)
    then show ?thesis
      using link busy send rcv(2) [OF e(2,3), of ?cl] f Inl e(1)
      by (simp add: exchange_def sound_link_def arriving_def accept_connection_def seen_remotely_def)
  next
    case (Inr b)
    have "snd (serve_connection server tier (?st, s)) = (?st\<lparr> sk_in := [], sk_out := answer b \<rparr>, s1)"
      using h p f Inr W
      by (simp add: serve_connection_report on_stream_def on_tier_def req report_def)
    then show ?thesis
      using link busy send rcv(1) [of b ?cl] f Inr
      by (simp add: exchange_def sound_link_def arriving_def accept_connection_def seen_remotely_def)
  qed
qed

lemma sound_send_key:
  assumes "wire_key k" "key_fits limits k" "sk_faults st = []"
  shows "send_key opcode limits k st = (Inr (), st\<lparr> sk_out := sk_out st @ net_magic @ opcode # key_bytes k \<rparr>)"
proof -
  have "\<not> 0xFFFFFFFF < int (length (key_model_fingerprint k))" using assms(1) by (simp add: wire_key_def)
  then show ?thesis
    using assms(2,3) sound_u32s [of "key_numbers k"]
    by (simp add: send_key_def write_request_header_def write_key_def key_fits_def key_bytes_def Let_def
        net_write_u32_def write_all_def sound_writer_def as_bytes_def)
qed

lemma sound_request_header:
  "sk_faults st = [] \<Longrightarrow> write_request_header opcode st = (Inr (), st\<lparr> sk_out := sk_out st @ net_magic @ opcode # [] \<rparr>)"
  by (simp add: write_request_header_def write_all_def)

lemma read_key_whole: "wire_key k \<Longrightarrow> key_fits limits k \<Longrightarrow> read_key limits (st\<lparr> sk_in := key_bytes k \<rparr>) = (Inr k, st\<lparr> sk_in := [] \<rparr>)"
  using read_key_append [where k = k and limits = limits and st = st and z = "[]"] by (simp add: prod_eq_iff)

lemma read_put_whole:
  assumes "wire_key (te_key e)" "key_fits limits (te_key e)" "body_fits limits e" "length (te_bytes e) < 2 ^ 63"
  shows "read_put limits (st\<lparr> sk_in := key_bytes (te_key e) @ body_bytes e \<rparr>) = (Inr e, st\<lparr> sk_in := [] \<rparr>)"
proof -
  have "read_key limits (st\<lparr> sk_in := key_bytes (te_key e) @ body_bytes e \<rparr>) = (Inr (te_key e), st\<lparr> sk_in := body_bytes e \<rparr>)"
    using read_key_append [OF assms(1), where limits = limits and st = st and z = "body_bytes e"] assms(2)
    by (simp add: prod_eq_iff)
  moreover have "read_entry limits (te_key e) (st\<lparr> sk_in := body_bytes e \<rparr>) = (Inr e, st\<lparr> sk_in := [] \<rparr>)"
    using read_entry_append [OF assms(4), where limits = limits and k = "te_key e" and st = st and z = "[]"] assms(3)
    by (simp add: prod_eq_iff)
  ultimately show ?thesis by simp
qed

definition plain :: "'a io_result \<times> 's \<Rightarrow> bool" where
  "plain x \<longleftrightarrow> (case fst x of Inl e \<Rightarrow> plain_error e | Inr _ \<Rightarrow> True)"

lemma sound_get:
  assumes "sound_link lk server" "wire_key k" "key_fits limits k" "key_fits server k" "plain (kt_get tier k s)"
    and found: "case fst (kt_get tier k s) of
        Inr (Some e') \<Rightarrow> body_fits limits e' \<and> body_fits server e' \<and> length (te_bytes e') < 2 ^ 63 | _ \<Rightarrow> True"
  shows "tcp_get limits lk server tier k s = seen_remotely (map_option (rekey k)) (kt_get tier k s)"
  unfolding tcp_get_def
proof (rule sound_exchange [where f = "kt_get tier" and W = "answer_get server"
    and answer = "\<lambda>found. net_magic @ (case found of None \<Rightarrow> [STATUS_MISS] | Some e \<Rightarrow> STATUS_OK # body_bytes e)",
    OF serve_get read_key_whole [OF assms(2,4)] sound_send_key [OF assms(2,3)]])
  let ?answer = "\<lambda>found. net_magic @ (case found of None \<Rightarrow> [STATUS_MISS] | Some e \<Rightarrow> STATUS_OK # body_bytes e)"
  show "answer_get server b st = (Inr (), st\<lparr> sk_out := sk_out st @ ?answer b \<rparr>)"
    if "fst (kt_get tier k s) = Inr b" "sk_faults st = []" for b st
    using that found by (cases b) (simp_all add: sound_status sound_body)
  show "fst (receive_entry limits k (cl\<lparr> sk_in := ?answer b \<rparr>)) = Inr (map_option (rekey k) b)"
    if "fst (kt_get tier k s) = Inr b" for cl b
    using that found receive_hit [where limits = limits and k = k and cl = cl and a = "map_option (rekey k) b"]
    by (cases b) (simp_all add: receive_miss [simplified])
qed (use assms(1,5) receive_error_bytes(1) in \<open>simp_all add: plain_def\<close>)

lemma sound_simple:
  assumes "\<And>h. serve_request server tier opcode h = and_then (on_stream P h)
      (\<lambda>a h1. and_then (on_tier (f a) h1) (\<lambda>_ h2. on_stream (write_status STATUS_OK) h2))"
    "\<And>st. P (st\<lparr> sk_in := body \<rparr>) = (Inr a, st\<lparr> sk_in := [] \<rparr>)"
    "\<And>st. sk_faults st = [] \<Longrightarrow> send st = (Inr (), st\<lparr> sk_out := sk_out st @ net_magic @ opcode # body \<rparr>)"
    "plain (f a s)" "sound_link lk server"
  shows "exchange lk server tier send expect_simple_response s = seen_remotely id (f a s)"
  by (rule sound_exchange [where f = f and W = "\<lambda>_. write_status STATUS_OK" and answer = "\<lambda>_. net_magic @ [STATUS_OK]",
        OF assms(1-3)])
    (use assms(4,5) receive_error_bytes(2) simple_ok in \<open>simp_all add: plain_def sound_status\<close>)

lemma sound_put:
  assumes "sound_link lk server" "wire_key (te_key e)" "key_fits limits (te_key e)" "key_fits server (te_key e)"
    "body_fits limits e" "body_fits server e" "length (te_bytes e) < 2 ^ 63" "plain (kt_put tier e s)"
  shows "tcp_put limits lk server tier e s = seen_remotely id (kt_put tier e s)"
proof -
  have "sk_faults st = [] \<Longrightarrow> and_then (send_key OP_PUT limits (te_key e) st) (\<lambda>_ st1. write_entry_body limits e st1) =
      (Inr (), st\<lparr> sk_out := sk_out st @ net_magic @ OP_PUT # (key_bytes (te_key e) @ body_bytes e) \<rparr>)" for st
    using assms(5) by (simp add: sound_send_key [OF assms(2,3)] sound_body)
  from sound_simple [OF serve_requests(1) read_put_whole [OF assms(2,4,6,7)] this assms(8,1)]
  show ?thesis using assms(5) by (simp add: tcp_put_def body_fits_def)
qed


section \<open>Concrete exchanges\<close>

text \<open>A tier that holds one entry, and two links.\<close>

definition cell_tier :: "kv_tier_entry option kv_tier" where
  "cell_tier = \<lparr> kt_name = ''cell'',
     kt_get = (\<lambda>k s. (Inr (case s of Some e \<Rightarrow> if te_key e = k then Some e else None | None \<Rightarrow> None), s)),
     kt_put = (\<lambda>e s. (Inr (), Some e)),
     kt_remove = (\<lambda>k s. (Inr (), case s of Some e \<Rightarrow> if te_key e = k then None else s | None \<Rightarrow> None)),
     kt_clear = (\<lambda>s. (Inr (), None)), kt_health = default_health \<rparr>"

definition demo_limits :: remote_limits where
  "demo_limits = \<lparr> rl_max_payload_bytes = 64, rl_max_model_bytes = 16, rl_max_inflight_connections = 1,
     rl_connect_timeout = dur_zero, rl_io_timeout = dur_zero \<rparr>"

definition demo_link :: "(nat \<times> io_error) option list \<Rightarrow> nat option \<Rightarrow> link" where
  "demo_link faults arrives = \<lparr> lk_connect = Inr (), lk_client_faults = [], lk_request_arrives = None,
     lk_request_end = IoError UnexpectedEof ''eof'', lk_inflight = 0, lk_server_faults = faults,
     lk_answer_arrives = arrives, lk_answer_end = IoError UnexpectedEof ''eof'' \<rparr>"

lemma demo_wire [simp]: "wire_key demo_key"
  by (simp add: wire_key_def demo_key_def utf8_valid_def utf8_lead_def as_bytes_def)

lemma demo_fits [simp]: "key_fits demo_limits demo_key" "body_fits demo_limits demo_tier_entry"
    "te_key demo_tier_entry = demo_key" "te_bytes demo_tier_entry = [5, 6]"
  by (simp_all add: key_fits_def demo_limits_def demo_key_def body_fits_def demo_tier_entry_def)

lemma cell_tier_simps [simp]:
  "kt_get cell_tier k s = (Inr (case s of Some e \<Rightarrow> if te_key e = k then Some e else None | None \<Rightarrow> None), s)"
  "kt_put cell_tier e s = (Inr (), Some e)" "kt_clear cell_tier s = (Inr (), None)" "kt_health cell_tier s = (Inr (), s)"
  "fst (kt_remove cell_tier k s) = Inr ()"
  by (simp_all add: cell_tier_def default_health_def)


theorem remote_put_applies_at_most_once_witness:
  "snd (tcp_put demo_limits (demo_link [Some (3, IoError TimedOut ''time-out'')] (Some 5)) demo_limits cell_tier demo_tier_entry None)
     \<in> {None, Some demo_tier_entry}"
proof -
  obtain r s' where "tcp_put demo_limits (demo_link [Some (3, IoError TimedOut ''time-out'')] (Some 5)) demo_limits
      cell_tier demo_tier_entry None = (r, s')" by fastforce
  with remote_put_applies_at_most_once [OF _ _ this] show ?thesis by (simp add: cell_tier_def)
qed

theorem remote_commands_apply_at_most_once_witness:
  "snd (tcp_clear demo_limits (demo_link [] (Some 3)) demo_limits cell_tier (Some demo_tier_entry)) \<in> {None, Some demo_tier_entry}"
proof -
  let ?lk = "demo_link [] (Some 3)"
  obtain r1 s1 where 1: "tcp_remove demo_limits ?lk demo_limits cell_tier demo_key (Some demo_tier_entry) = (r1, s1)" by fastforce
  obtain r2 s2 where 2: "tcp_clear demo_limits ?lk demo_limits cell_tier (Some demo_tier_entry) = (r2, s2)" by fastforce
  obtain r3 s3 where 3: "tcp_ping demo_limits ?lk demo_limits cell_tier (Some demo_tier_entry) = (r3, s3)" by fastforce
  from remote_commands_apply_at_most_once [OF demo_wire 1 2 3] 2 show ?thesis by (auto simp: cell_tier_def)
qed

theorem remote_get_answers_the_tier_witness:
  "fst (tcp_get demo_limits (demo_link [] (Some 20)) demo_limits cell_tier demo_key (Some demo_tier_entry)) \<noteq> Inr None"
proof -
  obtain r s' where run: "tcp_get demo_limits (demo_link [] (Some 20)) demo_limits cell_tier demo_key (Some demo_tier_entry) = (r, s')"
    by fastforce
  have "lk_server_faults (demo_link [] (Some 20)) = []" by (simp add: demo_link_def)
  from remote_get_answers_the_tier [OF demo_wire this _ run] run show ?thesis by (auto simp: cell_tier_def)
qed

lemma timed_out_answer:
  assumes "sk_out st = []" "sk_faults st = [None, None, None, None, None, Some (0, IoError TimedOut ''time-out'')]"
  shows "sk_out (fst (snd (report (on_stream (answer_get demo_limits (Some demo_tier_entry)) (st, s))))) =
    net_magic @ STATUS_OK # u64_le 9 @ 1 # u64_le 2 @ error_bytes ''time-out''"
proof -
  have "answer_get demo_limits (Some demo_tier_entry) st = (Inl (IoError TimedOut ''time-out''),
      st\<lparr> sk_out := net_magic @ STATUS_OK # u64_le 9 @ 1 # u64_le 2, sk_faults := [] \<rparr>)"
    using assms
    by (simp add: write_status_def write_all_def write_entry_body_def demo_limits_def net_write_u64_def Let_def bool_byte_def)
      (simp add: demo_tier_entry_def)
  then show ?thesis by (simp add: on_stream_def report_def sound_error)
qed

lemma corrupted_receive:
  "fst (receive_entry demo_limits demo_key (cl\<lparr> sk_in := net_magic @ STATUS_OK # u64_le 9 @ 1 # u64_le 2 @ error_bytes msg \<rparr>)) =
     Inr (Some (demo_tier_entry\<lparr> te_block := (te_block demo_tier_entry)\<lparr> blk_bytes := [82, 75] \<rparr> \<rparr>))"
proof -
  have "read_exact 2 (cl\<lparr> sk_in := error_bytes msg \<rparr>) = (Inr [82, 75], cl\<lparr> sk_in := drop 2 (error_bytes msg) \<rparr>)"
    by (simp add: read_exact_def error_bytes_def Let_def net_magic_def as_bytes_def numeral_2_eq_2)
  then show ?thesis by (simp add: receive_entry_def read_entry_def demo_limits_def demo_tier_entry_def)
qed


end
