(* ===== verification/Memory.thy ===== *)
theory Memory
  imports Rivet_Prelude
begin

text \<open>
  The pinned memory pool of \<open>src/memory.rs\<close>. A page allocator is an interface whose laws say which
  blocks are live; the heap allocator of the code provides them. Whatever leases are taken and
  dropped, the regions of the pool are exactly the live blocks, no address belongs to two of them, and the
  cache stays within its limit.
\<close>

section \<open>Page allocators\<close>

text \<open>Addresses are natural numbers; \<open>'h\<close> is the state of the memory behind the allocator.\<close>

record 'h page_allocator =
  pa_name :: string
  pa_allocate :: "nat \<Rightarrow> u32 option \<Rightarrow> 'h \<Rightarrow> nat io_result \<times> 'h"
  pa_deallocate :: "nat \<Rightarrow> nat \<Rightarrow> u32 option \<Rightarrow> 'h \<Rightarrow> 'h"
  pa_page_locked :: bool
  pa_numa_supported :: bool

type_synonym block = "nat \<times> nat \<times> u32 option"

definition in_block :: "nat \<Rightarrow> block \<Rightarrow> bool" where
  "in_block x b \<longleftrightarrow> fst b \<le> x \<and> x < fst b + fst (snd b)"

text \<open>No address lies in two blocks.\<close>

definition disjoint_blocks :: "block multiset \<Rightarrow> bool" where
  "disjoint_blocks M \<longleftrightarrow> (\<forall>x. size (filter_mset (in_block x) M) \<le> 1)"

locale lawful_allocator =
  fixes pa :: "'h page_allocator"
    and live :: "'h \<Rightarrow> block multiset"
    and heap_ok :: "'h \<Rightarrow> bool"
  assumes allocate_ok: "heap_ok h \<Longrightarrow> 0 < bytes \<Longrightarrow> bytes \<le> usize_max \<Longrightarrow> pa_allocate pa bytes numa h = (Inr p, h') \<Longrightarrow>
      heap_ok h' \<and> live h' = add_mset (p, bytes, numa) (live h)"
    and allocate_failed: "heap_ok h \<Longrightarrow> pa_allocate pa bytes numa h = (Inl e, h') \<Longrightarrow> heap_ok h' \<and> live h' = live h"
    and deallocate: "heap_ok h \<Longrightarrow> (p, bytes, numa) \<in># live h \<Longrightarrow>
      heap_ok (pa_deallocate pa p bytes numa h) \<and> live (pa_deallocate pa p bytes numa h) = live h - {#(p, bytes, numa)#}"
    and live_disjoint: "heap_ok h \<Longrightarrow> disjoint_blocks (live h)"

subsection \<open>The heap allocator\<close>

text \<open>
  The system allocator serves zeroed blocks at growing multiples of the alignment, as long as it has
  room. \<open>Layout::from_size_align\<close> refuses sizes that exceed \<open>isize::MAX\<close> when rounded up to 64.
\<close>

record heap =
  hp_next :: nat
  hp_room :: nat
  hp_live :: "block multiset"

definition layout_ok :: "nat \<Rightarrow> unit io_result" where
  "layout_ok bytes =
     (if int bytes > 0x7FFFFFFFFFFFFFFF - 63
      then Inl (IoError InvalidInput ''allocation size cannot be represented by the host allocator'') else Inr ())"

definition heap_allocate :: "nat \<Rightarrow> u32 option \<Rightarrow> heap \<Rightarrow> nat io_result \<times> heap" where
  "heap_allocate bytes numa h =
     (if numa \<noteq> None
      then (Inl (IoError Unsupported ''heap reference allocator does not implement NUMA placement''), h)
      else check_then (layout_ok bytes) h (\<lambda>_.
        if bytes \<le> hp_room h
        then (let p = 64 * ((hp_next h + 63) div 64) in
              (Inr p, \<lparr> hp_next = p + bytes, hp_room = hp_room h - bytes,
                        hp_live = add_mset (p, bytes, None) (hp_live h) \<rparr>))
        else (Inl (io_other ''heap allocation failed''), h)))"

definition heap_deallocate :: "nat \<Rightarrow> nat \<Rightarrow> u32 option \<Rightarrow> heap \<Rightarrow> heap" where
  "heap_deallocate p bytes numa h =
     (case layout_ok bytes of
        Inr _ \<Rightarrow> h\<lparr> hp_room := hp_room h + bytes, hp_live := hp_live h - {#(p, bytes, None)#} \<rparr>
      | Inl _ \<Rightarrow> h)"

definition heap_page_allocator :: "heap page_allocator" where
  "heap_page_allocator = \<lparr> pa_name = ''heap-reference'', pa_allocate = heap_allocate, pa_deallocate = heap_deallocate,
     pa_page_locked = False, pa_numa_supported = False \<rparr>"

definition heap_inv :: "heap \<Rightarrow> bool" where
  "heap_inv h \<longleftrightarrow> disjoint_blocks (hp_live h) \<and>
     (\<forall>b \<in># hp_live h. fst b + fst (snd b) \<le> hp_next h \<and> snd (snd b) = None \<and> layout_ok (fst (snd b)) = Inr ())"

lemma in_block_above: "fst b + fst (snd b) \<le> p \<Longrightarrow> p \<le> x \<Longrightarrow> \<not> in_block x b"
  by (simp add: in_block_def)

lemma disjoint_add:
  assumes "disjoint_blocks M" "\<forall>b \<in># M. fst b + fst (snd b) \<le> p"
  shows "disjoint_blocks (add_mset (p, n, numa) M)"
  unfolding disjoint_blocks_def
proof
  fix x
  show "size (filter_mset (in_block x) (add_mset (p, n, numa) M)) \<le> 1"
  proof (cases "in_block x (p, n, numa)")
    case True
    then have "p \<le> x" by (simp add: in_block_def)
    then have "b \<notin># M" if "in_block x b" for b using assms(2) in_block_above that by blast
    then have "filter_mset (in_block x) M = {#}" by (auto simp: multiset_eq_iff not_in_iff)
    then show ?thesis using True by simp
  next
    case False
    then show ?thesis using assms(1) by (simp add: disjoint_blocks_def)
  qed
qed

lemma disjoint_subset: "disjoint_blocks M \<Longrightarrow> N \<subseteq># M \<Longrightarrow> disjoint_blocks N"
  unfolding disjoint_blocks_def by (meson le_trans multiset_filter_mono size_mset_mono)

interpretation heap_pages: lawful_allocator heap_page_allocator hp_live heap_inv
proof
  fix h h' :: heap and bytes p and numa :: "u32 option" and e
  assume ok: "heap_inv h"
  show "heap_inv h' \<and> hp_live h' = add_mset (p, bytes, numa) (hp_live h)"
    if "0 < bytes" "bytes \<le> usize_max" "pa_allocate heap_page_allocator bytes numa h = (Inr p, h')"
  proof -
    from that(3) have n: "numa = None" "layout_ok bytes = Inr ()" and p: "p = 64 * ((hp_next h + 63) div 64)"
      and h': "h' = \<lparr> hp_next = p + bytes, hp_room = hp_room h - bytes, hp_live = add_mset (p, bytes, None) (hp_live h) \<rparr>"
      by (auto simp: heap_page_allocator_def heap_allocate_def check_then_eq_Inr Let_def split: if_splits)
    have "hp_next h \<le> p" using p by linarith
    then have below: "\<forall>b \<in># hp_live h. fst b + fst (snd b) \<le> p" using ok by (auto simp: heap_inv_def)
    then show ?thesis using ok n disjoint_add [OF _ below] by (auto simp: heap_inv_def h')
  qed
  show "heap_inv h' \<and> hp_live h' = hp_live h" if "pa_allocate heap_page_allocator bytes numa h = (Inl e, h')"
    using that ok by (auto simp: heap_page_allocator_def heap_allocate_def layout_ok_def Let_def split: if_splits)
  show "heap_inv (pa_deallocate heap_page_allocator p bytes numa h) \<and>
      hp_live (pa_deallocate heap_page_allocator p bytes numa h) = hp_live h - {#(p, bytes, numa)#}"
    if "(p, bytes, numa) \<in># hp_live h"
  proof -
    have "numa = None" "layout_ok bytes = Inr ()" using ok that by (force simp: heap_inv_def)+
    then show ?thesis using ok disjoint_subset [of "hp_live h" "hp_live h - {#(p, bytes, None)#}"]
      by (auto simp: heap_page_allocator_def heap_deallocate_def heap_inv_def dest: in_diffD)
  qed
  show "disjoint_blocks (hp_live h)" using ok by (simp add: heap_inv_def)
qed

section \<open>The pool\<close>

record region =
  rg_pointer :: nat
  rg_capacity :: nat
  rg_numa_node :: "u32 option"

record lease =
  ls_region :: region
  ls_len :: nat

record pinned_pool =
  pp_max_cached_bytes :: nat
  pp_cached :: "region list"
  pp_cached_bytes :: u64
  pp_allocations :: u64
  pp_reuses :: u64

record pool_stats =
  pst_cached_bytes :: u64
  pst_cached_regions :: u64
  pst_allocations :: u64
  pst_reuses :: u64

definition pool_new :: "nat \<Rightarrow> pinned_pool" where
  "pool_new max_cached_bytes = \<lparr> pp_max_cached_bytes = max_cached_bytes, pp_cached = [], pp_cached_bytes = 0,
     pp_allocations = 0, pp_reuses = 0 \<rparr>"

text \<open>The index of the first smallest region that suits.\<close>

fun best_fit :: "nat \<Rightarrow> u32 option \<Rightarrow> nat \<Rightarrow> region list \<Rightarrow> (nat \<times> nat) option \<Rightarrow> (nat \<times> nat) option" where
  "best_fit bytes numa i [] best = best"
| "best_fit bytes numa i (r # rs) best =
     best_fit bytes numa (i + 1) rs
       (if rg_numa_node r = numa \<and> rg_capacity r \<ge> bytes \<and>
           (case best of None \<Rightarrow> True | Some (_, c) \<Rightarrow> rg_capacity r < c)
        then Some (i, rg_capacity r) else best)"

definition acquire ::
  "'h page_allocator \<Rightarrow> nat \<Rightarrow> u32 option \<Rightarrow> pinned_pool \<times> 'h \<Rightarrow> lease io_result \<times> (pinned_pool \<times> 'h)" where
  "acquire pa bytes numa ph =
     (let (p, h) = ph in
      if bytes = 0 then (Inl (IoError InvalidInput ''pinned allocation size must be greater than zero''), ph)
      else if numa \<noteq> None \<and> \<not> pa_numa_supported pa
      then (Inl (IoError Unsupported (''allocator '' @ pa_name pa @ '' does not support NUMA placement'')), ph)
      else (case best_fit bytes numa 0 (pp_cached p) None of
          Some (i, _) \<Rightarrow>
            (let region = pp_cached p ! i; rest = swap_remove i (pp_cached p) in
             (Inr \<lparr> ls_region = region, ls_len = bytes \<rparr>,
              (p\<lparr> pp_cached := rest, pp_cached_bytes := pp_cached_bytes p - of_nat (rg_capacity region),
                 pp_reuses := pp_reuses p + 1 \<rparr>, h)))
        | None \<Rightarrow>
            (case pa_allocate pa bytes numa h of
               (Inl e, h1) \<Rightarrow> (Inl e, (p, h1))
             | (Inr pointer, h1) \<Rightarrow>
                 (Inr \<lparr> ls_region = \<lparr> rg_pointer = pointer, rg_capacity = bytes, rg_numa_node = numa \<rparr>, ls_len = bytes \<rparr>,
                  (p\<lparr> pp_allocations := pp_allocations p + 1 \<rparr>, h1)))))"

definition drop_region :: "'h page_allocator \<Rightarrow> region \<Rightarrow> 'h \<Rightarrow> 'h" where
  "drop_region pa r h = pa_deallocate pa (rg_pointer r) (rg_capacity r) (rg_numa_node r) h"

definition drop_lease :: "'h page_allocator \<Rightarrow> lease \<Rightarrow> pinned_pool \<times> 'h \<Rightarrow> pinned_pool \<times> 'h" where
  "drop_lease pa l ph =
     (let (p, h) = ph; region = ls_region l in
      if rg_capacity region > pp_max_cached_bytes p then (p, drop_region pa region h)
      else if usize_sat_add (unat (pp_cached_bytes p)) (rg_capacity region) > pp_max_cached_bytes p
      then (p, drop_region pa region h)
      else (p\<lparr> pp_cached_bytes := pp_cached_bytes p + of_nat (rg_capacity region),
              pp_cached := pp_cached p @ [region] \<rparr>, h))"

definition drop_pool :: "'h page_allocator \<Rightarrow> pinned_pool \<Rightarrow> 'h \<Rightarrow> 'h" where
  "drop_pool pa p h = fold (drop_region pa) (pp_cached p) h"

definition pool_stats_of :: "pinned_pool \<Rightarrow> pool_stats" where
  "pool_stats_of p = \<lparr> pst_cached_bytes = pp_cached_bytes p, pst_cached_regions = len64 (pp_cached p),
     pst_allocations = pp_allocations p, pst_reuses = pp_reuses p \<rparr>"

text \<open>A client of the pool: the leases it holds, the pool and the memory behind it.\<close>

type_synonym 'h pool_world = "lease list \<times> pinned_pool \<times> 'h"

inductive pool_step :: "'h page_allocator \<Rightarrow> 'h pool_world \<Rightarrow> 'h pool_world \<Rightarrow> bool" for pa where
  take_lease: "bytes \<le> usize_max \<Longrightarrow> acquire pa bytes numa (p, h) = (Inr l, (p', h')) \<Longrightarrow>
     pool_step pa (ls, p, h) (l # ls, p', h')"
| no_lease: "bytes \<le> usize_max \<Longrightarrow> acquire pa bytes numa (p, h) = (Inl e, (p', h')) \<Longrightarrow> pool_step pa (ls, p, h) (ls, p', h')"
| end_lease: "drop_lease pa l (p, h) = (p', h') \<Longrightarrow> pool_step pa (ls1 @ l # ls2, p, h) (ls1 @ ls2, p', h')"

section \<open>Accounting\<close>

definition suits :: "nat \<Rightarrow> u32 option \<Rightarrow> region \<Rightarrow> bool" where
  "suits bytes numa r \<longleftrightarrow> rg_numa_node r = numa \<and> bytes \<le> rg_capacity r"

lemma best_fit_Some:
  "best_fit bytes numa i rs best = Some (k, c) \<Longrightarrow>
     (best = Some (k, c) \<or> (\<exists>j < length rs. k = i + j \<and> suits bytes numa (rs ! j) \<and> c = rg_capacity (rs ! j))) \<and>
     (\<forall>r \<in> set rs. suits bytes numa r \<longrightarrow> c \<le> rg_capacity r) \<and> (\<forall>k' c'. best = Some (k', c') \<longrightarrow> c \<le> c')"
proof (induction rs arbitrary: i best)
  case (Cons r rs)
  let ?best = "if rg_numa_node r = numa \<and> rg_capacity r \<ge> bytes \<and>
      (case best of None \<Rightarrow> True | Some (_, c) \<Rightarrow> rg_capacity r < c) then Some (i, rg_capacity r) else best"
  from Cons.IH [of "i + 1" ?best] Cons.prems
  have ih: "?best = Some (k, c) \<or> (\<exists>j < length rs. k = i + 1 + j \<and> suits bytes numa (rs ! j) \<and> c = rg_capacity (rs ! j))"
    "\<forall>r \<in> set rs. suits bytes numa r \<longrightarrow> c \<le> rg_capacity r" "\<forall>k' c'. ?best = Some (k', c') \<longrightarrow> c \<le> c'" by simp_all
  have "best = Some (k, c) \<or> (\<exists>j < length (r # rs). k = i + j \<and> suits bytes numa ((r # rs) ! j) \<and> c = rg_capacity ((r # rs) ! j))"
    using ih(1) by (auto simp: suits_def split: if_splits intro: exI [of _ "Suc _"] exI [of _ 0])
  moreover have "suits bytes numa r \<longrightarrow> c \<le> rg_capacity r" "\<forall>k' c'. best = Some (k', c') \<longrightarrow> c \<le> c'"
    using ih(3) by (cases best; fastforce simp: suits_def split: if_splits)+
  ultimately show ?case using ih(2) by simp
qed simp

lemma best_fit_None:
  "best_fit bytes numa i rs best = None \<Longrightarrow> best = None \<and> (\<forall>r \<in> set rs. \<not> suits bytes numa r)"
proof (induction rs arbitrary: i best)
  case (Cons r rs)
  let ?best = "if rg_numa_node r = numa \<and> rg_capacity r \<ge> bytes \<and>
      (case best of None \<Rightarrow> True | Some (_, c) \<Rightarrow> rg_capacity r < c) then Some (i, rg_capacity r) else best"
  have "?best = None \<and> (\<forall>r \<in> set rs. \<not> suits bytes numa r)" using Cons.IH [of "i + 1" ?best] Cons.prems by simp
  then show ?case by (cases best) (auto simp: suits_def split: if_splits)
qed simp

definition rblock :: "region \<Rightarrow> block" where
  "rblock r = (rg_pointer r, rg_capacity r, rg_numa_node r)"

definition owned_blocks :: "lease list \<Rightarrow> pinned_pool \<Rightarrow> block multiset" where
  "owned_blocks ls p = image_mset rblock (mset (pp_cached p)) + image_mset (rblock \<circ> ls_region) (mset ls)"

definition cached_total :: "pinned_pool \<Rightarrow> nat" where
  "cached_total p = sum_list (map rg_capacity (pp_cached p))"

definition pool_ok :: "('h \<Rightarrow> bool) \<Rightarrow> ('h \<Rightarrow> block multiset) \<Rightarrow> nat \<Rightarrow> 'h pool_world \<Rightarrow> bool" where
  "pool_ok inv1 live limit w = (case w of (ls, p, h) \<Rightarrow>
     inv1 h \<and> live h = owned_blocks ls p \<and> pp_max_cached_bytes p = limit \<and>
     unat (pp_cached_bytes p) = cached_total p \<and> cached_total p \<le> limit \<and>
     (\<forall>l \<in> set ls. 0 < ls_len l \<and> ls_len l \<le> rg_capacity (ls_region l)))"

lemma acquire_eq:
  "acquire pa bytes numa (p, h) =
     (if bytes = 0 then (Inl (IoError InvalidInput ''pinned allocation size must be greater than zero''), (p, h))
      else if numa \<noteq> None \<and> \<not> pa_numa_supported pa
      then (Inl (IoError Unsupported (''allocator '' @ pa_name pa @ '' does not support NUMA placement'')), (p, h))
      else (case best_fit bytes numa 0 (pp_cached p) None of
          Some (i, _) \<Rightarrow>
            (let region = pp_cached p ! i; rest = swap_remove i (pp_cached p) in
             (Inr \<lparr> ls_region = region, ls_len = bytes \<rparr>,
              (p\<lparr> pp_cached := rest, pp_cached_bytes := pp_cached_bytes p - of_nat (rg_capacity region),
                 pp_reuses := pp_reuses p + 1 \<rparr>, h)))
        | None \<Rightarrow>
            (case pa_allocate pa bytes numa h of
               (Inl e, h1) \<Rightarrow> (Inl e, (p, h1))
             | (Inr pointer, h1) \<Rightarrow>
                 (Inr \<lparr> ls_region = \<lparr> rg_pointer = pointer, rg_capacity = bytes, rg_numa_node = numa \<rparr>, ls_len = bytes \<rparr>,
                  (p\<lparr> pp_allocations := pp_allocations p + 1 \<rparr>, h1)))))"
  by (simp add: acquire_def)

context lawful_allocator begin

lemma acquire_ok:
  assumes ok: "pool_ok heap_ok live limit (ls, p, h)" and limit: "limit < usize_max" "bytes \<le> usize_max"
    and run: "acquire pa bytes numa (p, h) = (r, (p', h'))"
  shows "case r of Inl e \<Rightarrow> pool_ok heap_ok live limit (ls, p', h') | Inr l \<Rightarrow>
      pool_ok heap_ok live limit (l # ls, p', h') \<and> ls_len l = bytes \<and> rg_numa_node (ls_region l) = numa \<and>
      (\<forall>c \<in> set (pp_cached p). suits bytes numa c \<longrightarrow>
         ls_region l \<in> set (pp_cached p) \<and> rg_capacity (ls_region l) \<le> rg_capacity c)"
proof (cases "bytes = 0 \<or> (numa \<noteq> None \<and> \<not> pa_numa_supported pa)")
  case True
  then show ?thesis using ok run by (auto simp: acquire_eq split: if_splits)
next
  case False
  show ?thesis
  proof (cases "best_fit bytes numa 0 (pp_cached p) None")
    case None
    show ?thesis
    proof (cases "pa_allocate pa bytes numa h")
      case (Pair a h1)
      show ?thesis
      proof (cases a)
        case (Inl e)
        then show ?thesis using ok run False None Pair allocate_failed [of h bytes numa e h1]
          by (auto simp: acquire_eq pool_ok_def split: if_splits)
      next
        case (Inr q)
        then have "heap_ok h1 \<and> live h1 = add_mset (q, bytes, numa) (live h)"
          using allocate_ok [of h bytes numa q h1] ok False limit(2) Pair by (simp add: pool_ok_def)
        then show ?thesis using ok run False None Pair Inr best_fit_None [OF None]
          by (auto simp: acquire_eq pool_ok_def owned_blocks_def rblock_def cached_total_def split: if_splits)
      qed
    qed
  next
    case (Some kc)
    then obtain k c where fit: "best_fit bytes numa 0 (pp_cached p) None = Some (k, c)" by (cases kc) auto
    from best_fit_Some [OF fit] have k: "k < length (pp_cached p)" "suits bytes numa (pp_cached p ! k)"
      and c: "c = rg_capacity (pp_cached p ! k)" "\<forall>r \<in> set (pp_cached p). suits bytes numa r \<longrightarrow> c \<le> rg_capacity r" by auto
    define x rest where sr: "x = pp_cached p ! k" "rest = swap_remove k (pp_cached p)"
    have m: "x = pp_cached p ! k" "mset (pp_cached p) = add_mset x (mset rest)"
      using mset_swap_remove [OF k(1)] by (simp_all add: sr)
    have r: "r = Inr \<lparr> ls_region = x, ls_len = bytes \<rparr>" "h' = h"
      "p' = p\<lparr> pp_cached := rest, pp_cached_bytes := pp_cached_bytes p - of_nat (rg_capacity x), pp_reuses := pp_reuses p + 1 \<rparr>"
      using run False fit by (auto simp: acquire_eq sr Let_def split: if_splits)
    have total: "cached_total p = rg_capacity x + sum_list (map rg_capacity rest)"
      using m(2) by (simp add: cached_total_def flip: sum_mset_sum_list)
    have "cached_total p \<le> limit" "unat (pp_cached_bytes p) = cached_total p" using ok by (simp_all add: pool_ok_def)
    then have "unat (pp_cached_bytes p - of_nat (rg_capacity x)) = sum_list (map rg_capacity rest)"
      using total limit by (simp add: unat_sub word_le_nat_alt unat_of_nat usize_max_def)
    then show ?thesis using ok r m k c total False
      by (auto simp: pool_ok_def owned_blocks_def cached_total_def suits_def nth_mem)
  qed
qed

lemma drop_ok:
  assumes ok: "pool_ok heap_ok live limit (ls1 @ l # ls2, p, h)" and limit: "limit < usize_max"
    and run: "drop_lease pa l (p, h) = (p', h')"
  shows "pool_ok heap_ok live limit (ls1 @ ls2, p', h')"
proof -
  let ?r = "ls_region l"
  have "rblock ?r \<in># live h" using ok by (simp add: pool_ok_def owned_blocks_def)
  then have free: "heap_ok (drop_region pa ?r h) \<and> live (drop_region pa ?r h) = live h - {#rblock ?r#}"
    using deallocate [of h "rg_pointer ?r" "rg_capacity ?r" "rg_numa_node ?r"] ok by (simp add: drop_region_def rblock_def pool_ok_def)
  have sat: "usize_sat_add (unat (pp_cached_bytes p)) (rg_capacity ?r) \<le> limit \<Longrightarrow>
      unat (pp_cached_bytes p) + rg_capacity ?r \<le> limit" using limit by (auto simp: usize_sat_add_def min_def split: if_splits)
  have "unat (pp_cached_bytes p + of_nat (rg_capacity ?r)) = unat (pp_cached_bytes p) + rg_capacity ?r"
    if "unat (pp_cached_bytes p) + rg_capacity ?r \<le> limit"
    using that limit by (simp add: unat_word_ariths unat_of_nat usize_max_def)
  then show ?thesis using ok run free sat
    by (auto simp: drop_lease_def pool_ok_def owned_blocks_def cached_total_def Let_def not_less split: if_splits)
qed

lemma pool_step_ok:
  "pool_step pa w w' \<Longrightarrow> limit < usize_max \<Longrightarrow> pool_ok heap_ok live limit w \<Longrightarrow> pool_ok heap_ok live limit w'"
proof (induction rule: pool_step.induct)
  case (take_lease bytes numa p h l p' h' ls)
  from acquire_ok [OF take_lease(4,3,1,2)] show ?case by simp
next
  case (no_lease bytes numa p h e p' h' ls)
  from acquire_ok [OF no_lease(4,3,1,2)] show ?case by simp
next
  case (end_lease l p h p' h' ls1 ls2)
  then show ?case using drop_ok by blast
qed

lemma pool_steps_ok:
  "(pool_step pa)\<^sup>*\<^sup>* w w' \<Longrightarrow> limit < usize_max \<Longrightarrow> pool_ok heap_ok live limit w \<Longrightarrow> pool_ok heap_ok live limit w'"
  by (induction rule: rtranclp_induct) (blast intro: pool_step_ok)+

lemma drop_pool_live:
  "heap_ok h \<Longrightarrow> live h = image_mset rblock (mset rs) + M \<Longrightarrow>
     heap_ok (fold (drop_region pa) rs h) \<and> live (fold (drop_region pa) rs h) = M"
proof (induction rs arbitrary: h)
  case (Cons r rs)
  have "heap_ok (drop_region pa r h) \<and> live (drop_region pa r h) = live h - {#rblock r#}"
    using deallocate [of h "rg_pointer r" "rg_capacity r" "rg_numa_node r"] Cons.prems by (simp add: drop_region_def rblock_def)
  then show ?case using Cons by simp
qed simp

end

section \<open>Properties\<close>

lemma heap_pool_reachable:
  assumes "(pool_step heap_page_allocator)\<^sup>*\<^sup>* ([], pool_new limit, \<lparr> hp_next = 0, hp_room = room, hp_live = {#} \<rparr>) (ls, p, h)"
    "limit < usize_max"
  shows "pool_ok heap_inv hp_live limit (ls, p, h)"
proof (rule heap_pages.pool_steps_ok [OF assms])
  show "pool_ok heap_inv hp_live limit ([], pool_new limit, \<lparr> hp_next = 0, hp_room = room, hp_live = {#} \<rparr>)"
    by (simp add: pool_ok_def heap_inv_def disjoint_blocks_def owned_blocks_def pool_new_def cached_total_def)
qed

text \<open>C30:
  The pool neither leaks nor shares memory. After any sequence of leases taken, refused and dropped over the
  heap allocator, the live blocks are exactly the cached regions and those of the leases; no address
  belongs to two of them; every lease lies inside its region; and dropping the leases and the
  pool returns all memory to the system.
\<close>

theorem pool_neither_leaks_nor_shares:
  assumes "(pool_step heap_page_allocator)\<^sup>*\<^sup>* ([], pool_new limit, \<lparr> hp_next = 0, hp_room = room, hp_live = {#} \<rparr>) (ls, p, h)"
    "limit < usize_max"
  shows "hp_live h = owned_blocks ls p \<and> disjoint_blocks (owned_blocks ls p) \<and>
    list_all (\<lambda>l. 0 < ls_len l \<and> ls_len l \<le> rg_capacity (ls_region l)) ls \<and>
    hp_live (fold (drop_region heap_page_allocator) (map ls_region ls) (drop_pool heap_page_allocator p h)) = {#}"
proof -
  have ok: "heap_inv h" "hp_live h = owned_blocks ls p" "\<forall>l \<in> set ls. 0 < ls_len l \<and> ls_len l \<le> rg_capacity (ls_region l)"
    using heap_pool_reachable [OF assms] by (simp_all add: pool_ok_def)
  let ?h1 = "drop_pool heap_page_allocator p h"
  have h1: "heap_inv ?h1 \<and> hp_live ?h1 = image_mset (rblock \<circ> ls_region) (mset ls)"
    using heap_pages.drop_pool_live [OF ok(1)] ok(2) by (simp add: drop_pool_def owned_blocks_def)
  then have "hp_live (fold (drop_region heap_page_allocator) (map ls_region ls) ?h1) = {#}"
    using heap_pages.drop_pool_live [of ?h1 "map ls_region ls" "{#}"] by (simp add: multiset.map_comp)
  then show ?thesis using ok heap_pages.live_disjoint [OF ok(1)] by (simp add: list_all_iff)
qed

definition demo_lease :: lease where
  "demo_lease = \<lparr> ls_region = \<lparr> rg_pointer = 0, rg_capacity = 100, rg_numa_node = None \<rparr>, ls_len = 100 \<rparr>"

lemma demo_lease_taken:
  "(pool_step heap_page_allocator)\<^sup>*\<^sup>* ([], pool_new 4096, \<lparr> hp_next = 0, hp_room = 1000, hp_live = {#} \<rparr>)
     ([demo_lease], (pool_new 4096)\<lparr> pp_allocations := 1 \<rparr>, \<lparr> hp_next = 100, hp_room = 900, hp_live = {#(0, 100, None)#} \<rparr>)"
proof -
  have "acquire heap_page_allocator 100 None (pool_new 4096, \<lparr> hp_next = 0, hp_room = 1000, hp_live = {#} \<rparr>) =
     (Inr demo_lease, ((pool_new 4096)\<lparr> pp_allocations := 1 \<rparr>, \<lparr> hp_next = 100, hp_room = 900, hp_live = {#(0, 100, None)#} \<rparr>))"
    by (simp add: acquire_eq pool_new_def heap_page_allocator_def heap_allocate_def layout_ok_def Let_def demo_lease_def)
  from take_lease [OF _ this, of "[]"] show ?thesis by (auto simp: usize_max_def)
qed

theorem pool_neither_leaks_nor_shares_witness:
  "hp_live (fold (drop_region heap_page_allocator) (map ls_region [demo_lease])
     (drop_pool heap_page_allocator ((pool_new 4096)\<lparr> pp_allocations := 1 \<rparr>)
        \<lparr> hp_next = 100, hp_room = 900, hp_live = {#(0, 100, None)#} \<rparr>)) = {#}"
proof -
  have "4096 < usize_max" by (simp add: usize_max_def)
  from pool_neither_leaks_nor_shares [OF demo_lease_taken this] show ?thesis by blast
qed

text \<open>A lease gets the best cached region. In every reachable state of the pool an acquisition that succeeds answers a
  lease of the requested length and NUMA node, and when a cached region suits, a smallest such
  region is reused; the cached bytes are counted exactly and stay within the limit.
\<close>

theorem pool_reuses_the_best_fit:
  assumes "(pool_step heap_page_allocator)\<^sup>*\<^sup>* ([], pool_new limit, \<lparr> hp_next = 0, hp_room = room, hp_live = {#} \<rparr>) (ls, p, h)"
    "limit < usize_max" "bytes \<le> usize_max"
    "acquire heap_page_allocator bytes numa (p, h) = (Inr l, (p', h'))"
  shows "ls_len l = bytes \<and> rg_numa_node (ls_region l) = numa \<and>
    (\<forall>c \<in> set (pp_cached p). suits bytes numa c \<longrightarrow>
       ls_region l \<in> set (pp_cached p) \<and> rg_capacity (ls_region l) \<le> rg_capacity c) \<and>
    unat (pp_cached_bytes p') = cached_total p' \<and> cached_total p' \<le> limit"
  using heap_pages.acquire_ok [OF heap_pool_reachable [OF assms(1,2)] assms(2-4)] by (simp add: pool_ok_def)

theorem pool_reuses_the_best_fit_witness:
  "\<exists>l p' h'. acquire heap_page_allocator 100 None (pool_new 4096, \<lparr> hp_next = 0, hp_room = 1000, hp_live = {#} \<rparr>) = (Inr l, (p', h')) \<and>
     ls_len l = 100 \<and> cached_total p' = 0"
proof -
  have "\<not> isl (fst (acquire heap_page_allocator 100 None (pool_new 4096, \<lparr> hp_next = 0, hp_room = 1000, hp_live = {#} \<rparr>)))"
    by (simp add: acquire_eq pool_new_def heap_page_allocator_def heap_allocate_def layout_ok_def Let_def)
  then obtain l p' h' where run: "acquire heap_page_allocator 100 None
      (pool_new 4096, \<lparr> hp_next = 0, hp_room = 1000, hp_live = {#} \<rparr>) = (Inr l, (p', h'))"
    by (metis isl_def prod.collapse sum.collapse(2))
  then have "pp_cached p' = []"
    by (auto simp: acquire_eq pool_new_def heap_page_allocator_def heap_allocate_def layout_ok_def Let_def)
  with pool_reuses_the_best_fit [OF rtranclp.rtrancl_refl _ _ run] run show ?thesis
    by (simp add: usize_max_def cached_total_def)
qed

end
