(* ===== verification/Device.thy ===== *)
theory Device
  imports Kv
begin

text \<open>
  Device memory and the device tier of \<open>src/device.rs\<close>. A device is an interface with laws on the
  contents of its buffers; the host reference device provides them, and a device tier over any lawful
  device keeps the contract of the engine's tiers. Over the host device the tier owns exactly the
  allocated buffers. The lookup and the download of a read are not one atomic action, which is unsafe
  on a device that recycles its handles.
\<close>

section \<open>Devices\<close>

text \<open>Handles are unbounded here: the counter of the host device would wrap after \<open>2 ^ 64\<close> allocations.\<close>

record device_buffer =
  db_handle :: nat
  db_len :: nat

record 'd device_memory =
  dm_name :: string
  dm_allocate :: "nat \<Rightarrow> 'd \<Rightarrow> device_buffer io_result \<times> 'd"
  dm_upload :: "device_buffer \<Rightarrow> u8 list \<Rightarrow> 'd \<Rightarrow> unit io_result \<times> 'd"
  dm_download :: "device_buffer \<Rightarrow> 'd \<Rightarrow> u8 list io_result \<times> 'd"
  dm_free :: "device_buffer \<Rightarrow> 'd \<Rightarrow> unit io_result \<times> 'd"
  dm_health :: "'d \<Rightarrow> unit io_result \<times> 'd"

locale lawful_device =
  fixes dm :: "'d device_memory"
    and contents :: "'d \<Rightarrow> nat \<Rightarrow> u8 list option"
    and dev_ok :: "'d \<Rightarrow> bool"
  assumes allocate_ok: "dev_ok d \<Longrightarrow> dm_allocate dm n d = (Inr b, d') \<Longrightarrow>
      dev_ok d' \<and> contents d (db_handle b) = None \<and> db_len b = n \<and>
      (\<exists>v. length v = n \<and> contents d' = (contents d)(db_handle b \<mapsto> v))"
    and allocate_failed: "dev_ok d \<Longrightarrow> dm_allocate dm n d = (Inl e, d') \<Longrightarrow> dev_ok d' \<and> contents d' = contents d"
    and upload_ok: "dev_ok d \<Longrightarrow> contents d (db_handle b) = Some v \<Longrightarrow> length v = db_len b \<Longrightarrow>
      dm_upload dm b bs d = (Inr u, d') \<Longrightarrow>
      dev_ok d' \<and> length bs = db_len b \<and> contents d' = (contents d)(db_handle b \<mapsto> bs)"
    and upload_failed: "dev_ok d \<Longrightarrow> contents d (db_handle b) = Some v \<Longrightarrow> length v = db_len b \<Longrightarrow>
      dm_upload dm b bs d = (Inl e, d') \<Longrightarrow> dev_ok d' \<and> (\<exists>v'. contents d' = (contents d)(db_handle b \<mapsto> v'))"
    and download: "dev_ok d \<Longrightarrow> contents d (db_handle b) = Some v \<Longrightarrow> length v = db_len b \<Longrightarrow>
      dm_download dm b d = (r, d') \<Longrightarrow> dev_ok d' \<and> contents d' = contents d \<and> (\<forall>bs. r = Inr bs \<longrightarrow> bs = v)"
    and free: "dev_ok d \<Longrightarrow> contents d (db_handle b) = Some v \<Longrightarrow> dm_free dm b d = (w, d') \<Longrightarrow>
      dev_ok d' \<and> (\<exists>v'. contents d' = (contents d)(db_handle b := v')) \<and>
      (w = Inr () \<longrightarrow> contents d' = (contents d)(db_handle b := None))"

subsection \<open>The host device\<close>

record host_device =
  hd_next :: nat
  hd_buffers :: "(nat, u8 list) hmap"

definition host_device_new :: "string \<Rightarrow> host_device io_result" where
  "host_device_new name =
     (if blank name then Inl (IoError InvalidInput ''device backend name must not be empty'')
      else Inr \<lparr> hd_next = 1, hd_buffers = [] \<rparr>)"

text \<open>A buffer above \<open>isize::MAX\<close> bytes is a capacity panic, after the handle is taken.\<close>

definition host_allocate :: "nat \<Rightarrow> host_device \<Rightarrow> device_buffer io_result \<times> host_device" where
  "host_allocate len d =
     (if len = 0 then (Inl (IoError InvalidInput ''device allocation length must be greater than zero''), d)
      else (let handle = hd_next d; d1 = d\<lparr> hd_next := handle + 1 \<rparr> in
        if 0x7FFFFFFFFFFFFFFF < int len then (Inl (Panicked ''capacity overflow''), d1)
        else (Inr \<lparr> db_handle = handle, db_len = len \<rparr>,
              d1\<lparr> hd_buffers := AList.update handle (replicate len 0) (hd_buffers d) \<rparr>)))"

text \<open>\<open>copy_from_slice\<close> panics when the lengths differ, and leaves the buffers alone.\<close>

definition host_upload :: "device_buffer \<Rightarrow> u8 list \<Rightarrow> host_device \<Rightarrow> unit io_result \<times> host_device" where
  "host_upload b bs d =
     (if length bs \<noteq> db_len b then (Inl (IoError InvalidInput ''device upload length does not match allocation''), d)
      else (case map_of (hd_buffers d) (db_handle b) of
          None \<Rightarrow> (Inl (IoError NotFound ''device buffer not found''), d)
        | Some slot \<Rightarrow>
            if length slot \<noteq> length bs then (Inl (Panicked ''copy_from_slice: source slice length does not match''), d)
            else (Inr (), d\<lparr> hd_buffers := AList.update (db_handle b) bs (hd_buffers d) \<rparr>)))"

definition host_download :: "device_buffer \<Rightarrow> host_device \<Rightarrow> u8 list io_result \<times> host_device" where
  "host_download b d =
     (case map_of (hd_buffers d) (db_handle b) of
        None \<Rightarrow> (Inl (IoError NotFound ''device buffer not found''), d)
      | Some bytes \<Rightarrow>
          if length bytes \<noteq> db_len b
          then (Inl (IoError InvalidData ''device allocation metadata length mismatch''), d) else (Inr bytes, d))"

definition host_free :: "device_buffer \<Rightarrow> host_device \<Rightarrow> unit io_result \<times> host_device" where
  "host_free b d = (Inr (), d\<lparr> hd_buffers := AList.delete (db_handle b) (hd_buffers d) \<rparr>)"

definition host_device_memory :: "string \<Rightarrow> host_device device_memory" where
  "host_device_memory name = \<lparr> dm_name = name, dm_allocate = host_allocate, dm_upload = host_upload,
     dm_download = host_download, dm_free = host_free, dm_health = (\<lambda>d. (Inr (), d)) \<rparr>"

definition host_ok :: "host_device \<Rightarrow> bool" where
  "host_ok d \<longleftrightarrow> (\<forall>h \<in> dom (map_of (hd_buffers d)). h < hd_next d)"

interpretation host: lawful_device "host_device_memory name" "\<lambda>d. map_of (hd_buffers d)" host_ok
proof
  fix d d' :: host_device and n b e v bs u r and w :: "unit io_result"
  assume ok: "host_ok d"
  show "host_ok d' \<and> map_of (hd_buffers d) (db_handle b) = None \<and> db_len b = n \<and>
      (\<exists>v. length v = n \<and> map_of (hd_buffers d') = (map_of (hd_buffers d))(db_handle b \<mapsto> v))"
    if "dm_allocate (host_device_memory name) n d = (Inr b, d')"
  proof -
    have b: "b = \<lparr> db_handle = hd_next d, db_len = n \<rparr>"
      "d' = d\<lparr> hd_next := hd_next d + 1, hd_buffers := AList.update (hd_next d) (replicate n 0) (hd_buffers d) \<rparr>"
      using that by (auto simp: host_device_memory_def host_allocate_def Let_def split: if_splits)
    have "map_of (hd_buffers d) (hd_next d) = None" using ok by (force simp: host_ok_def dom_def)
    then show ?thesis using ok b by (auto simp: host_ok_def hm_simps less_Suc_eq intro: exI [of _ "replicate n 0"])
  qed
  show "host_ok d' \<and> map_of (hd_buffers d') = map_of (hd_buffers d)"
    if "dm_allocate (host_device_memory name) n d = (Inl e, d')"
    using that ok by (auto simp: host_device_memory_def host_allocate_def Let_def host_ok_def less_Suc_eq split: if_splits)
  show "host_ok d' \<and> length bs = db_len b \<and> map_of (hd_buffers d') = (map_of (hd_buffers d))(db_handle b \<mapsto> bs)"
    if "map_of (hd_buffers d) (db_handle b) = Some v" "length v = db_len b"
      "dm_upload (host_device_memory name) b bs d = (Inr u, d')"
    using that ok by (auto simp: host_device_memory_def host_upload_def host_ok_def hm_simps split: if_splits)
  show "host_ok d' \<and> (\<exists>v'. map_of (hd_buffers d') = (map_of (hd_buffers d))(db_handle b \<mapsto> v'))"
    if "map_of (hd_buffers d) (db_handle b) = Some v" "length v = db_len b"
      "dm_upload (host_device_memory name) b bs d = (Inl e, d')"
    using that ok by (auto simp: host_device_memory_def host_upload_def fun_upd_idem intro!: exI [of _ v] split: if_splits)
  show "host_ok d' \<and> map_of (hd_buffers d') = map_of (hd_buffers d) \<and> (\<forall>bs. r = Inr bs \<longrightarrow> bs = v)"
    if "map_of (hd_buffers d) (db_handle b) = Some v" "length v = db_len b"
      "dm_download (host_device_memory name) b d = (r, d')"
    using that ok by (auto simp: host_device_memory_def host_download_def)
  show "host_ok d' \<and> (\<exists>v'. map_of (hd_buffers d') = (map_of (hd_buffers d))(db_handle b := v')) \<and>
      (w = Inr () \<longrightarrow> map_of (hd_buffers d') = (map_of (hd_buffers d))(db_handle b := None))"
    if "map_of (hd_buffers d) (db_handle b) = Some v" "dm_free (host_device_memory name) b d = (w, d')"
    using that ok by (auto simp: host_device_memory_def host_free_def host_ok_def hm_simps split: if_splits)
qed

subsection \<open>Devices behind foreign callbacks\<close>

text \<open>
  The callbacks are external: functions on a context that answer a status, and a handle or bytes through
  their out pointers. A download fills a prefix of a buffer of zeros of the allocated length.
\<close>

record 'c ffi_device_ops =
  fo_allocate :: "nat \<Rightarrow> 'c \<Rightarrow> (int \<times> nat) \<times> 'c"
  fo_upload :: "nat \<Rightarrow> u8 list \<Rightarrow> 'c \<Rightarrow> int \<times> 'c"
  fo_download :: "nat \<Rightarrow> nat \<Rightarrow> 'c \<Rightarrow> (int \<times> u8 list) \<times> 'c"
  fo_free :: "nat \<Rightarrow> 'c \<Rightarrow> int \<times> 'c"
  fo_health :: "('c \<Rightarrow> int \<times> 'c) option"

definition ffi_check :: "string \<Rightarrow> string \<Rightarrow> int \<Rightarrow> unit io_result" where
  "ffi_check name operation code =
     (if code = 0 then Inr ()
      else Inl (io_other (''device backend '' @ name @ '' operation '' @ operation @ '' failed with status '' @ show_int code)))"

definition ffi_allocate :: "string \<Rightarrow> 'c ffi_device_ops \<Rightarrow> nat \<Rightarrow> 'c \<Rightarrow> device_buffer io_result \<times> 'c" where
  "ffi_allocate name ops len c =
     (if len = 0 then (Inl (IoError InvalidInput ''device allocation length must be greater than zero''), c)
      else (case fo_allocate ops len c of ((code, handle), c1) \<Rightarrow>
        check_then (ffi_check name ''allocate'' code) c1 (\<lambda>_.
          if handle = 0 then (Inl (IoError InvalidData ''device backend returned an invalid zero handle''), c1)
          else (Inr \<lparr> db_handle = handle, db_len = len \<rparr>, c1))))"

definition ffi_upload :: "string \<Rightarrow> 'c ffi_device_ops \<Rightarrow> device_buffer \<Rightarrow> u8 list \<Rightarrow> 'c \<Rightarrow> unit io_result \<times> 'c" where
  "ffi_upload name ops b bs c =
     (if length bs \<noteq> db_len b then (Inl (IoError InvalidInput ''device upload length does not match allocation''), c)
      else (case fo_upload ops (db_handle b) bs c of (code, c1) \<Rightarrow> (ffi_check name ''upload'' code, c1)))"

definition ffi_download :: "string \<Rightarrow> 'c ffi_device_ops \<Rightarrow> device_buffer \<Rightarrow> 'c \<Rightarrow> u8 list io_result \<times> 'c" where
  "ffi_download name ops b c =
     (case fo_download ops (db_handle b) (db_len b) c of ((code, bytes), c1) \<Rightarrow>
        check_then (ffi_check name ''download'' code) c1 (\<lambda>_.
          (Inr (take (db_len b) bytes @ replicate (db_len b - length bytes) 0), c1)))"

definition ffi_free :: "string \<Rightarrow> 'c ffi_device_ops \<Rightarrow> device_buffer \<Rightarrow> 'c \<Rightarrow> unit io_result \<times> 'c" where
  "ffi_free name ops b c = (case fo_free ops (db_handle b) c of (code, c1) \<Rightarrow> (ffi_check name ''free'' code, c1))"

definition ffi_health :: "string \<Rightarrow> 'c ffi_device_ops \<Rightarrow> 'c \<Rightarrow> unit io_result \<times> 'c" where
  "ffi_health name ops c =
     (case fo_health ops of
        Some health \<Rightarrow> (case health c of (code, c1) \<Rightarrow> (ffi_check name ''health'' code, c1))
      | None \<Rightarrow> (Inr (), c))"

definition ffi_device_memory :: "string \<Rightarrow> 'c ffi_device_ops \<Rightarrow> 'c device_memory" where
  "ffi_device_memory name ops = \<lparr> dm_name = name, dm_allocate = ffi_allocate name ops, dm_upload = ffi_upload name ops,
     dm_download = ffi_download name ops, dm_free = ffi_free name ops, dm_health = ffi_health name ops \<rparr>"

section \<open>The device tier\<close>

record device_entry =
  de_buffer :: device_buffer
  de_expires_at :: u64
  de_pinned :: bool

record 'd device_tier =
  dt_entries :: "(string, device_entry) hmap"
  dt_device :: 'd

definition device_tier_new :: "string \<Rightarrow> 'd \<Rightarrow> 'd device_tier io_result" where
  "device_tier_new name d =
     (if blank name then Inl (IoError InvalidInput ''device tier name must not be empty'')
      else Inr \<lparr> dt_entries = [], dt_device = d \<rparr>)"

definition device_tier_len :: "'d device_tier \<Rightarrow> nat" where
  "device_tier_len t = length (dt_entries t)"

definition on_device :: "('d \<Rightarrow> 'a io_result \<times> 'd) \<Rightarrow> 'd device_tier \<Rightarrow> 'a io_result \<times> 'd device_tier" where
  "on_device f t = (case f (dt_device t) of (r, d) \<Rightarrow> (r, t\<lparr> dt_device := d \<rparr>))"

text \<open>A read looks the entry up under the lock, and downloads its buffer after the lock is released.\<close>

definition device_lookup :: "crypto \<Rightarrow> kv_block_key \<Rightarrow> 'd device_tier \<Rightarrow> device_entry option" where
  "device_lookup cr k t = map_of (dt_entries t) (cache_key cr k)"

definition device_fetch ::
  "'d device_memory \<Rightarrow> kv_block_key \<Rightarrow> device_entry option \<Rightarrow> 'd device_tier \<Rightarrow> kv_tier_entry option io_result \<times> 'd device_tier" where
  "device_fetch dm k found t =
     (case found of
        None \<Rightarrow> (Inr None, t)
      | Some e \<Rightarrow> and_then (on_device (dm_download dm (de_buffer e)) t) (\<lambda>bytes t1.
          (Inr (Some \<lparr> te_block = \<lparr> blk_key = k, blk_bytes = bytes \<rparr>, te_expires_at = de_expires_at e,
                       te_pinned = de_pinned e \<rparr>), t1)))"

definition device_get ::
  "crypto \<Rightarrow> 'd device_memory \<Rightarrow> kv_block_key \<Rightarrow> 'd device_tier \<Rightarrow> kv_tier_entry option io_result \<times> 'd device_tier" where
  "device_get cr dm k t = device_fetch dm k (device_lookup cr k t) t"

definition device_put ::
  "crypto \<Rightarrow> 'd device_memory \<Rightarrow> kv_tier_entry \<Rightarrow> 'd device_tier \<Rightarrow> unit io_result \<times> 'd device_tier" where
  "device_put cr dm e t =
     and_then (on_device (dm_allocate dm (length (te_bytes e))) t) (\<lambda>buffer t1.
       case on_device (dm_upload dm buffer (te_bytes e)) t1 of
         (Inl (Panicked msg), t2) \<Rightarrow> (Inl (Panicked msg), t2)
       | (Inl error, t2) \<Rightarrow> (Inl error, snd (on_device (dm_free dm buffer) t2))
       | (Inr _, t2) \<Rightarrow>
           (let ck = cache_key cr (te_key e); replaced = map_of (dt_entries t2) ck;
                t3 = t2\<lparr> dt_entries := AList.update ck
                  \<lparr> de_buffer = buffer, de_expires_at = te_expires_at e, de_pinned = te_pinned e \<rparr> (dt_entries t2) \<rparr> in
            case replaced of Some old \<Rightarrow> on_device (dm_free dm (de_buffer old)) t3 | None \<Rightarrow> (Inr (), t3)))"

definition device_remove ::
  "crypto \<Rightarrow> 'd device_memory \<Rightarrow> kv_block_key \<Rightarrow> 'd device_tier \<Rightarrow> unit io_result \<times> 'd device_tier" where
  "device_remove cr dm k t =
     (let ck = cache_key cr k; t1 = t\<lparr> dt_entries := AList.delete ck (dt_entries t) \<rparr> in
      case map_of (dt_entries t) ck of Some e \<Rightarrow> on_device (dm_free dm (de_buffer e)) t1 | None \<Rightarrow> (Inr (), t1))"

fun free_all :: "'d device_memory \<Rightarrow> device_buffer list \<Rightarrow> io_error option \<Rightarrow> 'd device_tier \<Rightarrow> unit io_result \<times> 'd device_tier" where
  "free_all dm [] first_error t = (case first_error of Some e \<Rightarrow> Inl e | None \<Rightarrow> Inr (), t)"
| "free_all dm (b # bs) first_error t =
     (case on_device (dm_free dm b) t of
        (Inl (Panicked msg), t1) \<Rightarrow> (Inl (Panicked msg), t1)
      | (Inl e, t1) \<Rightarrow> free_all dm bs (if first_error = None then Some e else first_error) t1
      | (Inr _, t1) \<Rightarrow> free_all dm bs first_error t1)"

text \<open>\<open>order\<close> is the order in which the hash map is drained.\<close>

definition device_clear ::
  "(string list \<Rightarrow> string list) \<Rightarrow> 'd device_memory \<Rightarrow> 'd device_tier \<Rightarrow> unit io_result \<times> 'd device_tier" where
  "device_clear order dm t =
     free_all dm (map (\<lambda>(_, e). de_buffer e) (hm_iter order (dt_entries t))) None (t\<lparr> dt_entries := [] \<rparr>)"

text \<open>Dropping a tier frees the buffers of its entries, whatever the device answers.\<close>

definition device_drop :: "(string list \<Rightarrow> string list) \<Rightarrow> 'd device_memory \<Rightarrow> 'd device_tier \<Rightarrow> 'd" where
  "device_drop order dm t =
     fold (\<lambda>(_, e) d. snd (dm_free dm (de_buffer e) d)) (hm_iter order (dt_entries t)) (dt_device t)"

definition device_vt ::
  "crypto \<Rightarrow> (string list \<Rightarrow> string list) \<Rightarrow> 'd device_memory \<Rightarrow> string \<Rightarrow> 'd device_tier kv_tier" where
  "device_vt cr order dm name = \<lparr> kt_name = name, kt_get = device_get cr dm, kt_put = device_put cr dm,
     kt_remove = device_remove cr dm, kt_clear = device_clear order dm, kt_health = on_device (dm_health dm) \<rparr>"

section \<open>The contract of the tiers\<close>

definition device_view ::
  "crypto \<Rightarrow> ('d \<Rightarrow> nat \<Rightarrow> u8 list option) \<Rightarrow> kv_block_key set \<Rightarrow> 'd device_tier \<Rightarrow> kv_block_key \<Rightarrow> kv_tier_entry option" where
  "device_view cr contents used t k =
     (if k \<in> used then
        (case map_of (dt_entries t) (cache_key cr k) of
           None \<Rightarrow> None
         | Some e \<Rightarrow> map_option (\<lambda>bs. \<lparr> te_block = \<lparr> blk_key = k, blk_bytes = bs \<rparr>, te_expires_at = de_expires_at e,
                       te_pinned = de_pinned e \<rparr>) (contents (dt_device t) (db_handle (de_buffer e))))
      else None)"

definition buffer_ok :: "(nat \<Rightarrow> u8 list option) \<Rightarrow> device_buffer \<Rightarrow> bool" where
  "buffer_ok m b \<longleftrightarrow> (\<exists>v. m (db_handle b) = Some v \<and> length v = db_len b)"

text \<open>Every entry has an allocated buffer of its own.\<close>

definition entries_ok :: "(nat \<Rightarrow> u8 list option) \<Rightarrow> (string \<Rightarrow> device_entry option) \<Rightarrow> bool" where
  "entries_ok m es \<longleftrightarrow> (\<forall>ck e. es ck = Some e \<longrightarrow> buffer_ok m (de_buffer e)) \<and>
     (\<forall>ck ck' e e'. es ck = Some e \<longrightarrow> es ck' = Some e' \<longrightarrow> db_handle (de_buffer e) = db_handle (de_buffer e') \<longrightarrow> ck = ck')"

lemma entries_ok_off:
  assumes "entries_ok m es" "\<And>ck e. es ck = Some e \<Longrightarrow> m' (db_handle (de_buffer e)) = m (db_handle (de_buffer e))"
  shows "entries_ok m' es"
  using assms unfolding entries_ok_def buffer_ok_def by metis

lemma entries_ok_remove:
  assumes "entries_ok m es" "es ck = Some e"
  shows "entries_ok (m(db_handle (de_buffer e) := x)) (es(ck := None))"
  using assms unfolding entries_ok_def buffer_ok_def by (auto split: if_splits)

lemma entries_ok_add:
  assumes "entries_ok m es" "m (db_handle b) = None" "length bs = db_len b"
  shows "entries_ok (m(db_handle b \<mapsto> bs)) (es(ck \<mapsto> \<lparr> de_buffer = b, de_expires_at = x, de_pinned = p \<rparr>))"
proof -
  have "db_handle (de_buffer e) \<noteq> db_handle b" if "es ck' = Some e" for ck' e
    using assms(1,2) that unfolding entries_ok_def buffer_ok_def by force
  then show ?thesis using assms(1,3) unfolding entries_ok_def buffer_ok_def by (auto split: if_splits) metis+
qed

definition device_inv ::
  "crypto \<Rightarrow> ('d \<Rightarrow> nat \<Rightarrow> u8 list option) \<Rightarrow> ('d \<Rightarrow> bool) \<Rightarrow> kv_block_key set \<Rightarrow> 'd device_tier \<Rightarrow> bool" where
  "device_inv cr contents ok used t \<longleftrightarrow> ok (dt_device t) \<and> inj_on (cache_key cr) used \<and>
     entries_ok (contents (dt_device t)) (map_of (dt_entries t))"

lemma on_device_eq: "on_device f t = (r, t') \<longleftrightarrow> (\<exists>d. f (dt_device t) = (r, d) \<and> t' = t\<lparr> dt_device := d \<rparr>)"
  by (auto simp: on_device_def split: prod.splits)

context lawful_device begin

abbreviation tier_ok :: "crypto \<Rightarrow> kv_block_key set \<Rightarrow> 'd device_tier \<Rightarrow> bool" where
  "tier_ok cr used \<equiv> device_inv cr contents dev_ok used"

lemma get_cases:
  assumes "tier_ok cr used t" "k \<in> used" "device_get cr dm k t = (r, t')"
  shows "tier_ok cr used t' \<and> device_view cr contents used t' = device_view cr contents used t \<and>
    (\<forall>a. r = Inr a \<longrightarrow> a = device_view cr contents used t k)"
proof (cases "map_of (dt_entries t) (cache_key cr k)")
  case None
  then have "r = Inr None" "t' = t" using assms(3) by (simp_all add: device_get_def device_lookup_def device_fetch_def)
  then show ?thesis using assms(1) None by (simp add: device_view_def)
next
  case (Some e)
  obtain q d where q: "dm_download dm (de_buffer e) (dt_device t) = (q, d)" by fastforce
  obtain v where v: "contents (dt_device t) (db_handle (de_buffer e)) = Some v" "length v = db_len (de_buffer e)"
    using assms(1) Some unfolding device_inv_def entries_ok_def buffer_ok_def by blast
  have d: "dev_ok d \<and> contents d = contents (dt_device t) \<and> (\<forall>bs. q = Inr bs \<longrightarrow> bs = v)"
    using download [OF _ v q] assms(1) by (simp add: device_inv_def)
  have t': "t' = t\<lparr> dt_device := d \<rparr>"
    using assms(3) Some q by (cases q) (auto simp: device_get_def device_lookup_def device_fetch_def on_device_def)
  have "a = device_view cr contents used t k" if "r = Inr a" for a
    using assms(2,3) that Some q v d
    by (cases q) (auto simp: device_get_def device_lookup_def device_fetch_def on_device_def device_view_def)
  moreover have "tier_ok cr used t'" using t' d assms(1) by (simp add: device_inv_def)
  moreover have "device_view cr contents used t' = device_view cr contents used t"
    by (rule ext) (use t' d in \<open>simp add: device_view_def split: option.split\<close>)
  ultimately show ?thesis by blast
qed

lemma remove_cases:
  assumes "tier_ok cr used t" "k \<in> used" "device_remove cr dm k t = (r, t')"
  shows "tier_ok cr used t' \<and> device_view cr contents used t' = (device_view cr contents used t)(k := None)"
proof (cases "map_of (dt_entries t) (cache_key cr k)")
  case None
  then have "AList.delete (cache_key cr k) (dt_entries t) = dt_entries t" by (rule delete_absent)
  then show ?thesis using assms None by (auto simp: device_remove_def Let_def device_view_def)
next
  case (Some e)
  obtain q d where q: "dm_free dm (de_buffer e) (dt_device t) = (q, d)" by fastforce
  have ok: "dev_ok (dt_device t)" "entries_ok (contents (dt_device t)) (map_of (dt_entries t))" "inj_on (cache_key cr) used"
    using assms(1) by (simp_all add: device_inv_def)
  obtain v where v: "contents (dt_device t) (db_handle (de_buffer e)) = Some v"
    using ok(2) Some unfolding entries_ok_def buffer_ok_def by blast
  obtain v' where d: "dev_ok d" "contents d = (contents (dt_device t))(db_handle (de_buffer e) := v')"
    using free [OF ok(1) v q] by blast
  have t': "t' = t\<lparr> dt_entries := AList.delete (cache_key cr k) (dt_entries t), dt_device := d \<rparr>"
    using assms(3) Some q by (simp add: device_remove_def Let_def on_device_def)
  have "tier_ok cr used t'"
    using entries_ok_remove [OF ok(2) Some, of v'] ok(3) d by (simp add: device_inv_def t' hm_simps)
  moreover have "db_handle (de_buffer e') \<noteq> db_handle (de_buffer e)"
    if "map_of (dt_entries t) ck = Some e'" "ck \<noteq> cache_key cr k" for ck e'
    using ok(2) Some that unfolding entries_ok_def by blast
  then have "device_view cr contents used t' = (device_view cr contents used t)(k := None)"
    using assms(2) ok(3) d(2)
    by (auto simp: device_view_def t' hm_simps fun_eq_iff inj_on_eq_iff split: option.splits)
  ultimately show ?thesis ..
qed

lemma put_cases:
  assumes "tier_ok cr used t" "te_key x \<in> used" "device_put cr dm x t = (r, t')"
  shows "tier_ok cr used t' \<and>
    (device_view cr contents used t' = device_view cr contents used t \<and> r \<noteq> Inr () \<or>
     device_view cr contents used t' = (device_view cr contents used t)(te_key x \<mapsto> x))"
proof -
  let ?d = "dt_device t" and ?es = "map_of (dt_entries t)" and ?ck = "cache_key cr (te_key x)"
  have ok: "dev_ok ?d" "entries_ok (contents ?d) ?es" "inj_on (cache_key cr) used"
    using assms(1) by (simp_all add: device_inv_def)
  have off: "tier_ok cr used (t\<lparr> dt_device := d \<rparr>) \<and> device_view cr contents used (t\<lparr> dt_device := d \<rparr>) = device_view cr contents used t"
    if d: "dev_ok d" "\<And>ck e. ?es ck = Some e \<Longrightarrow> contents d (db_handle (de_buffer e)) = contents ?d (db_handle (de_buffer e))" for d
    using entries_ok_off [OF ok(2), of "contents d"] d ok
    by (auto simp: device_inv_def device_view_def fun_eq_iff split: option.splits)
  obtain a d1 where a: "dm_allocate dm (length (te_bytes x)) ?d = (a, d1)" by fastforce
  show ?thesis
  proof (cases a)
    case (Inl e)
    then have "r = Inl e" "t' = t\<lparr> dt_device := d1 \<rparr>" using assms(3) a by (simp_all add: device_put_def on_device_def)
    with off [of d1] allocate_failed [OF ok(1)] a Inl show ?thesis by auto
  next
    case (Inr b)
    obtain v1 where fresh: "contents ?d (db_handle b) = None" and b: "db_len b = length (te_bytes x)" "length v1 = db_len b"
      and d1: "dev_ok d1" "contents d1 = (contents ?d)(db_handle b \<mapsto> v1)"
      using allocate_ok [OF ok(1) a [unfolded Inr]] by auto
    have away: "db_handle (de_buffer e) \<noteq> db_handle b" if "?es ck = Some e" for ck e
      using ok(2) fresh that unfolding entries_ok_def buffer_ok_def by force
    obtain u d2 where u: "dm_upload dm b (te_bytes x) d1 = (u, d2)" by fastforce
    show ?thesis
    proof (cases u)
      case (Inl e)
      have v1: "contents d1 (db_handle b) = Some v1" by (simp add: d1(2))
      from upload_failed [OF d1(1) v1 b(2) u [unfolded Inl]] obtain v2
        where d2: "dev_ok d2" "contents d2 = (contents d1)(db_handle b \<mapsto> v2)" by blast
      show ?thesis
      proof (cases e)
        case (Panicked msg)
        then have "t' = t\<lparr> dt_device := d2 \<rparr>" "r = Inl e"
          using assms(3) a u Inr Inl by (simp_all add: device_put_def on_device_def)
        with off [of d2] d1 d2 away show ?thesis by auto
      next
        case (IoError kind msg)
        obtain w d3 where w: "dm_free dm b d2 = (w, d3)" by fastforce
        then obtain v3 where d3: "dev_ok d3" "contents d3 = (contents d2)(db_handle b := v3)"
          using free [OF d2(1), of b v2] d2(2) by auto
        have "t' = t\<lparr> dt_device := d3 \<rparr>" "r = Inl e"
          using assms(3) a u w Inr Inl IoError by (simp_all add: device_put_def on_device_def)
        with off [of d3] d1 d2 d3 away show ?thesis by auto
      qed
    next
      case (Inr _)
      then have d2: "dev_ok d2" "contents d2 = (contents ?d)(db_handle b \<mapsto> te_bytes x)"
        using upload_ok [OF d1(1), of b v1 "te_bytes x"] u b d1(2) by auto
      let ?e = "\<lparr> de_buffer = b, de_expires_at = te_expires_at x, de_pinned = te_pinned x \<rparr>"
      let ?t2 = "t\<lparr> dt_entries := AList.update ?ck ?e (dt_entries t), dt_device := d2 \<rparr>"
      have es2: "entries_ok (contents d2) (?es(?ck \<mapsto> ?e))"
        using entries_ok_add [OF ok(2) fresh, of "te_bytes x"] b d2(2) by simp
      have view2: "device_view cr contents used (?t2\<lparr> dt_device := d \<rparr>) = (device_view cr contents used t)(te_key x \<mapsto> x)"
        if "contents d (db_handle b) = Some (te_bytes x)"
          "\<And>ck e. ?es ck = Some e \<Longrightarrow> ck \<noteq> ?ck \<Longrightarrow> contents d (db_handle (de_buffer e)) = contents ?d (db_handle (de_buffer e))" for d
      proof
        fix k
        show "device_view cr contents used (?t2\<lparr> dt_device := d \<rparr>) k = ((device_view cr contents used t)(te_key x \<mapsto> x)) k"
          using that assms(2) ok(3)
          by (cases x, cases "te_block x") (auto simp: device_view_def hm_simps inj_on_eq_iff split: option.splits)
      qed
      show ?thesis
      proof (cases "?es ?ck")
        case None
        then have t': "t' = ?t2\<lparr> dt_device := d2 \<rparr>"
          using assms(3) a u \<open>a = Inr b\<close> Inr by (cases t) (auto simp: device_put_def on_device_def Let_def)
        moreover have "device_view cr contents used t' = (device_view cr contents used t)(te_key x \<mapsto> x)"
          unfolding t' by (rule view2) (use d2 away in auto)
        ultimately show ?thesis using d2(1) es2 ok(3) by (simp add: device_inv_def hm_simps)
      next
        case (Some old)
        obtain w d3 where w: "dm_free dm (de_buffer old) d2 = (w, d3)" by fastforce
        have ne: "db_handle (de_buffer old) \<noteq> db_handle b" using away [OF Some] .
        obtain v where "contents ?d (db_handle (de_buffer old)) = Some v"
          using ok(2) Some unfolding entries_ok_def buffer_ok_def by blast
        then obtain v3 where d3: "dev_ok d3" "contents d3 = (contents d2)(db_handle (de_buffer old) := v3)"
          using free [OF d2(1) _ w, of v] d2(2) ne by auto
        have t': "t' = ?t2\<lparr> dt_device := d3 \<rparr>"
          using assms(3) a u w Some \<open>a = Inr b\<close> Inr by (cases t) (auto simp: device_put_def on_device_def Let_def)
        have other: "db_handle (de_buffer e) \<noteq> db_handle (de_buffer old)" if "?es ck = Some e" "ck \<noteq> ?ck" for ck e
          using ok(2) Some that unfolding entries_ok_def by blast
        have "entries_ok (contents d3) (?es(?ck \<mapsto> ?e))"
          using es2 by (rule entries_ok_off) (use d3(2) ne other in \<open>auto split: if_splits\<close>)
        moreover have "device_view cr contents used t' = (device_view cr contents used t)(te_key x \<mapsto> x)"
          unfolding t' by (rule view2) (use d2 d3 ne other away in auto)
        ultimately show ?thesis using d3(1) ok(3) by (simp add: t' device_inv_def hm_simps)
      qed
    qed
  qed
qed

lemma device_coherent:
  "coherent_tier (device_vt cr order dm name) (device_view cr contents used) (tier_ok cr used) used (\<lambda>_. True)"
proof
  fix s s' k and e :: io_error and r x w and u :: unit
  assume inv: "tier_ok cr used s"
  show "device_view cr contents used s' \<subseteq>\<^sub>m device_view cr contents used s \<and> tier_ok cr used s'"
    if "k \<in> used" "kt_get (device_vt cr order dm name) k s = (Inl e, s')"
    using get_cases [OF inv that(1)] that(2) by (simp add: device_vt_def)
  show "(r = None \<or> r = device_view cr contents used s k) \<and> device_view cr contents used s' \<subseteq>\<^sub>m device_view cr contents used s \<and>
      tier_ok cr used s'"
    if "k \<in> used" "kt_get (device_vt cr order dm name) k s = (Inr r, s')"
    using get_cases [OF inv that(1)] that(2) by (simp add: device_vt_def)
  show "tier_ok cr used s' \<and> (\<forall>k. k \<noteq> te_key x \<longrightarrow> device_view cr contents used s' k \<in> {None, device_view cr contents used s k}) \<and>
      device_view cr contents used s' (te_key x) \<in> {None, device_view cr contents used s (te_key x), Some x}"
    if "te_key x \<in> used" "length (te_bytes x) < 2 ^ 63" "kt_put (device_vt cr order dm name) x s = (w, s')"
    using put_cases [OF inv that(1)] that(3) by (auto simp: device_vt_def)
  show "device_view cr contents used s' (te_key x) \<in> {None, Some x}"
    if "te_key x \<in> used" "length (te_bytes x) < 2 ^ 63" "True" "kt_put (device_vt cr order dm name) x s = (Inr u, s')"
    using put_cases [OF inv that(1)] that(4) by (auto simp: device_vt_def)
  show "device_view cr contents used s' \<subseteq>\<^sub>m device_view cr contents used s \<and> tier_ok cr used s'"
    if "k \<in> used" "kt_remove (device_vt cr order dm name) k s = (w, s')"
    using remove_cases [OF inv that(1)] that(2) by (auto simp: device_vt_def map_le_def)
  show "device_view cr contents used s' k = None" if "k \<in> used" "kt_remove (device_vt cr order dm name) k s = (Inr u, s')"
    using remove_cases [OF inv that(1)] that(2) by (simp add: device_vt_def)
  show "te_key x = k" if "device_view cr contents used s k = Some x"
    using that by (auto simp: device_view_def split: if_splits option.splits)
qed

end

interpretation host_tier: coherent_tier "device_vt cr order (host_device_memory dname) name"
  "device_view cr (\<lambda>d. map_of (hd_buffers d)) used" "device_inv cr (\<lambda>d. map_of (hd_buffers d)) host_ok used" used "\<lambda>_. True"
  by (rule host.device_coherent)

section \<open>The host tier is a map\<close>

text \<open>What the calls promise: a map that refuses empty entries.\<close>

fun map_step :: "tier_request \<Rightarrow> (kv_block_key \<Rightarrow> kv_tier_entry option) \<Rightarrow> tier_reply \<times> (kv_block_key \<Rightarrow> kv_tier_entry option)" where
  "map_step (GetBlock k) m = (Found (Inr (m k)), m)"
| "map_step (PutEntry e) m =
     (if te_bytes e = [] then (Done (Inl (IoError InvalidInput ''device allocation length must be greater than zero'')), m)
      else (Done (Inr ()), m(te_key e \<mapsto> e)))"
| "map_step (RemoveBlock k) m = (Done (Inr ()), m(k := None))"
| "map_step ClearTier m = (Done (Inr ()), Map.empty)"

fun call_in :: "kv_block_key set \<Rightarrow> tier_request \<Rightarrow> bool" where
  "call_in used (GetBlock k) = (k \<in> used)"
| "call_in used (PutEntry e) = (te_key e \<in> used \<and> length (te_bytes e) < 2 ^ 63)"
| "call_in used (RemoveBlock k) = (k \<in> used)"
| "call_in used ClearTier = True"

definition handles :: "(string \<Rightarrow> device_entry option) \<Rightarrow> nat set" where
  "handles es = (\<lambda>e. db_handle (de_buffer e)) ` ran es"

definition owned_handles :: "'d device_tier \<Rightarrow> nat set" where
  "owned_handles t = handles (map_of (dt_entries t))"

lemma handles_add: "es ck = None \<Longrightarrow> handles (es(ck \<mapsto> e)) = insert (db_handle (de_buffer e)) (handles es)"
  by (simp add: handles_def)

lemma handles_remove:
  assumes "entries_ok m es" "es ck = Some e"
  shows "handles (es(ck := None)) = handles es - {db_handle (de_buffer e)}"
  using assms unfolding handles_def ran_def entries_ok_def by (auto simp: image_iff split: if_splits) (metis option.inject)

lemma handles_replace:
  assumes "entries_ok m es" "es ck = Some old"
  shows "handles (es(ck \<mapsto> e)) = insert (db_handle (de_buffer e)) (handles es - {db_handle (de_buffer old)})"
  using handles_add [of "es(ck := None)" ck e] handles_remove [OF assms] by simp

abbreviation host_contents :: "host_device \<Rightarrow> nat \<Rightarrow> u8 list option" where
  "host_contents d \<equiv> map_of (hd_buffers d)"

abbreviation host_inv :: "crypto \<Rightarrow> kv_block_key set \<Rightarrow> host_device device_tier \<Rightarrow> bool" where
  "host_inv cr used \<equiv> device_inv cr host_contents host_ok used"

definition host_tier_ok :: "crypto \<Rightarrow> kv_block_key set \<Rightarrow> host_device device_tier \<Rightarrow> bool" where
  "host_tier_ok cr used t \<longleftrightarrow> host_inv cr used t \<and> hm_ok (dt_entries t) \<and> dom (host_contents (dt_device t)) = owned_handles t"

lemmas host_ops = host_device_memory_def host_allocate_def host_upload_def host_download_def host_free_def on_device_def Let_def

lemma host_get:
  assumes "host_tier_ok cr used t" "k \<in> used"
  shows "device_get cr (host_device_memory name) k t = (Inr (device_view cr host_contents used t k), t)"
proof (cases "map_of (dt_entries t) (cache_key cr k)")
  case None
  then show ?thesis using assms(2) by (simp add: device_get_def device_lookup_def device_fetch_def device_view_def)
next
  case (Some e)
  then obtain v where "host_contents (dt_device t) (db_handle (de_buffer e)) = Some v" "length v = db_len (de_buffer e)"
    using assms(1) unfolding host_tier_ok_def device_inv_def entries_ok_def buffer_ok_def by blast
  then show ?thesis using assms(2) Some
    by (simp add: device_get_def device_lookup_def device_fetch_def device_view_def host_ops)
qed

lemma host_put:
  assumes "host_tier_ok cr used t" "te_key x \<in> used" "length (te_bytes x) < 2 ^ 63" "te_bytes x \<noteq> []"
  obtains t' where "device_put cr (host_device_memory name) x t = (Inr (), t')" "hm_ok (dt_entries t')"
    "dom (host_contents (dt_device t')) = owned_handles t'"
proof -
  let ?h = "hd_next (dt_device t)" and ?ck = "cache_key cr (te_key x)"
  have ok: "entries_ok (host_contents (dt_device t)) (map_of (dt_entries t))" "hm_ok (dt_entries t)"
    "dom (host_contents (dt_device t)) = owned_handles t"
    using assms(1) by (simp_all add: host_tier_ok_def device_inv_def)
  let ?e = "\<lparr> de_buffer = \<lparr> db_handle = ?h, db_len = length (te_bytes x) \<rparr>, de_expires_at = te_expires_at x, de_pinned = te_pinned x \<rparr>"
  let ?d = "(dt_device t)\<lparr> hd_next := ?h + 1, hd_buffers := AList.update ?h (te_bytes x) (AList.update ?h (replicate (length (te_bytes x)) 0) (hd_buffers (dt_device t))) \<rparr>"
  let ?t = "t\<lparr> dt_device := ?d, dt_entries := AList.update ?ck ?e (dt_entries t) \<rparr>"
  have small: "\<not> 0x7FFFFFFFFFFFFFFF < int (length (te_bytes x))" using assms(3) by simp
  show thesis
  proof (cases "map_of (dt_entries t) ?ck")
    case None
    have "device_put cr (host_device_memory name) x t = (Inr (), ?t)"
      using None small assms(4) by (simp add: device_put_def host_ops hm_simps)
    moreover have "owned_handles ?t = insert ?h (owned_handles t)"
      using None by (simp add: owned_handles_def hm_simps handles_add)
    ultimately show ?thesis using that ok by (simp add: hm_simps)
  next
    case (Some old)
    let ?o = "db_handle (de_buffer old)"
    have "?o \<in> dom (host_contents (dt_device t))" using Some ok(3) by (auto simp: owned_handles_def handles_def ran_def)
    then have ne: "?o \<noteq> ?h" using assms(1) by (auto simp: host_tier_ok_def device_inv_def host_ok_def)
    let ?t2 = "?t\<lparr> dt_device := ?d\<lparr> hd_buffers := AList.delete ?o (hd_buffers ?d) \<rparr> \<rparr>"
    have "device_put cr (host_device_memory name) x t = (Inr (), ?t2)"
      using Some small assms(4) by (simp add: device_put_def host_ops hm_simps)
    moreover have "owned_handles ?t2 = insert ?h (owned_handles t - {?o})"
      using handles_replace [OF ok(1) Some] by (simp add: owned_handles_def hm_simps)
    ultimately show ?thesis using that [of ?t2] ok ne by (auto simp: hm_simps)
  qed
qed

lemma host_remove:
  assumes "host_tier_ok cr used t"
  obtains t' where "device_remove cr (host_device_memory name) k t = (Inr (), t')" "hm_ok (dt_entries t')"
    "dom (host_contents (dt_device t')) = owned_handles t'"
proof (cases "map_of (dt_entries t) (cache_key cr k)")
  case None
  then show ?thesis using that assms by (simp add: host_tier_ok_def device_remove_def Let_def delete_absent)
next
  case (Some e)
  let ?t = "t\<lparr> dt_entries := AList.delete (cache_key cr k) (dt_entries t),
    dt_device := (dt_device t)\<lparr> hd_buffers := AList.delete (db_handle (de_buffer e)) (hd_buffers (dt_device t)) \<rparr> \<rparr>"
  have "device_remove cr (host_device_memory name) k t = (Inr (), ?t)" using Some by (simp add: device_remove_def host_ops)
  moreover have "entries_ok (host_contents (dt_device t)) (map_of (dt_entries t))" "hm_ok (dt_entries t)"
    "dom (host_contents (dt_device t)) = owned_handles t"
    using assms by (simp_all add: host_tier_ok_def device_inv_def)
  ultimately show ?thesis using that [of ?t] handles_remove [where es = "map_of (dt_entries t)", OF _ Some]
    by (simp add: owned_handles_def hm_simps)
qed

lemma host_free_all:
  "\<exists>d. free_all (host_device_memory name) bs None t = (Inr (), t\<lparr> dt_device := d \<rparr>) \<and> hd_next d = hd_next (dt_device t) \<and>
     host_contents d = host_contents (dt_device t) |` (- db_handle ` set bs)"
proof (induction bs arbitrary: t)
  case Nil
  show ?case by (auto intro!: exI [of _ "dt_device t"])
next
  case (Cons b bs)
  let ?d = "(dt_device t)\<lparr> hd_buffers := AList.delete (db_handle b) (hd_buffers (dt_device t)) \<rparr>"
  have "host_contents ?d |` (- db_handle ` set bs) = host_contents (dt_device t) |` (- db_handle ` set (b # bs))"
    by (rule ext) (auto simp: restrict_map_def hm_simps)
  then show ?case using Cons.IH [of "t\<lparr> dt_device := ?d \<rparr>"] by (auto simp: host_ops)
qed

lemma host_entries_cover:
  assumes "host_tier_ok cr used t" "hash_order_ok order"
  shows "(\<lambda>(_, e). db_handle (de_buffer e)) ` set (hm_iter order (dt_entries t)) = dom (host_contents (dt_device t))"
proof -
  have ok: "hm_ok (dt_entries t)" "dom (host_contents (dt_device t)) = owned_handles t"
    using assms(1) by (simp_all add: host_tier_ok_def)
  have "(\<lambda>(_, e). db_handle (de_buffer e)) ` set (dt_entries t) = owned_handles t"
    using map_of_in_hm [OF ok(1)] by (force simp: owned_handles_def handles_def ran_def image_iff)
  then show ?thesis using ok(2) by (simp add: set_hm_iter [OF assms(2) ok(1)])
qed

lemma host_clear:
  assumes "host_tier_ok cr used t" "hash_order_ok order"
  obtains d where "device_clear order (host_device_memory name) t = (Inr (), \<lparr> dt_entries = [], dt_device = d \<rparr>)"
    "hd_buffers d = []"
proof -
  let ?bs = "map (\<lambda>(_, e). de_buffer e) (hm_iter order (dt_entries t))"
  have all: "db_handle ` set ?bs = dom (host_contents (dt_device t))"
    unfolding host_entries_cover [OF assms, symmetric] by force
  obtain d where d: "free_all (host_device_memory name) ?bs None (t\<lparr> dt_entries := [] \<rparr>)
      = (Inr (), t\<lparr> dt_entries := [], dt_device := d \<rparr>)"
    "host_contents d = host_contents (dt_device t) |` (- db_handle ` set ?bs)"
    using host_free_all [of name ?bs "t\<lparr> dt_entries := [] \<rparr>"] by auto
  have "host_contents d = Map.empty" using d(2) unfolding all by (auto simp: restrict_map_def fun_eq_iff domIff)
  then have "hd_buffers d = []" by simp
  with that [of d] d(1) show ?thesis by (cases t) (simp add: device_clear_def)
qed

lemma host_drop:
  assumes "host_tier_ok cr used t" "hash_order_ok order"
  shows "hd_buffers (device_drop order (host_device_memory name) t) = []"
proof -
  have freed: "host_contents (fold (\<lambda>(_, e) d. snd (dm_free (host_device_memory name) (de_buffer e) d)) es d)
      = host_contents d |` (- (\<lambda>(_, e). db_handle (de_buffer e)) ` set es)" for es :: "(string \<times> device_entry) list" and d
    by (induction es arbitrary: d) (auto simp: host_ops hm_simps restrict_map_def fun_eq_iff)
  have "host_contents (device_drop order (host_device_memory name) t) = Map.empty"
    unfolding device_drop_def freed host_entries_cover [OF assms] by (auto simp: restrict_map_def fun_eq_iff domIff)
  then show ?thesis by simp
qed

lemma host_step:
  assumes "host_tier_ok cr used t" "call_in used c" "hash_order_ok order"
  shows "\<exists>t'. tier_step (device_vt cr order (host_device_memory name) tname) c t = (fst (map_step c (device_view cr host_contents used t)), t') \<and>
     host_tier_ok cr used t' \<and> device_view cr host_contents used t' = snd (map_step c (device_view cr host_contents used t))"
proof (cases c)
  case (GetBlock k)
  then show ?thesis using assms host_get [OF assms(1), of k name] by (simp add: device_vt_def)
next
  case (PutEntry e)
  show ?thesis
  proof (cases "te_bytes e = []")
    case True
    then have "device_put cr (host_device_memory name) e t
        = (Inl (IoError InvalidInput ''device allocation length must be greater than zero''), t)"
      by (cases t) (simp add: device_put_def host_ops)
    then show ?thesis using PutEntry True assms(1) by (simp add: device_vt_def)
  next
    case False
    then obtain t' where p: "device_put cr (host_device_memory name) e t = (Inr (), t')" "hm_ok (dt_entries t')"
      "dom (host_contents (dt_device t')) = owned_handles t'"
      using host_put [OF assms(1), of e name thesis] PutEntry assms(2) by auto
    from host.put_cases [OF _ _ p(1)] assms(1,2) PutEntry p False show ?thesis by (auto simp: host_tier_ok_def device_vt_def)
  qed
next
  case (RemoveBlock k)
  obtain t' where p: "device_remove cr (host_device_memory name) k t = (Inr (), t')" "hm_ok (dt_entries t')"
    "dom (host_contents (dt_device t')) = owned_handles t'"
    using host_remove [OF assms(1)] by blast
  from host.remove_cases [OF _ _ p(1)] assms(1,2) RemoveBlock p show ?thesis by (auto simp: host_tier_ok_def device_vt_def)
next
  case ClearTier
  obtain d where p: "device_clear order (host_device_memory name) t = (Inr (), \<lparr> dt_entries = [], dt_device = d \<rparr>)"
    "hd_buffers d = []"
    using host_clear [OF assms(1,3)] by blast
  have "device_view cr host_contents used \<lparr> dt_entries = [], dt_device = d \<rparr> = Map.empty"
    by (rule ext) (simp add: device_view_def)
  then show ?thesis using assms(1) ClearTier p
    by (auto simp: host_tier_ok_def device_vt_def device_inv_def host_ok_def entries_ok_def owned_handles_def handles_def)
qed

lemma host_run:
  assumes "host_tier_ok cr used t" "\<forall>c \<in> set cs. call_in used c" "hash_order_ok order"
  shows "\<exists>t'. run_tier (tier_step (device_vt cr order (host_device_memory name) tname)) cs t
       = (fst (run_tier map_step cs (device_view cr host_contents used t)), t') \<and> host_tier_ok cr used t' \<and>
     device_view cr host_contents used t' = snd (run_tier map_step cs (device_view cr host_contents used t))"
  using assms(1,2)
proof (induction cs arbitrary: t)
  case Nil
  then show ?case by simp
next
  case (Cons c cs)
  obtain t1 where t1: "tier_step (device_vt cr order (host_device_memory name) tname) c t = (fst (map_step c (device_view cr host_contents used t)), t1)"
    "host_tier_ok cr used t1" "device_view cr host_contents used t1 = snd (map_step c (device_view cr host_contents used t))"
    using host_step [OF Cons.prems(1) _ assms(3), of c name tname] Cons.prems(2) by auto
  show ?case using Cons.IH [OF t1(2)] Cons.prems(2) t1 by (auto simp: case_prod_beta)
qed

lemma host_tier_new:
  assumes "host_device_new dname = Inr d" "device_tier_new tname d = Inr t" "inj_on (cache_key cr) used"
  shows "host_tier_ok cr used t" "device_view cr host_contents used t = Map.empty"
  using assms
  by (auto simp: host_device_new_def device_tier_new_def host_tier_ok_def device_inv_def host_ok_def entries_ok_def
      owned_handles_def handles_def device_view_def split: if_splits)


definition demo_block_entry :: "u8 list \<Rightarrow> kv_tier_entry" where
  "demo_block_entry bs = \<lparr> te_block = \<lparr> blk_key = demo_key, blk_bytes = bs \<rparr>, te_expires_at = 0, te_pinned = False \<rparr>"


section \<open>A read that races a removal\<close>

text \<open>A device with room for one buffer, which uses its handle again once the buffer was freed.\<close>

definition slot_ops :: "u8 list option ffi_device_ops" where
  "slot_ops = \<lparr>
     fo_allocate = (\<lambda>len c. case c of None \<Rightarrow> ((0, 1), Some (replicate len 0)) | Some _ \<Rightarrow> ((2, 0), c)),
     fo_upload = (\<lambda>h bs c. if h = 1 \<and> c \<noteq> None then (0, Some bs) else (3, c)),
     fo_download = (\<lambda>h len c. case c of Some bs \<Rightarrow> if h = 1 then ((0, bs), c) else ((4, []), c) | None \<Rightarrow> ((4, []), c)),
     fo_free = (\<lambda>h c. if h = 1 \<and> c \<noteq> None then (0, None) else (5, c)),
     fo_health = None \<rparr>"

abbreviation slot_device :: "u8 list option device_memory" where
  "slot_device \<equiv> ffi_device_memory ''slot'' slot_ops"

definition slot_contents :: "u8 list option \<Rightarrow> nat \<Rightarrow> u8 list option" where
  "slot_contents c h = (if h = 1 then c else None)"

lemma check_then_Inr [simp]: "check_then (Inr u) s k = k u"
  by (simp add: check_then_def)

lemmas ffi_defs = ffi_device_memory_def ffi_allocate_def ffi_upload_def ffi_download_def ffi_free_def ffi_health_def
  ffi_check_def slot_ops_def

lemma slot_device_lawful: "lawful_device slot_device slot_contents (\<lambda>_. True)"
proof
  fix d d' :: "u8 list option" and n b e v bs u r and w :: "unit io_result"
  show "True \<and> slot_contents d (db_handle b) = None \<and> db_len b = n \<and>
      (\<exists>v. length v = n \<and> slot_contents d' = (slot_contents d)(db_handle b \<mapsto> v))"
    if "dm_allocate slot_device n d = (Inr b, d')"
    using that by (cases d) (auto simp: ffi_defs slot_contents_def fun_eq_iff check_then_def split: if_splits)
  show "True \<and> slot_contents d' = slot_contents d" if "dm_allocate slot_device n d = (Inl e, d')"
    using that by (cases d) (auto simp: ffi_defs check_then_def split: if_splits)
  show "True \<and> length bs = db_len b \<and> slot_contents d' = (slot_contents d)(db_handle b \<mapsto> bs)"
    if "slot_contents d (db_handle b) = Some v" "dm_upload slot_device b bs d = (Inr u, d')"
    using that by (auto simp: ffi_defs slot_contents_def fun_eq_iff split: if_splits)
  show "True \<and> (\<exists>v'. slot_contents d' = (slot_contents d)(db_handle b \<mapsto> v'))"
    if "slot_contents d (db_handle b) = Some v" "dm_upload slot_device b bs d = (Inl e, d')"
    using that by (auto simp: ffi_defs slot_contents_def fun_eq_iff split: if_splits)
  show "True \<and> slot_contents d' = slot_contents d \<and> (\<forall>bs. r = Inr bs \<longrightarrow> bs = v)"
    if "slot_contents d (db_handle b) = Some v" "length v = db_len b" "dm_download slot_device b d = (r, d')"
    using that by (auto simp: ffi_defs slot_contents_def check_then_def split: if_splits)
  show "True \<and> (\<exists>v'. slot_contents d' = (slot_contents d)(db_handle b := v')) \<and>
      (w = Inr () \<longrightarrow> slot_contents d' = (slot_contents d)(db_handle b := None))"
    if "slot_contents d (db_handle b) = Some v" "dm_free slot_device b d = (w, d')"
    using that by (auto simp: ffi_defs slot_contents_def fun_eq_iff split: if_splits)
qed

text \<open>C29:
  A read of the device tier is not atomic. Between its lookup, made under the lock, and its download,
  made after the lock is released, another client can remove the entry and write a block of another key. On a
  lawful device that uses handles again, the read then answers the other block's bytes under
  its own key, although a read by itself answers only bytes written under its key.
\<close>

theorem racing_read_answers_another_block:
  assumes "cache_key cr (te_key a) \<noteq> cache_key cr (te_key b)" "te_bytes a \<noteq> []" "length (te_bytes b) = length (te_bytes a)"
    "device_put cr slot_device a \<lparr> dt_entries = [], dt_device = None \<rparr> = (r1, t1)"
    "device_remove cr slot_device (te_key a) t1 = (r2, t2)" "device_put cr slot_device b t2 = (r3, t3)"
  shows "r1 = Inr () \<and> r2 = Inr () \<and> r3 = Inr () \<and> fst (device_get cr slot_device (te_key a) t1) = Inr (Some a) \<and>
    fst (device_get cr slot_device (te_key a) t3) = Inr None \<and>
    fst (device_fetch slot_device (te_key a) (device_lookup cr (te_key a) t1) t3) = Inr (Some (a\<lparr> te_block := (te_block a)\<lparr> blk_bytes := te_bytes b \<rparr> \<rparr>))"
proof -
  have b: "te_bytes b \<noteq> []" using assms(2,3) by auto
  have t1: "r1 = Inr () \<and> t1 = \<lparr> dt_entries = [(cache_key cr (te_key a), \<lparr> de_buffer = \<lparr> db_handle = 1, db_len = length (te_bytes a) \<rparr>,
      de_expires_at = te_expires_at a, de_pinned = te_pinned a \<rparr>)], dt_device = Some (te_bytes a) \<rparr>"
    using assms(2,4) by (auto simp: device_put_def on_device_def ffi_defs Let_def)
  then have t2: "r2 = Inr () \<and> t2 = \<lparr> dt_entries = [], dt_device = None \<rparr>"
    using assms(5) by (auto simp: device_remove_def on_device_def ffi_defs Let_def)
  then have t3: "r3 = Inr () \<and> t3 = \<lparr> dt_entries = [(cache_key cr (te_key b), \<lparr> de_buffer = \<lparr> db_handle = 1, db_len = length (te_bytes b) \<rparr>,
      de_expires_at = te_expires_at b, de_pinned = te_pinned b \<rparr>)], dt_device = Some (te_bytes b) \<rparr>"
    using b assms(6) by (auto simp: device_put_def on_device_def ffi_defs Let_def)
  show ?thesis using t1 t2 t3 assms(1,3)
    by (cases a, cases "te_block a") (simp add: device_get_def device_lookup_def device_fetch_def on_device_def ffi_defs)
qed

definition other_key :: kv_block_key where
  "other_key = demo_key\<lparr> key_token_start := 9 \<rparr>"

definition tail_crypto :: crypto where
  "tail_crypto = demo_crypto\<lparr> sha256 := (\<lambda>bs. take 32 (rev bs)) \<rparr>"

lemma racing_read_answers_another_block_witness:
  "let a = demo_block_entry [1]; b = (demo_block_entry [2])\<lparr> te_block := \<lparr> blk_key = other_key, blk_bytes = [2] \<rparr> \<rparr>;
       t1 = snd (device_put tail_crypto slot_device a \<lparr> dt_entries = [], dt_device = None \<rparr>);
       t3 = snd (device_put tail_crypto slot_device b (snd (device_remove tail_crypto slot_device demo_key t1))) in
   fst (device_fetch slot_device demo_key (device_lookup tail_crypto demo_key t1) t3) = Inr (Some (demo_block_entry [2]))"
proof -
  let ?a = "demo_block_entry [1]" and ?b = "(demo_block_entry [2])\<lparr> te_block := \<lparr> blk_key = other_key, blk_bytes = [2] \<rparr> \<rparr>"
  obtain r1 t1 where 1: "device_put tail_crypto slot_device ?a \<lparr> dt_entries = [], dt_device = None \<rparr> = (r1, t1)" by fastforce
  obtain r2 t2 where 2: "device_remove tail_crypto slot_device (te_key ?a) t1 = (r2, t2)" by fastforce
  obtain r3 t3 where 3: "device_put tail_crypto slot_device ?b t2 = (r3, t3)" by fastforce
  have "cache_key tail_crypto demo_key \<noteq> cache_key tail_crypto other_key" by code_simp
  from racing_read_answers_another_block [OF _ _ _ 1 2 3] this 1 2 3 show ?thesis by (simp add: demo_block_entry_def Let_def)
qed

end
