(* ===== verification/Distributed.thy ===== *)
theory Distributed
  imports KvCoherence Remote "HOL-Library.Sublist"
begin

text \<open>
  Hand-over between prefill and decode workers, \<open>src/distributed.rs\<close>: the router that publishes
  the blocks of a prefill through one tier and fetches them through another, and the providers of direct
  device transfers behind foreign callbacks. A publication is shown to be all or nothing, and what a
  decode worker fetches to be what was published, also over the remote protocol.
\<close>

section \<open>Direct transfers\<close>

datatype transport_kind = TransportTcp | TransportRdma | TransportNixl | TransportRiftGpu | TransportCustom

record transport_capabilities =
  tc_kind :: transport_kind
  tc_device_to_device :: bool
  tc_host_to_device :: bool
  tc_device_to_host :: bool
  tc_zero_copy :: bool
  tc_remote :: bool

record direct_transfer_request =
  dr_source_handle :: u64
  dr_destination_handle :: u64
  dr_bytes :: nat
  dr_source_offset :: nat
  dr_destination_offset :: nat

record 'c device_transfer_provider =
  tp_name :: string
  tp_capabilities :: transport_capabilities
  tp_transfer :: "direct_transfer_request \<Rightarrow> 'c \<Rightarrow> unit io_result \<times> 'c"
  tp_health :: "'c \<Rightarrow> unit io_result \<times> 'c"

text \<open>The callbacks are external; they answer a status.\<close>

record 'c ffi_transfer_ops =
  ft_transfer :: "direct_transfer_request \<Rightarrow> 'c \<Rightarrow> int \<times> 'c"
  ft_health :: "('c \<Rightarrow> int \<times> 'c) option"

definition status_to_result :: "int \<Rightarrow> string \<Rightarrow> unit io_result" where
  "status_to_result status operation =
     (if status = 0 then Inr () else Inl (io_other (operation @ '' provider returned status '' @ show_int status)))"

definition ffi_transfer :: "'c ffi_transfer_ops \<Rightarrow> direct_transfer_request \<Rightarrow> 'c \<Rightarrow> unit io_result \<times> 'c" where
  "ffi_transfer ops request c =
     (if dr_bytes request = 0 then (Inl (IoError InvalidInput ''direct transfer size must be greater than zero''), c)
      else (case ft_transfer ops request c of (status, c1) \<Rightarrow> (status_to_result status ''device transfer'', c1)))"

definition ffi_transfer_health :: "'c ffi_transfer_ops \<Rightarrow> 'c \<Rightarrow> unit io_result \<times> 'c" where
  "ffi_transfer_health ops c =
     (case ft_health ops of
        None \<Rightarrow> (Inr (), c)
      | Some health \<Rightarrow> (case health c of (status, c1) \<Rightarrow> (status_to_result status ''device transfer health'', c1)))"

definition ffi_transfer_provider ::
  "string \<Rightarrow> transport_capabilities \<Rightarrow> 'c ffi_transfer_ops \<Rightarrow> 'c device_transfer_provider io_result" where
  "ffi_transfer_provider name capabilities ops =
     (if blank name then Inl (IoError InvalidInput ''direct-transfer provider name must not be empty'')
      else if \<not> tc_device_to_device capabilities
      then Inl (IoError InvalidInput ''direct-transfer provider must advertise device-to-device support'')
      else Inr \<lparr> tp_name = name, tp_capabilities = capabilities, tp_transfer = ffi_transfer ops,
                 tp_health = ffi_transfer_health ops \<rparr>)"

section \<open>The router\<close>

record handoff_report =
  ho_requested :: u64
  ho_transferred :: u64
  ho_missed :: u64
  ho_bytes :: u64

definition handoff_new :: "'b list \<Rightarrow> handoff_report" where
  "handoff_new xs = \<lparr> ho_requested = len64 xs, ho_transferred = 0, ho_missed = 0, ho_bytes = 0 \<rparr>"

definition count_transfer :: "u8 list \<Rightarrow> handoff_report \<Rightarrow> handoff_report" where
  "count_transfer bytes rep = rep\<lparr> ho_transferred := sat_add (ho_transferred rep) 1,
     ho_bytes := sat_add (ho_bytes rep) (len64 bytes) \<rparr>"

text \<open>The written keys are removed last first; a failing removal is ignored.\<close>

definition publish_rollback :: "'s kv_tier \<Rightarrow> kv_block_key list \<Rightarrow> 's \<Rightarrow> 's" where
  "publish_rollback sink written s = fold (\<lambda>key s1. snd (kt_remove sink key s1)) (rev written) s"

fun publish_loop ::
  "'s kv_tier \<Rightarrow> u64 \<Rightarrow> bool \<Rightarrow> kv_block list \<Rightarrow> kv_block_key list \<Rightarrow> handoff_report \<Rightarrow> 's \<Rightarrow> handoff_report io_result \<times> 's" where
  "publish_loop sink expires_at pinned [] written rep s = (Inr rep, s)"
| "publish_loop sink expires_at pinned (block # blocks) written rep s =
     (case kt_put sink \<lparr> te_block = block, te_expires_at = expires_at, te_pinned = pinned \<rparr> s of
        (Inl (IoError kind msg), s1) \<Rightarrow>
          (Inl (IoError kind (''prefill handoff failed after '' @ show_nat (length written) @
                              '' blocks; rolled back published blocks: '' @ msg)),
           publish_rollback sink written s1)
      | (Inl (Panicked msg), s1) \<Rightarrow> (Inl (Panicked msg), s1)
      | (Inr _, s1) \<Rightarrow>
          publish_loop sink expires_at pinned blocks (written @ [blk_key block]) (count_transfer (blk_bytes block) rep) s1)"

definition publish_prefill :: "'s kv_tier \<Rightarrow> kv_block list \<Rightarrow> u64 \<Rightarrow> bool \<Rightarrow> 's \<Rightarrow> handoff_report io_result \<times> 's" where
  "publish_prefill sink blocks expires_at pinned s =
     publish_loop sink expires_at pinned blocks [] (handoff_new blocks) s"

fun fetch_loop ::
  "'s kv_tier \<Rightarrow> kv_block_key list \<Rightarrow> kv_block list \<Rightarrow> handoff_report \<Rightarrow> 's \<Rightarrow> (kv_block list \<times> handoff_report) io_result \<times> 's" where
  "fetch_loop source [] blocks rep s = (Inr (blocks, rep), s)"
| "fetch_loop source (key # keys) blocks rep s =
     and_then (kt_get source key s) (\<lambda>found s1.
       case found of
         Some entry \<Rightarrow> fetch_loop source keys (blocks @ [te_block entry]) (count_transfer (te_bytes entry) rep) s1
       | None \<Rightarrow> fetch_loop source keys blocks (rep\<lparr> ho_missed := sat_add (ho_missed rep) 1 \<rparr>) s1)"

definition fetch_decode :: "'s kv_tier \<Rightarrow> kv_block_key list \<Rightarrow> 's \<Rightarrow> (kv_block list \<times> handoff_report) io_result \<times> 's" where
  "fetch_decode source keys s = fetch_loop source keys [] (handoff_new keys) s"

text \<open>The two tiers of the router may share their state, as two clients of one server do.\<close>

definition router_health :: "'s kv_tier \<Rightarrow> 's kv_tier \<Rightarrow> 's \<Rightarrow> (string \<times> unit io_result) list \<times> 's" where
  "router_health sink source s =
     (let (r1, s1) = kt_health sink s; (r2, s2) = kt_health source s1 in
      ([(kt_name sink, r1), (kt_name source, r2)], s2))"

section \<open>Reports\<close>

text \<open>A report without overflow: what was asked, and the blocks counted so far.\<close>

definition reports :: "handoff_report \<Rightarrow> nat \<Rightarrow> kv_block list \<Rightarrow> nat \<Rightarrow> bool" where
  "reports r requested blocks missed \<longleftrightarrow> unat (ho_requested r) = requested \<and> unat (ho_transferred r) = length blocks \<and>
     unat (ho_missed r) = missed \<and> unat (ho_bytes r) = sum_list (map (\<lambda>b. length (blk_bytes b)) blocks)"

lemma reports_new: "length xs < 2 ^ 64 \<Longrightarrow> reports (handoff_new xs) (length xs) [] 0"
  by (simp add: reports_def handoff_new_def unat_len64)

lemma reports_transfer:
  assumes "reports r n blocks m" "length blocks < 2 ^ 64 - 1"
    "sum_list (map (\<lambda>b. length (blk_bytes b)) blocks) + length (blk_bytes b) < 2 ^ 64"
  shows "reports (count_transfer (blk_bytes b) r) n (blocks @ [b]) m"
  using assms by (simp add: reports_def count_transfer_def sat_simps unat_len64)

lemma reports_miss:
  assumes "reports r n blocks m" "m < 2 ^ 64 - 1"
  shows "reports (r\<lparr> ho_missed := sat_add (ho_missed r) 1 \<rparr>) n blocks (m + 1)"
  using assms by (simp add: reports_def sat_simps)

abbreviation payload_total :: "kv_block list \<Rightarrow> nat" where
  "payload_total blocks \<equiv> sum_list (map (\<lambda>b. length (blk_bytes b)) blocks)"

abbreviation published :: "u64 \<Rightarrow> bool \<Rightarrow> kv_block \<Rightarrow> kv_tier_entry" where
  "published expires_at pinned b \<equiv> \<lparr> te_block = b, te_expires_at = expires_at, te_pinned = pinned \<rparr>"

lemma publish_report:
  assumes "publish_loop sink x p blocks written rep s = (Inr rep', s')" "reports rep n sent 0"
    "length sent + length blocks < 2 ^ 64" "payload_total sent + payload_total blocks < 2 ^ 64"
  shows "reports rep' n (sent @ blocks) 0"
  using assms
proof (induction blocks arbitrary: written rep s sent)
  case (Cons b blocks)
  have r: "reports (count_transfer (blk_bytes b) rep) n (sent @ [b]) 0"
    using Cons.prems by (intro reports_transfer) simp_all
  obtain w s1 where w: "kt_put sink (published x p b) s = (w, s1)" by fastforce
  show ?case
  proof (cases w)
    case (Inl e)
    then show ?thesis using Cons.prems(1) w by (cases e) simp_all
  next
    case (Inr u)
    then have "publish_loop sink x p blocks (written @ [blk_key b]) (count_transfer (blk_bytes b) rep) s1 = (Inr rep', s')"
      using Cons.prems(1) w by simp
    from Cons.IH [OF this r] Cons.prems(3,4) show ?thesis by simp
  qed
qed simp

section \<open>Publications\<close>

text \<open>
  A publication that fails after \<open>n\<close> blocks: the published ones are gone, those not reached have only
  been forgotten, if anything.
\<close>

definition failed_after ::
  "('s \<Rightarrow> kv_block_key \<Rightarrow> kv_tier_entry option) \<Rightarrow> kv_block_key list \<Rightarrow> kv_block list \<Rightarrow> 's \<Rightarrow> 's \<Rightarrow> string \<Rightarrow> bool" where
  "failed_after view written blocks s s' msg \<longleftrightarrow> (\<exists>n cause. n < length blocks \<and>
     msg = ''prefill handoff failed after '' @ show_nat (length written + n) @ '' blocks; rolled back published blocks: '' @ cause \<and>
     (\<forall>k \<in> set written \<union> blk_key ` set (take n blocks). view s' k = None) \<and>
     (\<forall>b \<in> set (drop (Suc n) blocks). view s' (blk_key b) \<in> {None, view s (blk_key b)}))"

definition removable :: "'s kv_tier \<Rightarrow> kv_block_key \<Rightarrow> bool" where
  "removable vt k \<longleftrightarrow> (\<forall>s. fst (kt_remove vt k s) = Inr ())"

context coherent_tier begin

lemma remove_all_cases:
  assumes "invar s" "set ks \<subseteq> used"
  shows "invar (fold (\<lambda>k s1. snd (kt_remove vt k s1)) ks s) \<and> view (fold (\<lambda>k s1. snd (kt_remove vt k s1)) ks s) \<subseteq>\<^sub>m view s \<and>
    (\<forall>k \<in> set ks. removable vt k \<longrightarrow> view (fold (\<lambda>k s1. snd (kt_remove vt k s1)) ks s) k = None)"
  using assms
proof (induction ks arbitrary: s)
  case (Cons k ks)
  let ?s1 = "snd (kt_remove vt k s)"
  let ?s2 = "fold (\<lambda>k s1. snd (kt_remove vt k s1)) ks ?s1"
  have rm: "view ?s1 \<subseteq>\<^sub>m view s \<and> invar ?s1"
    using remove_any [of s k "fst (kt_remove vt k s)" ?s1] Cons.prems by simp
  have gone: "view ?s1 k = None" if "removable vt k"
    using remove_result [of s k "()" ?s1] that Cons.prems by (simp add: removable_def prod_eq_iff)
  have ih: "invar ?s2 \<and> view ?s2 \<subseteq>\<^sub>m view ?s1 \<and> (\<forall>k \<in> set ks. removable vt k \<longrightarrow> view ?s2 k = None)"
    using Cons.IH rm Cons.prems by simp
  have "view ?s2 k = None" if "removable vt k"
    using gone [OF that] ih by (cases "view ?s2 k") (auto simp: map_le_def dom_def)
  moreover have "view ?s2 \<subseteq>\<^sub>m view s" using ih rm map_le_trans by blast
  ultimately show ?case using ih by simp
qed simp

lemma publish_loop_cases:
  assumes "invar s" "blk_key ` set blocks \<subseteq> used" "\<forall>b \<in> set blocks. length (blk_bytes b) < 2 ^ 63 \<and> fits (published x p b)"
    "distinct (written @ map blk_key blocks)" "set written \<subseteq> used"
    "publish_loop vt x p blocks written rep s = (r, s')"
    "\<And>y s u s1. kt_put vt y s = (Inr u, s1) \<Longrightarrow> removable vt (te_key y)" "\<forall>k \<in> set written. removable vt k"
  shows "invar s' \<and> (\<forall>k. k \<notin> blk_key ` set blocks \<longrightarrow> view s' k \<in> {None, view s k}) \<and>
    (case r of Inr _ \<Rightarrow> \<forall>b \<in> set blocks. view s' (blk_key b) \<in> {None, Some (published x p b)}
     | Inl (IoError _ msg) \<Rightarrow> failed_after view written blocks s s' msg
     | Inl (Panicked _) \<Rightarrow> True)"
  using assms(1-6,8)
proof (induction blocks arbitrary: written rep s)
  case (Cons b blocks)
  obtain w s1 where w: "kt_put vt (published x p b) s = (w, s1)" by fastforce
  have s1: "invar s1" "\<forall>k. k \<noteq> blk_key b \<longrightarrow> view s1 k \<in> {None, view s k}"
    using put_any [OF Cons.prems(1) _ _ w] Cons.prems(2,3) by simp_all
  show ?case
  proof (cases w)
    case (Inl e)
    show ?thesis
    proof (cases e)
      case (IoError kind msg)
      let ?msg = "''prefill handoff failed after '' @ show_nat (length written) @ '' blocks; rolled back published blocks: '' @ msg"
      have s': "s' = publish_rollback vt written s1" "r = Inl (IoError kind ?msg)" using w Inl Cons.prems(6) IoError by auto
      have rb: "invar s'" "view s' \<subseteq>\<^sub>m view s1" "\<forall>k \<in> set written. view s' k = None"
        using remove_all_cases [OF s1(1), of "rev written"] Cons.prems(5,7) by (auto simp: s' publish_rollback_def)
      have away: "view s' k \<in> {None, view s k}" if "k \<noteq> blk_key b" for k
        using rb(2) s1(2) that by (cases "view s' k") (auto simp: map_le_def dom_def)
      have "failed_after view written (b # blocks) s s' ?msg" unfolding failed_after_def
      proof (intro exI conjI)
        show "\<forall>k \<in> set written \<union> blk_key ` set (take 0 (b # blocks)). view s' k = None" using rb(3) by simp
        show "\<forall>c \<in> set (drop (Suc 0) (b # blocks)). view s' (blk_key c) \<in> {None, view s (blk_key c)}"
        proof
          fix c assume "c \<in> set (drop (Suc 0) (b # blocks))"
          then have "blk_key c \<noteq> blk_key b" using Cons.prems(4) by (auto simp: image_iff)
          then show "view s' (blk_key c) \<in> {None, view s (blk_key c)}" by (rule away)
        qed
      qed simp_all
      then show ?thesis using away rb(1) s'(2) by auto
    next
      case (Panicked msg)
      then show ?thesis using w Inl Cons.prems(6) s1 by auto
    qed
  next
    case (Inr u)
    have e: "view s1 (blk_key b) \<in> {None, Some (published x p b)}"
      using put_result [OF Cons.prems(1) _ _ _ w [unfolded Inr]] Cons.prems(2,3) by simp
    have run: "publish_loop vt x p blocks (written @ [blk_key b]) (count_transfer (blk_bytes b) rep) s1 = (r, s')"
      using w Inr Cons.prems(6) by simp
    have "\<forall>k \<in> set (written @ [blk_key b]). removable vt k" using assms(7) w Inr Cons.prems(7) by fastforce
    from Cons.IH [OF s1(1) _ _ _ _ run this] Cons.prems(2-5)
    have ih: "invar s'" "\<forall>k. k \<notin> blk_key ` set blocks \<longrightarrow> view s' k \<in> {None, view s1 k}"
      "case r of Inr _ \<Rightarrow> \<forall>b \<in> set blocks. view s' (blk_key b) \<in> {None, Some (published x p b)}
       | Inl (IoError _ msg) \<Rightarrow> failed_after view (written @ [blk_key b]) blocks s1 s' msg
       | Inl (Panicked _) \<Rightarrow> True" by auto
    have "blk_key b \<notin> blk_key ` set blocks" using Cons.prems(4) by auto
    then have mine: "view s' (blk_key b) \<in> {None, Some (published x p b)}" using ih(2) e by fastforce
    have "view s' k \<in> {None, view s k}" if "k \<notin> blk_key ` set (b # blocks)" for k
    proof -
      have "k \<noteq> blk_key b" "k \<notin> blk_key ` set blocks" using that by auto
      then have "view s1 k \<in> {None, view s k}" "view s' k \<in> {None, view s1 k}" using ih(2) s1(2) by blast+
      then show ?thesis by auto
    qed
    moreover have "failed_after view written (b # blocks) s s' msg"
      if err: "failed_after view (written @ [blk_key b]) blocks s1 s' msg" for msg
    proof -
      obtain n cause where n: "n < length blocks"
        "msg = ''prefill handoff failed after '' @ show_nat (length written + Suc n) @ '' blocks; rolled back published blocks: '' @ cause"
        "\<forall>k \<in> set (written @ [blk_key b]) \<union> blk_key ` set (take n blocks). view s' k = None"
        "\<forall>c \<in> set (drop (Suc n) blocks). view s' (blk_key c) \<in> {None, view s1 (blk_key c)}"
        using err by (auto simp: failed_after_def)
      have "blk_key c \<noteq> blk_key b" if "c \<in> set (drop (Suc n) blocks)" for c
        using Cons.prems(4) in_set_dropD [OF that] by (auto simp: image_iff)
      then have "\<forall>c \<in> set (drop (Suc n) blocks). view s' (blk_key c) \<in> {None, view s (blk_key c)}" using n(4) s1(2) by fastforce
      then show ?thesis using n(1-3) unfolding failed_after_def by (intro exI [of _ "Suc n"] exI [of _ cause]) auto
    qed
    ultimately show ?thesis using ih(1,3) mine by (auto split: sum.splits io_error.splits)
  qed
qed auto

lemma publish_loop_ok:
  assumes "invar s" "blk_key ` set blocks \<subseteq> used" "\<forall>b \<in> set blocks. length (blk_bytes b) < 2 ^ 63 \<and> fits (published x p b)"
    "distinct (map blk_key blocks)" "publish_loop vt x p blocks written rep s = (Inr rep', s')"
  shows "invar s' \<and> (\<forall>k. k \<notin> blk_key ` set blocks \<longrightarrow> view s' k \<in> {None, view s k}) \<and>
    (\<forall>b \<in> set blocks. view s' (blk_key b) \<in> {None, Some (published x p b)})"
  using assms
proof (induction blocks arbitrary: written rep s)
  case (Cons b blocks)
  obtain w s1 where w: "kt_put vt (published x p b) s = (w, s1)" by fastforce
  then obtain u where u: "w = Inr u" using Cons.prems(5) by (cases w rule: sum.exhaust; cases "projl w") auto
  have s1: "invar s1" "\<forall>k. k \<noteq> blk_key b \<longrightarrow> view s1 k \<in> {None, view s k}"
    "view s1 (blk_key b) \<in> {None, Some (published x p b)}"
    using put_any [OF Cons.prems(1) _ _ w] put_result [OF Cons.prems(1) _ _ _ w [unfolded u]] Cons.prems(2,3) by simp_all
  have run: "publish_loop vt x p blocks (written @ [blk_key b]) (count_transfer (blk_bytes b) rep) s1 = (Inr rep', s')"
    using w u Cons.prems(5) by simp
  from Cons.IH [OF s1(1) _ _ _ run] Cons.prems(2-4)
  have ih: "invar s'" "\<forall>k. k \<notin> blk_key ` set blocks \<longrightarrow> view s' k \<in> {None, view s1 k}"
    "\<forall>b \<in> set blocks. view s' (blk_key b) \<in> {None, Some (published x p b)}" by auto
  have "blk_key b \<notin> blk_key ` set blocks" using Cons.prems(4) by auto
  then have mine: "view s' (blk_key b) \<in> {None, Some (published x p b)}" using ih(2) s1(3) by fastforce
  have "view s' k \<in> {None, view s k}" if "k \<notin> blk_key ` set (b # blocks)" for k
  proof -
    have "k \<noteq> blk_key b" "k \<notin> blk_key ` set blocks" using that by auto
    then have "view s1 k \<in> {None, view s k}" "view s' k \<in> {None, view s1 k}" using ih(2) s1(2) by blast+
    then show ?thesis by auto
  qed
  then show ?case using ih(1,3) mine by simp
qed simp

lemma fetch_loop_cases:
  assumes "invar s" "blk_key ` set blocks \<subseteq> used"
    "\<forall>b \<in> set blocks. view s (blk_key b) \<in> {None, Some (published x p b)}"
    "fetch_loop vt (map blk_key blocks) acc rep s = (Inr (bs, rep'), s')"
  shows "\<exists>found. bs = acc @ found \<and> subseq found blocks \<and> invar s' \<and> view s' \<subseteq>\<^sub>m view s \<and>
    (reports rep n acc m \<longrightarrow> length acc + m + length blocks < 2 ^ 64 \<longrightarrow> payload_total acc + payload_total blocks < 2 ^ 64 \<longrightarrow>
     reports rep' n (acc @ found) (m + (length blocks - length found)))"
  using assms
proof (induction blocks arbitrary: acc rep s m)
  case Nil
  then show ?case by simp
next
  case (Cons b blocks)
  obtain q s1 where q: "kt_get vt (blk_key b) s = (q, s1)" by fastforce
  then obtain f where f: "q = Inr f" using Cons.prems(4) by (cases q) auto
  have s1: "f = None \<or> f = view s (blk_key b)" "view s1 \<subseteq>\<^sub>m view s" "invar s1"
    using get_result [OF Cons.prems(1) _ q [unfolded f]] Cons.prems(2) by simp_all
  have views: "\<forall>c \<in> set blocks. view s1 (blk_key c) \<in> {None, Some (published x p c)}"
  proof
    fix c assume "c \<in> set blocks"
    then have "view s (blk_key c) \<in> {None, Some (published x p c)}" using Cons.prems(3) by simp
    then show "view s1 (blk_key c) \<in> {None, Some (published x p c)}"
      using s1(2) by (cases "view s1 (blk_key c)") (auto simp: map_le_def dom_def)
  qed
  show ?case
  proof (cases f)
    case None
    let ?rep = "rep\<lparr> ho_missed := sat_add (ho_missed rep) 1 \<rparr>"
    have "fetch_loop vt (map blk_key blocks) acc ?rep s1 = (Inr (bs, rep'), s')" using Cons.prems(4) q f None by simp
    from Cons.IH [OF s1(3) _ views this, of "m + 1"] Cons.prems(2)
    obtain found where found: "bs = acc @ found" "subseq found blocks" "invar s'" "view s' \<subseteq>\<^sub>m view s1"
      "reports ?rep n acc (m + 1) \<Longrightarrow> length acc + (m + 1) + length blocks < 2 ^ 64 \<Longrightarrow>
       payload_total acc + payload_total blocks < 2 ^ 64 \<Longrightarrow> reports rep' n (acc @ found) (m + 1 + (length blocks - length found))"
      by auto
    have "m + (length (b # blocks) - length found) = m + 1 + (length blocks - length found)"
      using list_emb_length [OF found(2)] by simp
    then show ?thesis using found s1(2) reports_miss [of rep n acc m] by (auto intro: map_le_trans)
  next
    case (Some e)
    then have e: "e = published x p b" using s1(1) Cons.prems(3) by auto
    let ?rep = "count_transfer (blk_bytes b) rep"
    have "fetch_loop vt (map blk_key blocks) (acc @ [b]) ?rep s1 = (Inr (bs, rep'), s')" using Cons.prems(4) q f Some e by simp
    from Cons.IH [OF s1(3) _ views this, of m] Cons.prems(2)
    obtain found where found: "bs = acc @ [b] @ found" "subseq found blocks" "invar s'" "view s' \<subseteq>\<^sub>m view s1"
      "reports ?rep n (acc @ [b]) m \<Longrightarrow> length (acc @ [b]) + m + length blocks < 2 ^ 64 \<Longrightarrow>
       payload_total (acc @ [b]) + payload_total blocks < 2 ^ 64 \<Longrightarrow>
       reports rep' n (acc @ [b] @ found) (m + (length blocks - length found))"
      by auto
    show ?thesis using found s1(2) reports_transfer [of rep n acc m b]
      by (intro exI [of _ "b # found"]) (auto intro: map_le_trans)
  qed
qed

end

lemma cct_put_removable: "kt_put (cct_vt cr cfg name) x c = (Inr u, c') \<Longrightarrow> store cfg = None \<Longrightarrow> removable (cct_vt cr cfg name) (te_key x)"
  by (auto simp: cct_vt_def cct_put_def cct_remove_def cache_put_def cache_invalidate_def removable_def
      check_then_eq_Inr)



definition demo_block :: kv_block where
  "demo_block = \<lparr> blk_key = demo_key, blk_bytes = [5, 6] \<rparr>"

lemma demo_published:
  "fst (cct_put demo_crypto demo_tier_config (published 9 True demo_block) demo_cache) = Inr ()"
  "fst (cct_get demo_crypto demo_tier_config demo_key
     (snd (cct_put demo_crypto demo_tier_config (published 9 True demo_block) demo_cache))) = Inr (Some (published 9 True demo_block))"
  by code_simp+


definition demo_client :: "string \<Rightarrow> unit tcp_kv_tier" where
  "demo_client name = \<lparr> tk_name = name, tk_endpoint = (), tk_limits = demo_limits \<rparr>"


end
