(* ===== verification/KeyedStore.thy ===== *)
theory KeyedStore
  imports Kv
begin

text \<open>
  Tiers over an external key/value store. A tier that writes one encoded value per block under a key of
  its own, and reads it back through a decoder, keeps the contract of the engine's tiers;
  the native SDK, Redis and S3 tiers are of this kind.
\<close>

definition stored_view ::
  "('s \<Rightarrow> 'k \<Rightarrow> u8 list option) \<Rightarrow> (kv_block_key \<Rightarrow> 'k) \<Rightarrow> (kv_block_key \<Rightarrow> u8 list \<Rightarrow> kv_tier_entry io_result)
   \<Rightarrow> kv_block_key set \<Rightarrow> 's \<Rightarrow> kv_block_key \<Rightarrow> kv_tier_entry option" where
  "stored_view kv okey dec used s k =
     (if k \<in> used then
        (case kv s (okey k) of None \<Rightarrow> None | Some raw \<Rightarrow> (case dec k raw of Inr e \<Rightarrow> Some e | Inl _ \<Rightarrow> None))
      else None)"

text \<open>What the three operations of such a tier do to the store; a failed one may have been carried out or not.\<close>

definition stores_entries ::
  "'s kv_tier \<Rightarrow> ('s \<Rightarrow> 'k \<Rightarrow> u8 list option) \<Rightarrow> (kv_block_key \<Rightarrow> 'k) \<Rightarrow> (kv_block_key \<Rightarrow> u8 list \<Rightarrow> kv_tier_entry io_result) \<Rightarrow> bool" where
  "stores_entries vt kv okey dec \<longleftrightarrow>
     (\<forall>k s r s'. kt_get vt k s = (r, s') \<longrightarrow> kv s' = kv s \<and>
        (\<forall>a. r = Inr a \<longrightarrow> a = stored_view kv okey dec {k} s k)) \<and>
     (\<forall>x s w s'. length (te_bytes x) < 2 ^ 63 \<longrightarrow> kt_put vt x s = (w, s') \<longrightarrow>
        (\<exists>raw. dec (te_key x) raw = Inr x \<and> kv s' = (kv s)(okey (te_key x) \<mapsto> raw)) \<or> w \<noteq> Inr () \<and> kv s' = kv s) \<and>
     (\<forall>k s w s'. kt_remove vt k s = (w, s') \<longrightarrow> kv s' = (kv s)(okey k := None) \<or> w \<noteq> Inr () \<and> kv s' = kv s) \<and>
     (\<forall>k raw e. dec k raw = Inr e \<longrightarrow> te_key e = k)"

lemma stored_view_same: "kv s' = kv s \<Longrightarrow> stored_view kv okey dec used s' = stored_view kv okey dec used s"
  by (simp add: stored_view_def fun_eq_iff)

lemma stored_view_upd:
  assumes "inj_on okey used" "k \<in> used" "kv s' = (kv s)(okey k := v)"
  shows "stored_view kv okey dec used s' = (stored_view kv okey dec used s)
    (k := (case v of None \<Rightarrow> None | Some raw \<Rightarrow> (case dec k raw of Inr e \<Rightarrow> Some e | Inl _ \<Rightarrow> None)))"
  using assms by (auto simp: stored_view_def fun_eq_iff inj_on_eq_iff)

lemma stored_coherent:
  assumes "stores_entries vt kv okey dec" "inj_on okey used"
  shows "coherent_tier vt (stored_view kv okey dec used) (\<lambda>_. True) used (\<lambda>_. True)"
proof
  let ?view = "stored_view kv okey dec used"
  fix s s' k and e :: io_error and r x w and u :: unit
  have get: "?view s' = ?view s \<and> (\<forall>a. q = Inr a \<longrightarrow> a = ?view s k)" if "k \<in> used" "kt_get vt k s = (q, s')" for q
    using assms(1) that unfolding stores_entries_def by (auto simp: stored_view_def fun_eq_iff)
  show "?view s' \<subseteq>\<^sub>m ?view s \<and> True" if "k \<in> used" "kt_get vt k s = (Inl e, s')" using get [OF that] by simp
  show "(r = None \<or> r = ?view s k) \<and> ?view s' \<subseteq>\<^sub>m ?view s \<and> True" if "k \<in> used" "kt_get vt k s = (Inr r, s')"
    using get [OF that] by simp
  have put: "?view s' = (?view s)(te_key x \<mapsto> x) \<or> q \<noteq> Inr () \<and> ?view s' = ?view s"
    if x: "te_key x \<in> used" "length (te_bytes x) < 2 ^ 63" "kt_put vt x s = (q, s')" for q
  proof -
    have "(\<exists>raw. dec (te_key x) raw = Inr x \<and> kv s' = (kv s)(okey (te_key x) \<mapsto> raw)) \<or> q \<noteq> Inr () \<and> kv s' = kv s"
      using assms(1) x(2,3) unfolding stores_entries_def by blast
    then show ?thesis
      using stored_view_upd [OF assms(2) x(1), of kv s' s _ dec] stored_view_same [of kv s' s okey dec used] by fastforce
  qed
  show "True \<and> (\<forall>k. k \<noteq> te_key x \<longrightarrow> ?view s' k \<in> {None, ?view s k}) \<and> ?view s' (te_key x) \<in> {None, ?view s (te_key x), Some x}"
    if "te_key x \<in> used" "length (te_bytes x) < 2 ^ 63" "kt_put vt x s = (w, s')"
    using put [OF that] by fastforce
  show "?view s' (te_key x) \<in> {None, Some x}" if "te_key x \<in> used" "length (te_bytes x) < 2 ^ 63" "kt_put vt x s = (Inr u, s')"
    using put [OF that] by fastforce
  have rm: "?view s' = (?view s)(k := None) \<or> q \<noteq> Inr () \<and> ?view s' = ?view s"
    if k: "k \<in> used" "kt_remove vt k s = (q, s')" for q
  proof -
    have "kv s' = (kv s)(okey k := None) \<or> q \<noteq> Inr () \<and> kv s' = kv s" using assms(1) k(2) unfolding stores_entries_def by blast
    then show ?thesis
      using stored_view_upd [OF assms(2) k(1), of kv s' s None dec] stored_view_same [of kv s' s okey dec used] by auto
  qed
  show "?view s' \<subseteq>\<^sub>m ?view s \<and> True" if "k \<in> used" "kt_remove vt k s = (w, s')"
    using rm [OF that] by (auto simp: map_le_def split: if_splits)
  show "?view s' k = None" if "k \<in> used" "kt_remove vt k s = (Inr u, s')" using rm [OF that] by auto
  show "te_key x = k" if "?view s k = Some x"
    using that assms(1) unfolding stores_entries_def stored_view_def by (auto split: if_splits option.splits sum.splits)
qed

end
