(* ===== verification/SdkTier.thy ===== *)
theory SdkTier
  imports KeyedStore "HOL-Library.Sublist"
begin

text \<open>
  Tiers over a native key/value SDK, \<open>src/sdk_tier.rs\<close>: the checksummed frame of an entry, and the
  tier with its namespace. The SDK is external; \<open>sdk_lawful\<close> states what a key/value store promises. Over a
  lawful SDK the tier keeps the contract of the engine's tiers, and tiers of different
  namespaces never touch each other's entries.
\<close>

section \<open>Frames\<close>

definition sdk_frame_magic :: "u8 list" where
  "sdk_frame_magic = as_bytes ''RIVSDK1'' @ [10]"

definition sdk_encode_entry :: "crypto \<Rightarrow> kv_tier_entry \<Rightarrow> u8 list io_result" where
  "sdk_encode_entry cr e =
     (if te_bytes e = [] then Inl (IoError InvalidInput ''native SDK KV payload must not be empty'')
      else Inr (sdk_frame_magic @ u64_le (te_expires_at e) @ [bool_byte (te_pinned e)] @ u64_le (len64 (te_bytes e)) @
                sha256 cr (te_bytes e) @ te_bytes e))"

definition sdk_read_u64 :: "u8 list \<Rightarrow> nat \<Rightarrow> (u64 \<times> nat) io_result" where
  "sdk_read_u64 bytes cursor =
     (let stop = usize_sat_add cursor 8 in
      if cursor \<le> stop \<and> stop \<le> length bytes
      then Inr (le_word (take (stop - cursor) (drop cursor bytes)), stop)
      else Inl (IoError UnexpectedEof ''native SDK frame is truncated''))"

definition sdk_decode_entry :: "crypto \<Rightarrow> kv_block_key \<Rightarrow> u8 list \<Rightarrow> nat \<Rightarrow> kv_tier_entry io_result" where
  "sdk_decode_entry cr k bytes max_bytes =
     (if length bytes < 8 + 8 + 1 + 8 + 32 \<or> length bytes > max_bytes \<or> take 8 bytes \<noteq> sdk_frame_magic
      then Inl (IoError InvalidData ''invalid native SDK RivetCache frame'')
      else result_bind (sdk_read_u64 bytes 8) (\<lambda>(expires_at, cursor).
        if bytes ! cursor \<noteq> 0 \<and> bytes ! cursor \<noteq> 1 then Inl (IoError InvalidData ''invalid native SDK pin flag'')
        else result_bind (sdk_read_u64 bytes (cursor + 1)) (\<lambda>(payload_len, cursor2).
          if cursor2 + 32 > length bytes then Inl (IoError UnexpectedEof ''truncated SDK checksum'')
          else (let checksum = take 32 (drop cursor2 bytes); cursor3 = cursor2 + 32 in
            if unat payload_len = 0 \<or> length bytes - cursor3 \<noteq> unat payload_len
            then Inl (IoError InvalidData ''native SDK payload length mismatch'')
            else (let payload = drop cursor3 bytes in
              if sha256 cr payload \<noteq> checksum then Inl (IoError InvalidData ''native SDK payload checksum mismatch'')
              else result_bind (kv_block_new k payload) (\<lambda>block.
                Inr \<lparr> te_block = block, te_expires_at = expires_at, te_pinned = (bytes ! cursor = 1) \<rparr>))))))"

section \<open>The tier\<close>

record 's native_kv_sdk =
  sdk_name :: string
  sdk_get :: "string \<Rightarrow> nat \<Rightarrow> 's \<Rightarrow> u8 list option io_result \<times> 's"
  sdk_put :: "string \<Rightarrow> u8 list \<Rightarrow> 's \<Rightarrow> unit io_result \<times> 's"
  sdk_remove :: "string \<Rightarrow> 's \<Rightarrow> unit io_result \<times> 's"
  sdk_clear_prefix :: "string \<Rightarrow> 's \<Rightarrow> unit io_result \<times> 's"
  sdk_health :: "'s \<Rightarrow> unit io_result \<times> 's"

record sdk_tier_config =
  sdk_tier_name :: string
  sdk_namespace :: string
  sdk_max_value_bytes :: nat

definition sdk_id_char :: "char \<Rightarrow> bool" where
  "sdk_id_char c = (ascii_alphanumeric c \<or> c \<in> set ''-_.'')"

definition validate_identifier :: "string \<Rightarrow> string \<Rightarrow> unit io_result" where
  "validate_identifier value what =
     (if value = [] \<or> length value > 128 \<or> \<not> list_all sdk_id_char value
      then Inl (IoError InvalidInput (''invalid native SDK '' @ what)) else Inr ())"

definition sdk_tier_new ::
  "'s native_kv_sdk \<Rightarrow> string \<Rightarrow> string \<Rightarrow> nat \<Rightarrow> 's \<Rightarrow> sdk_tier_config io_result \<times> 's" where
  "sdk_tier_new sdk name namespace max_value_bytes s =
     check_then (validate_identifier name ''tier name'') s (\<lambda>_.
     check_then (validate_identifier namespace ''namespace'') s (\<lambda>_.
       if max_value_bytes = 0 then (Inl (IoError InvalidInput ''native SDK value limit must be greater than zero''), s)
       else and_then (sdk_health sdk s) (\<lambda>_ s1.
         (Inr \<lparr> sdk_tier_name = name, sdk_namespace = namespace, sdk_max_value_bytes = max_value_bytes \<rparr>, s1))))"

definition sdk_prefix :: "sdk_tier_config \<Rightarrow> string" where
  "sdk_prefix cfg = ''rivet:'' @ sdk_namespace cfg @ '':''"

definition object_key :: "crypto \<Rightarrow> sdk_tier_config \<Rightarrow> kv_block_key \<Rightarrow> string" where
  "object_key cr cfg k = ''rivet:'' @ sdk_namespace cfg @ '':'' @ cache_key cr k"

definition sdk_tier_get ::
  "crypto \<Rightarrow> 's native_kv_sdk \<Rightarrow> sdk_tier_config \<Rightarrow> kv_block_key \<Rightarrow> 's \<Rightarrow> kv_tier_entry option io_result \<times> 's" where
  "sdk_tier_get cr sdk cfg k s =
     and_then (sdk_get sdk (object_key cr cfg k) (sdk_max_value_bytes cfg) s) (\<lambda>r s1.
       case r of None \<Rightarrow> (Inr None, s1)
       | Some raw \<Rightarrow> (result_bind (sdk_decode_entry cr k raw (sdk_max_value_bytes cfg)) (\<lambda>e. Inr (Some e)), s1))"

definition sdk_tier_put :: "crypto \<Rightarrow> 's native_kv_sdk \<Rightarrow> sdk_tier_config \<Rightarrow> kv_tier_entry \<Rightarrow> 's \<Rightarrow> unit io_result \<times> 's" where
  "sdk_tier_put cr sdk cfg e s =
     check_then (sdk_encode_entry cr e) s (\<lambda>encoded.
       if length encoded > sdk_max_value_bytes cfg
       then (Inl (IoError InvalidInput ''native SDK KV entry exceeds configured limit''), s)
       else sdk_put sdk (object_key cr cfg (te_key e)) encoded s)"

definition sdk_tier_remove :: "crypto \<Rightarrow> 's native_kv_sdk \<Rightarrow> sdk_tier_config \<Rightarrow> kv_block_key \<Rightarrow> 's \<Rightarrow> unit io_result \<times> 's" where
  "sdk_tier_remove cr sdk cfg k s = sdk_remove sdk (object_key cr cfg k) s"

definition sdk_tier_clear :: "'s native_kv_sdk \<Rightarrow> sdk_tier_config \<Rightarrow> 's \<Rightarrow> unit io_result \<times> 's" where
  "sdk_tier_clear sdk cfg s = sdk_clear_prefix sdk (sdk_prefix cfg) s"

definition sdk_vt :: "crypto \<Rightarrow> 's native_kv_sdk \<Rightarrow> sdk_tier_config \<Rightarrow> 's kv_tier" where
  "sdk_vt cr sdk cfg = \<lparr> kt_name = sdk_tier_name cfg, kt_get = sdk_tier_get cr sdk cfg, kt_put = sdk_tier_put cr sdk cfg,
     kt_remove = sdk_tier_remove cr sdk cfg, kt_clear = sdk_tier_clear sdk cfg, kt_health = sdk_health sdk \<rparr>"

section \<open>The frame reads back\<close>

lemma sdk_magic_length [simp]: "length sdk_frame_magic = 8"
  by (simp add: sdk_frame_magic_def)

lemma sdk_read_u64_at:
  "cursor + 8 \<le> length bs \<Longrightarrow> cursor < 1000 \<Longrightarrow> sdk_read_u64 bs cursor = Inr (le_word (take 8 (drop cursor bs)), cursor + 8)"
  by (simp add: sdk_read_u64_def usize_sat_add_def Let_def usize_max_def)

lemma sdk_decode_eq:
  assumes "length bs < 2 ^ 64"
  shows "sdk_decode_entry cr k bs max_bytes = Inr e \<longleftrightarrow>
    57 < length bs \<and> length bs \<le> max_bytes \<and> take 8 bs = sdk_frame_magic \<and> bs ! 16 \<in> {0, 1} \<and>
    take 8 (drop 17 bs) = u64_le (len64 (drop 57 bs)) \<and> take 32 (drop 25 bs) = sha256 cr (drop 57 bs) \<and>
    e = \<lparr> te_block = \<lparr> blk_key = k, blk_bytes = drop 57 bs \<rparr>, te_expires_at = le_word (take 8 (drop 8 bs)), te_pinned = (bs ! 16 = 1) \<rparr>"
proof (cases "57 \<le> length bs")
  case True
  then have c: "sdk_read_u64 bs 8 = Inr (le_word (take 8 (drop 8 bs)), 16)" "sdk_read_u64 bs 17 = Inr (le_word (take 8 (drop 17 bs)), 25)"
    by (simp_all add: sdk_read_u64_at)
  let ?n = "le_word (take 8 (drop 17 bs)) :: u64"
  have "length bs - 57 = unat ?n \<longleftrightarrow> take 8 (drop 17 bs) = u64_le (len64 (drop 57 bs))"
  proof
    assume "length bs - 57 = unat ?n"
    then have "len64 (drop 57 bs) = ?n" by (simp add: len64_def)
    then show "take 8 (drop 17 bs) = u64_le (len64 (drop 57 bs))" using True by simp
  next
    assume "take 8 (drop 17 bs) = u64_le (len64 (drop 57 bs))"
    then have "?n = len64 (drop 57 bs)" by simp
    moreover have "unat (len64 (drop 57 bs)) = length (drop 57 bs)" using assms by (intro unat_len64) simp
    ultimately show "length bs - 57 = unat ?n" by simp
  qed
  with True show ?thesis
    by (auto simp: sdk_decode_entry_def c Let_def kv_block_new_def io_simps)
next
  case False
  then show ?thesis by (simp add: sdk_decode_entry_def)
qed

lemma sdk_encode_eq:
  "sdk_encode_entry cr e = Inr bs \<longleftrightarrow> te_bytes e \<noteq> [] \<and>
     bs = sdk_frame_magic @ u64_le (te_expires_at e) @ [bool_byte (te_pinned e)] @ u64_le (len64 (te_bytes e)) @
       sha256 cr (te_bytes e) @ te_bytes e"
  by (auto simp: sdk_encode_entry_def)

lemma sdk_decode_encode:
  assumes "crypto_ok cr" "sdk_encode_entry cr e = Inr bs" "length bs \<le> max_bytes" "length bs < 2 ^ 64"
  shows "sdk_decode_entry cr (te_key e) bs max_bytes = Inr e"
proof -
  have bs: "te_bytes e \<noteq> []" "bs = sdk_frame_magic @ u64_le (te_expires_at e) @ [bool_byte (te_pinned e)] @
      u64_le (len64 (te_bytes e)) @ sha256 cr (te_bytes e) @ te_bytes e"
    using assms(2) by (simp_all add: sdk_encode_eq)
  have sha: "length (sha256 cr (te_bytes e)) = 32" using assms(1) by (simp add: crypto_ok_def)
  have parts: "take 8 bs = sdk_frame_magic" "take 8 (drop 8 bs) = u64_le (te_expires_at e)" "bs ! 16 = bool_byte (te_pinned e)"
    "take 8 (drop 17 bs) = u64_le (len64 (te_bytes e))" "take 32 (drop 25 bs) = sha256 cr (te_bytes e)" "drop 57 bs = te_bytes e"
    using sha by (simp_all add: bs(2) nth_append)
  have "57 < length bs" using bs sha by simp
  then show ?thesis using parts assms(3)
    by (cases e, cases "te_block e") (auto simp: sdk_decode_eq [OF assms(4)] bool_byte_def)
qed

lemma sdk_encode_decode:
  assumes "sdk_decode_entry cr k bs max_bytes = Inr e" "length bs < 2 ^ 64"
  shows "te_key e = k \<and> sdk_encode_entry cr e = Inr bs"
proof -
  have d: "57 < length bs" "take 8 bs = sdk_frame_magic" "bs ! 16 \<in> {0, 1}"
    "take 8 (drop 17 bs) = u64_le (len64 (drop 57 bs))" "take 32 (drop 25 bs) = sha256 cr (drop 57 bs)"
    and e: "e = \<lparr> te_block = \<lparr> blk_key = k, blk_bytes = drop 57 bs \<rparr>, te_expires_at = le_word (take 8 (drop 8 bs)), te_pinned = (bs ! 16 = 1) \<rparr>"
    using assms(1) by (simp_all add: sdk_decode_eq [OF assms(2)])
  have "bs = take 8 bs @ take 8 (drop 8 bs) @ [bs ! 16] @ take 8 (drop 17 bs) @ take 32 (drop 25 bs) @ drop 57 bs"
  proof -
    have "drop 16 bs = bs ! 16 # drop 17 bs" using d(1) Cons_nth_drop_Suc [of 16 bs] by simp
    moreover have "drop 8 bs = take 8 (drop 8 bs) @ drop 16 bs" using append_take_drop_id [of 8 "drop 8 bs"] by (simp add: add.commute)
    moreover have "drop 17 bs = take 8 (drop 17 bs) @ drop 25 bs" using append_take_drop_id [of 8 "drop 17 bs"] by (simp add: add.commute)
    moreover have "drop 25 bs = take 32 (drop 25 bs) @ drop 57 bs" using append_take_drop_id [of 32 "drop 25 bs"] by (simp add: add.commute)
    ultimately show ?thesis by (metis append_Cons append_Nil append_take_drop_id)
  qed
  moreover have "bs ! 16 = bool_byte (bs ! 16 = 1)" using d(3) by (auto simp: bool_byte_def)
  moreover have "drop 57 bs \<noteq> []" "u64_le (le_word (take 8 (drop 8 bs))) = take 8 (drop 8 bs)" using d(1) by simp_all
  ultimately show ?thesis using d(2,4,5) by (simp add: sdk_encode_eq e)
qed

text \<open>C39:
  The SDK frame is exact. With a digest of the documented length, a frame within the limit decodes to
  the entry it was made from, and whatever bytes the store answers, an entry is
  decoded from them only when they are that entry's own frame, checksum included.
\<close>

theorem sdk_frame_roundtrip:
  assumes "crypto_ok cr" "length bs < 2 ^ 64" "length bs \<le> max_bytes"
  shows "(sdk_encode_entry cr e = Inr bs \<longrightarrow> sdk_decode_entry cr (te_key e) bs max_bytes = Inr e) \<and>
    (sdk_decode_entry cr k bs max_bytes = Inr d \<longrightarrow> te_key d = k \<and> sdk_encode_entry cr d = Inr bs)"
  using sdk_decode_encode [OF assms(1) _ assms(3,2)] sdk_encode_decode [OF _ assms(2)] by blast

lemma sdk_frame_roundtrip_witness:
  "\<exists>bs. sdk_encode_entry demo_crypto demo_tier_entry = Inr bs \<and> sdk_decode_entry demo_crypto demo_key bs 100 = Inr demo_tier_entry"
proof -
  obtain bs where bs: "sdk_encode_entry demo_crypto demo_tier_entry = Inr bs" by (simp add: sdk_encode_entry_def demo_tier_entry_def)
  then have "length bs = 59" using demo_crypto_ok by (auto simp: sdk_encode_eq crypto_ok_def demo_tier_entry_def)
  then have "sdk_decode_entry demo_crypto (te_key demo_tier_entry) bs 100 = Inr demo_tier_entry"
    using sdk_frame_roundtrip [OF demo_crypto_ok, of bs 100 demo_tier_entry demo_key undefined] bs by simp
  then show ?thesis using bs by (auto simp: demo_tier_entry_def)
qed

section \<open>Lawful stores\<close>

text \<open>
  A failed call may have been carried out or not. \<open>kv\<close> is what the store holds.
\<close>

definition sdk_lawful :: "'s native_kv_sdk \<Rightarrow> ('s \<Rightarrow> string \<Rightarrow> u8 list option) \<Rightarrow> bool" where
  "sdk_lawful sdk kv \<longleftrightarrow>
     (\<forall>key n s r s'. sdk_get sdk key n s = (r, s') \<longrightarrow> kv s' = kv s \<and> (\<forall>v. r = Inr v \<longrightarrow> v = kv s key)) \<and>
     (\<forall>key v s r s'. sdk_put sdk key v s = (r, s') \<longrightarrow>
        kv s' = (kv s)(key \<mapsto> v) \<or> r \<noteq> Inr () \<and> kv s' = kv s) \<and>
     (\<forall>key s r s'. sdk_remove sdk key s = (r, s') \<longrightarrow>
        kv s' = (kv s)(key := None) \<or> r \<noteq> Inr () \<and> kv s' = kv s) \<and>
     (\<forall>p s r s'. sdk_clear_prefix sdk p s = (r, s') \<longrightarrow>
        (\<forall>key. if prefix p key then kv s' key = None \<or> r \<noteq> Inr () \<and> kv s' key = kv s key else kv s' key = kv s key))"

lemma sdk_laws:
  assumes "sdk_lawful sdk kv"
  shows "sdk_get sdk key n s = (r, s') \<Longrightarrow> kv s' = kv s \<and> (\<forall>v. r = Inr v \<longrightarrow> v = kv s key)"
    "sdk_put sdk key v s = (w, s') \<Longrightarrow> kv s' = (kv s)(key \<mapsto> v) \<or> w \<noteq> Inr () \<and> kv s' = kv s"
    "sdk_remove sdk key s = (w, s') \<Longrightarrow> kv s' = (kv s)(key := None) \<or> w \<noteq> Inr () \<and> kv s' = kv s"
    "sdk_clear_prefix sdk p s = (w, s') \<Longrightarrow> \<not> prefix p key \<Longrightarrow> kv s' key = kv s key"
  using assms unfolding sdk_lawful_def by (blast, blast, blast, metis)

abbreviation sdk_view ::
  "crypto \<Rightarrow> sdk_tier_config \<Rightarrow> ('s \<Rightarrow> string \<Rightarrow> u8 list option) \<Rightarrow> kv_block_key set \<Rightarrow> 's \<Rightarrow> kv_block_key \<Rightarrow> kv_tier_entry option" where
  "sdk_view cr cfg kv \<equiv> stored_view kv (object_key cr cfg) (\<lambda>k raw. sdk_decode_entry cr k raw (sdk_max_value_bytes cfg))"

lemma object_key_inj: "inj_on (cache_key cr) used \<Longrightarrow> inj_on (object_key cr cfg) used"
  by (auto simp: object_key_def inj_on_def)

lemma sdk_put_cases:
  assumes "sdk_lawful sdk kv" "crypto_ok cr" "length (te_bytes x) < 2 ^ 63" "sdk_tier_put cr sdk cfg x s = (w, s')"
  shows "(\<exists>raw. sdk_decode_entry cr (te_key x) raw (sdk_max_value_bytes cfg) = Inr x \<and> kv s' = (kv s)(object_key cr cfg (te_key x) \<mapsto> raw)) \<or>
    w \<noteq> Inr () \<and> kv s' = kv s"
proof (cases "sdk_encode_entry cr x")
  case (Inl e)
  then show ?thesis using assms(4) by (auto simp: sdk_tier_put_def)
next
  case (Inr bs)
  then have "length bs = 57 + length (te_bytes x)" using assms(2) by (auto simp: sdk_encode_eq crypto_ok_def)
  then have small: "length bs < 2 ^ 64" using assms(3) by simp
  show ?thesis
  proof (cases "length bs > sdk_max_value_bytes cfg")
    case True
    then show ?thesis using assms(4) Inr by (auto simp: sdk_tier_put_def)
  next
    case False
    then have put: "sdk_put sdk (object_key cr cfg (te_key x)) bs s = (w, s')" using assms(4) Inr by (simp add: sdk_tier_put_def)
    have "sdk_decode_entry cr (te_key x) bs (sdk_max_value_bytes cfg) = Inr x"
      using sdk_decode_encode [OF assms(2) Inr _ small] False by simp
    with sdk_laws(2) [OF assms(1) put] show ?thesis by blast
  qed
qed

lemma sdk_stores_entries:
  assumes "sdk_lawful sdk kv" "crypto_ok cr"
  shows "stores_entries (sdk_vt cr sdk cfg) kv (object_key cr cfg) (\<lambda>k raw. sdk_decode_entry cr k raw (sdk_max_value_bytes cfg))"
  unfolding stores_entries_def
proof (intro conjI allI impI)
  fix k s r s' assume run: "kt_get (sdk_vt cr sdk cfg) k s = (r, s')"
  obtain a s1 where a: "sdk_get sdk (object_key cr cfg k) (sdk_max_value_bytes cfg) s = (a, s1)" by fastforce
  note law = sdk_laws(1) [OF assms(1) a]
  have s1: "s' = s1" using run a by (cases a) (auto simp: sdk_vt_def sdk_tier_get_def split: option.splits)
  then show "kv s' = kv s" using law by simp
  show "b = sdk_view cr cfg kv {k} s k" if "r = Inr b" for b
    using run a law that
    by (cases a) (auto simp: sdk_vt_def sdk_tier_get_def stored_view_def io_simps split: option.splits sum.splits)
next
  fix x s w s' assume "length (te_bytes x) < 2 ^ 63" "kt_put (sdk_vt cr sdk cfg) x s = (w, s')"
  then show "(\<exists>raw. sdk_decode_entry cr (te_key x) raw (sdk_max_value_bytes cfg) = Inr x \<and> kv s' = (kv s)(object_key cr cfg (te_key x) \<mapsto> raw)) \<or>
      w \<noteq> Inr () \<and> kv s' = kv s"
    using sdk_put_cases [OF assms] by (simp add: sdk_vt_def)
next
  fix k s w s' assume "kt_remove (sdk_vt cr sdk cfg) k s = (w, s')"
  then show "kv s' = (kv s)(object_key cr cfg k := None) \<or> w \<noteq> Inr () \<and> kv s' = kv s"
    using sdk_laws(3) [OF assms(1)] by (simp add: sdk_vt_def sdk_tier_remove_def)
next
  fix k raw e assume "sdk_decode_entry cr k raw (sdk_max_value_bytes cfg) = Inr e"
  then show "te_key e = k"
    by (auto simp: sdk_decode_entry_def Let_def io_simps kv_block_new_def split: if_splits prod.splits)
qed

text \<open>Over a lawful store the SDK tier is a tier like the others: it keeps the contract on which the engine's
  coherence rests, whatever calls fail and whatever the store held before.
\<close>

theorem sdk_tier_keeps_the_contract:
  assumes "sdk_lawful sdk kv" "crypto_ok cr" "inj_on (cache_key cr) used"
  shows "coherent_tier (sdk_vt cr sdk cfg) (sdk_view cr cfg kv used) (\<lambda>_. True) used (\<lambda>_. True)"
  by (rule stored_coherent [OF sdk_stores_entries [OF assms(1,2)] object_key_inj [OF assms(3)]])

section \<open>Namespaces\<close>

lemma sdk_tier_new_namespace:
  assumes "sdk_tier_new sdk n ns m s = (Inr cfg, s')"
  shows "sdk_namespace cfg = ns \<and> CHR '':'' \<notin> set ns"
proof -
  have "\<not> sdk_id_char CHR '':''" by (simp add: sdk_id_char_def ascii_alphanumeric_def)
  then show ?thesis using assms
    by (auto simp: sdk_tier_new_def check_then_eq_Inr validate_identifier_def and_then_eq_Inr list_all_iff split: if_splits)
qed

lemma namespace_of_key: "CHR '':'' \<notin> set ns \<Longrightarrow> CHR '':'' \<notin> set ns' \<Longrightarrow> ns @ '':'' @ a = ns' @ '':'' @ b \<Longrightarrow> ns = ns'"
proof -
  assume *: "CHR '':'' \<notin> set ns" "CHR '':'' \<notin> set ns'" "ns @ '':'' @ a = ns' @ '':'' @ b"
  have "takeWhile (\<lambda>c. c \<noteq> CHR '':'') (xs @ '':'' @ c) = xs" if "CHR '':'' \<notin> set xs" for xs c
    using that by (induction xs) auto
  with * show "ns = ns'" by metis
qed

lemma sdk_step_stays_home:
  assumes "sdk_lawful sdk kv" "tier_step (sdk_vt cr sdk cfg) c s = (a, s')" "\<not> prefix (sdk_prefix cfg) key"
  shows "kv s' key = kv s key"
proof -
  have own: "key \<noteq> object_key cr cfg k" for k
    using assms(3) by (auto simp: sdk_prefix_def object_key_def)
  show ?thesis
  proof (cases c)
    case (GetBlock k)
    obtain r s1 where "sdk_get sdk (object_key cr cfg k) (sdk_max_value_bytes cfg) s = (r, s1)" by fastforce
    moreover from this have "s' = s1" using assms(2) GetBlock
      by (cases r) (auto simp: sdk_vt_def sdk_tier_get_def split: option.splits)
    ultimately show ?thesis using sdk_laws(1) [OF assms(1)] by metis
  next
    case (PutEntry e)
    have "s' = s \<or> (\<exists>v w. sdk_put sdk (object_key cr cfg (te_key e)) v s = (w, s'))"
      using assms(2) PutEntry
      by (cases "sdk_encode_entry cr e") (auto simp: sdk_vt_def sdk_tier_put_def apfst_def map_prod_def split: if_splits prod.splits)
    then show ?thesis using sdk_laws(2) [OF assms(1)] own by fastforce
  next
    case (RemoveBlock k)
    then obtain w where "sdk_remove sdk (object_key cr cfg k) s = (w, s')"
      using assms(2) by (auto simp: sdk_vt_def sdk_tier_remove_def apfst_def map_prod_def split: prod.splits)
    from sdk_laws(3) [OF assms(1) this] own show ?thesis by auto
  next
    case ClearTier
    then obtain w where "sdk_clear_prefix sdk (sdk_prefix cfg) s = (w, s')"
      using assms(2) by (auto simp: sdk_vt_def sdk_tier_clear_def apfst_def map_prod_def split: prod.splits)
    from sdk_laws(4) [OF assms(1) this assms(3)] show ?thesis .
  qed
qed

lemma sdk_run_stays_home:
  assumes "sdk_lawful sdk kv" "run_tier (tier_step (sdk_vt cr sdk cfg)) cs s = (answers, s')" "\<not> prefix (sdk_prefix cfg) key"
  shows "kv s' key = kv s key"
  by (rule run_tier_keeps [OF _ assms(2), where f = "\<lambda>s. kv s key"]) (rule sdk_step_stays_home [OF assms(1) _ assms(3)])

text \<open>C38:
  Namespaces are isolated. Tiers constructed with different namespaces on one lawful store never change
  what the other holds, whatever requests are made, clearing included.
\<close>

theorem sdk_namespaces_are_isolated:
  assumes "sdk_lawful sdk kv" "sdk_tier_new sdk n1 ns1 m1 t1 = (Inr cfg1, t1')" "sdk_tier_new sdk n2 ns2 m2 t2 = (Inr cfg2, t2')"
    "ns1 \<noteq> ns2" "run_tier (tier_step (sdk_vt cr sdk cfg1)) calls s = (answers, s')"
  shows "sdk_view cr cfg2 kv used s' = sdk_view cr cfg2 kv used s"
proof -
  have ns: "sdk_namespace cfg1 = ns1" "CHR '':'' \<notin> set ns1" "sdk_namespace cfg2 = ns2" "CHR '':'' \<notin> set ns2"
    using sdk_tier_new_namespace [OF assms(2)] sdk_tier_new_namespace [OF assms(3)] by auto
  have "\<not> prefix (sdk_prefix cfg1) (object_key cr cfg2 k)" for k
    using namespace_of_key [OF ns(4,2)] assms(4) by (auto simp: sdk_prefix_def object_key_def ns prefix_def)
  then have "kv s' (object_key cr cfg2 k) = kv s (object_key cr cfg2 k)" for k
    using sdk_run_stays_home [OF assms(1,5)] by blast
  then show ?thesis by (simp add: stored_view_def fun_eq_iff)
qed

definition map_sdk :: "(string \<Rightarrow> u8 list option) native_kv_sdk" where
  "map_sdk = \<lparr> sdk_name = ''map'', sdk_get = (\<lambda>key n s. (Inr (s key), s)), sdk_put = (\<lambda>key v s. (Inr (), s(key \<mapsto> v))),
     sdk_remove = (\<lambda>key s. (Inr (), s(key := None))),
     sdk_clear_prefix = (\<lambda>p s. (Inr (), \<lambda>key. if prefix p key then None else s key)), sdk_health = default_health \<rparr>"

lemma map_sdk_lawful: "sdk_lawful map_sdk (\<lambda>s. s)"
  by (auto simp: sdk_lawful_def map_sdk_def)

lemma sdk_tier_keeps_the_contract_witness:
  "coherent_tier (sdk_vt demo_crypto map_sdk \<lparr> sdk_tier_name = ''m'', sdk_namespace = ''n'', sdk_max_value_bytes = 100 \<rparr>)
     (sdk_view demo_crypto \<lparr> sdk_tier_name = ''m'', sdk_namespace = ''n'', sdk_max_value_bytes = 100 \<rparr> (\<lambda>s. s) {demo_key})
     (\<lambda>_. True) {demo_key} (\<lambda>_. True)"
  by (rule sdk_tier_keeps_the_contract [OF map_sdk_lawful demo_crypto_ok]) simp

lemma sdk_namespaces_are_isolated_witness:
  "sdk_view demo_crypto \<lparr> sdk_tier_name = ''y'', sdk_namespace = ''ab'', sdk_max_value_bytes = 100 \<rparr> (\<lambda>s. s) {demo_key}
     (snd (run_tier (tier_step (sdk_vt demo_crypto map_sdk \<lparr> sdk_tier_name = ''x'', sdk_namespace = ''a'', sdk_max_value_bytes = 100 \<rparr>))
        [PutEntry demo_tier_entry, ClearTier] Map.empty)) =
   sdk_view demo_crypto \<lparr> sdk_tier_name = ''y'', sdk_namespace = ''ab'', sdk_max_value_bytes = 100 \<rparr> (\<lambda>s. s) {demo_key} Map.empty"
proof -
  have new: "sdk_tier_new map_sdk ''x'' ''a'' 100 Map.empty =
      (Inr \<lparr> sdk_tier_name = ''x'', sdk_namespace = ''a'', sdk_max_value_bytes = 100 \<rparr>, Map.empty)"
    "sdk_tier_new map_sdk ''y'' ''ab'' 100 Map.empty =
      (Inr \<lparr> sdk_tier_name = ''y'', sdk_namespace = ''ab'', sdk_max_value_bytes = 100 \<rparr>, Map.empty)"
    by (simp_all add: sdk_tier_new_def validate_identifier_def sdk_id_char_def ascii_alphanumeric_def map_sdk_def default_health_def)
  show ?thesis by (rule sdk_namespaces_are_isolated [OF map_sdk_lawful new, OF _ surjective_pairing]) simp
qed

end
