(* ===== verification/Resp.thy ===== *)
theory Resp
  imports Kv "HOL-Library.Sublist"
begin

text \<open>
  The Redis wire protocol of \<open>src/connectors.rs\<close>: commands are written as arrays of bulk strings,
  replies are read back with limits on their depth and size. What is read back from an encoded value is that
  value, a command cannot be mistaken for another, and no reply exceeds its limits.
\<close>

section \<open>Values\<close>

datatype resp_value =
    RespSimple string
  | RespError string
  | RespInteger int
  | RespBulk "u8 list option"
  | RespArray "resp_value list option"

definition crlf_bytes :: "u8 list" where
  "crlf_bytes = [13, 10]"

definition invalid_data :: "string \<Rightarrow> io_error" where
  "invalid_data msg = IoError InvalidData msg"

section \<open>Reading\<close>

text \<open>
  A reader is the bytes still to come. Reading past them fails with the error \<open>fin\<close> of the stream, or finds its end.
\<close>

definition read_n :: "io_error option \<Rightarrow> nat \<Rightarrow> u8 list \<Rightarrow> (u8 list \<times> u8 list) io_result" where
  "read_n fin n bs =
     (if n \<le> length bs then Inr (take n bs, drop n bs)
      else Inl (case fin of Some e \<Rightarrow> e | None \<Rightarrow> IoError UnexpectedEof ''failed to fill whole buffer''))"

text \<open>\<open>read_until\<close> a newline; the line keeps its end.\<close>

fun line_of :: "u8 list \<Rightarrow> u8 list \<times> u8 list" where
  "line_of [] = ([], [])"
| "line_of (b # bs) = (if b = 10 then ([b], bs) else (case line_of bs of (l, rest) \<Rightarrow> (b # l, rest)))"

definition ends_crlf :: "u8 list \<Rightarrow> bool" where
  "ends_crlf l \<longleftrightarrow> length l \<ge> 2 \<and> drop (length l - 2) l = crlf_bytes"

definition read_crlf_line :: "string \<Rightarrow> string \<Rightarrow> io_error option \<Rightarrow> nat \<Rightarrow> u8 list \<Rightarrow> (string \<times> u8 list) io_result" where
  "read_crlf_line bad not_text fin max_bytes bs =
     (case line_of bs of (l, rest) \<Rightarrow>
        if (l = [] \<or> last l \<noteq> 10) \<and> fin \<noteq> None then Inl (the fin)
        else if l = [] \<or> length l > max_bytes \<or> \<not> ends_crlf l then Inl (invalid_data bad)
        else (let text = take (length l - 2) l in
              if utf8_valid text then Inr (from_bytes text, rest) else Inl (invalid_data not_text)))"

definition read_resp_line :: "io_error option \<Rightarrow> nat \<Rightarrow> u8 list \<Rightarrow> (string \<times> u8 list) io_result" where
  "read_resp_line = read_crlf_line ''invalid RESP line'' ''RESP line is not UTF-8''"

definition expect_crlf :: "io_error option \<Rightarrow> u8 list \<Rightarrow> u8 list io_result" where
  "expect_crlf fin bs =
     result_bind (read_n fin 2 bs) (\<lambda>(ending, rest).
       if ending \<noteq> crlf_bytes then Inl (invalid_data ''RESP bulk value missing CRLF'') else Inr rest)"

text \<open>\<open>str::eq_ignore_ascii_case\<close>.\<close>

definition ascii_lower :: "char \<Rightarrow> char" where
  "ascii_lower c = (let b = of_char c :: nat in if 65 \<le> b \<and> b \<le> 90 then char_of (b + 32) else c)"

definition eq_ignore_ascii_case :: "string \<Rightarrow> string \<Rightarrow> bool" where
  "eq_ignore_ascii_case s t \<longleftrightarrow> map ascii_lower s = map ascii_lower t"

text \<open>\<open>str::parse::<i64>\<close>: an optional sign, decimal digits, no overflow.\<close>

definition parse_i64 :: "string \<Rightarrow> int option" where
  "parse_i64 s =
     (let (neg, ds) = (case s of c # cs \<Rightarrow> if c = CHR ''-'' then (True, cs) else if c = CHR ''+'' then (False, cs) else (False, s)
                       | [] \<Rightarrow> (False, []));
          v = (if neg then - digits_value ds else digits_value ds) in
      if ds = [] \<or> \<not> list_all decimal_digit ds \<or> v < - (2 ^ 63) \<or> v \<ge> 2 ^ 63 then None else Some v)"

text \<open>A bulk string after its type byte, and the length of an array.\<close>

definition read_bulk :: "io_error option \<Rightarrow> nat \<Rightarrow> u8 list \<Rightarrow> (resp_value \<times> u8 list) io_result" where
  "read_bulk fin max_bytes bs =
     result_bind (read_resp_line fin 64 bs) (\<lambda>(line, rest).
       case parse_i64 line of
         None \<Rightarrow> Inl (invalid_data ''invalid RESP bulk length'')
       | Some length1 \<Rightarrow>
           if length1 = - 1 then Inr (RespBulk None, rest)
           else if length1 < 0 then Inl (invalid_data ''negative RESP bulk length'')
           else if length1 > int max_bytes then Inl (IoError InvalidData ''RESP bulk value exceeds limit'')
           else result_bind (read_n fin (nat length1) rest) (\<lambda>(bytes, rest1).
             result_bind (expect_crlf fin rest1) (\<lambda>rest2. Inr (RespBulk (Some bytes), rest2))))"

definition read_count :: "io_error option \<Rightarrow> u8 list \<Rightarrow> (nat option \<times> u8 list) io_result" where
  "read_count fin bs =
     result_bind (read_resp_line fin 64 bs) (\<lambda>(line, rest).
       case parse_i64 line of
         None \<Rightarrow> Inl (invalid_data ''invalid RESP array length'')
       | Some count1 \<Rightarrow>
           if count1 = - 1 then Inr (None, rest)
           else if count1 < 0 then Inl (invalid_data ''negative RESP array length'')
           else if count1 > 4096 then Inl (invalid_data ''RESP array exceeds element limit'')
           else Inr (Some (nat count1), rest))"

function read_resp :: "io_error option \<Rightarrow> nat \<Rightarrow> nat \<Rightarrow> u8 list \<Rightarrow> (resp_value \<times> u8 list) io_result"
  and read_values :: "io_error option \<Rightarrow> nat \<Rightarrow> nat \<Rightarrow> nat \<Rightarrow> u8 list \<Rightarrow> (resp_value list \<times> u8 list) io_result" where
  "read_resp fin max_bytes depth bs =
     (if depth > 8 then Inl (invalid_data ''RESP nesting exceeds limit'')
      else (case read_n fin 1 bs of
          Inl e \<Rightarrow> Inl e
        | Inr (prefix1, rest) \<Rightarrow>
            if hd prefix1 = 43 then result_bind (read_resp_line fin 4096 rest) (\<lambda>(line, rest1). Inr (RespSimple line, rest1))
            else if hd prefix1 = 45 then result_bind (read_resp_line fin 8192 rest) (\<lambda>(line, rest1). Inr (RespError line, rest1))
            else if hd prefix1 = 58 then result_bind (read_resp_line fin 64 rest) (\<lambda>(line, rest1).
              case parse_i64 line of None \<Rightarrow> Inl (invalid_data ''invalid RESP integer'') | Some v \<Rightarrow> Inr (RespInteger v, rest1))
            else if hd prefix1 = 36 then read_bulk fin max_bytes rest
            else if hd prefix1 = 42 then
              (case read_count fin rest of
                 Inl e \<Rightarrow> Inl e
               | Inr (None, rest1) \<Rightarrow> Inr (RespArray None, rest1)
               | Inr (Some n, rest1) \<Rightarrow>
                   (case read_values fin max_bytes (depth + 1) n rest1 of
                      Inl e \<Rightarrow> Inl e
                    | Inr (values, rest2) \<Rightarrow> Inr (RespArray (Some values), rest2)))
            else Inl (invalid_data ''unsupported RESP type'')))"
| "read_values fin max_bytes depth n bs =
     (if n = 0 then Inr ([], bs)
      else (case read_resp fin max_bytes depth bs of
          Inl e \<Rightarrow> Inl e
        | Inr (v, rest) \<Rightarrow>
            (case read_values fin max_bytes depth (n - 1) rest of
               Inl e \<Rightarrow> Inl e
             | Inr (vs, rest1) \<Rightarrow> Inr (v # vs, rest1))))"
  by pat_completeness auto
termination
  by (relation "measures [\<lambda>x. case x of Inl (_, _, d, _) \<Rightarrow> 10 - d | Inr (_, _, d, _, _) \<Rightarrow> 10 - d,
        \<lambda>x. case x of Inl _ \<Rightarrow> 0 | Inr (_, _, _, n, _) \<Rightarrow> n]") auto

declare read_resp.simps [simp del] read_values.simps [simp del]

section \<open>Writing\<close>

definition bulk_bytes :: "u8 list \<Rightarrow> u8 list" where
  "bulk_bytes a = as_bytes (CHR ''$'' # show_nat (length a)) @ crlf_bytes @ a @ crlf_bytes"

definition command_bytes :: "u8 list list \<Rightarrow> u8 list" where
  "command_bytes arguments = as_bytes (CHR ''*'' # show_nat (length arguments)) @ crlf_bytes @ concat (map bulk_bytes arguments)"

text \<open>The reference encoding of a reply.\<close>

fun encode_resp :: "resp_value \<Rightarrow> u8 list" where
  "encode_resp (RespSimple s) = 43 # as_bytes s @ crlf_bytes"
| "encode_resp (RespError s) = 45 # as_bytes s @ crlf_bytes"
| "encode_resp (RespInteger i) = 58 # as_bytes (show_int i) @ crlf_bytes"
| "encode_resp (RespBulk None) = as_bytes ''$-1'' @ crlf_bytes"
| "encode_resp (RespBulk (Some b)) = bulk_bytes b"
| "encode_resp (RespArray None) = as_bytes ''*-1'' @ crlf_bytes"
| "encode_resp (RespArray (Some vs)) = as_bytes (CHR ''*'' # show_nat (length vs)) @ crlf_bytes @ concat (map encode_resp vs)"

section \<open>Reading back\<close>

lemma line_of_append: "10 \<notin> set l \<Longrightarrow> line_of (l @ crlf_bytes @ rest) = (l @ crlf_bytes, rest)"
  by (induction l) (auto simp: crlf_bytes_def)

lemma read_crlf_line_append:
  assumes "10 \<notin> set l" "utf8_valid l" "length l + 2 \<le> max_bytes"
  shows "read_crlf_line bad not_text fin max_bytes (l @ crlf_bytes @ rest) = Inr (from_bytes l, rest)"
  using assms by (simp add: read_crlf_line_def line_of_append ends_crlf_def) (simp add: crlf_bytes_def)

lemma show_nat_length: "n < 10 ^ k \<Longrightarrow> 0 < k \<Longrightarrow> length (show_nat n) \<le> k"
proof (induction k arbitrary: n)
  case (Suc k)
  show ?case
  proof (cases "n < 10")
    case True
    then show ?thesis by (subst show_nat.simps) simp
  next
    case False
    then have "n div 10 < 10 ^ k" "0 < k" using Suc.prems by (auto simp: less_mult_imp_div_less intro: gr0I)
    then show ?thesis using Suc.IH [of "n div 10"] False by (subst show_nat.simps) simp
  qed
qed simp

lemma digit_not_sign: "decimal_digit c \<Longrightarrow> c \<noteq> CHR ''-'' \<and> c \<noteq> CHR ''+''"
  by (auto simp: decimal_digit_def)

lemma parse_show_int:
  assumes "- (2 ^ 63) \<le> i" "i < 2 ^ 63"
  shows "parse_i64 (show_int i) = Some i"
proof (cases "i < 0")
  case True
  have "list_all decimal_digit (show_nat (nat (- i)))" "show_nat (nat (- i)) \<noteq> []" "digits_value (show_nat (nat (- i))) = - i"
    using show_nat_digits [of "nat (- i)"] True by auto
  then show ?thesis using assms True by (simp add: parse_i64_def show_int_def)
next
  case False
  have d: "list_all decimal_digit (show_nat (nat i))" "digits_value (show_nat (nat i)) = i"
    using show_nat_digits [of "nat i"] False by auto
  obtain c cs where c: "show_nat (nat i) = c # cs" using show_nat_digits [of "nat i"] by (cases "show_nat (nat i)") auto
  then have "c \<noteq> CHR ''-'' \<and> c \<noteq> CHR ''+''" using d(1) digit_not_sign by simp
  then show ?thesis using assms False d c by (simp add: parse_i64_def show_int_def)
qed

lemma ascii_valid: "\<forall>b \<in> set bs. unat b < 128 \<Longrightarrow> utf8_valid bs"
  unfolding utf8_valid_def by (induction bs) (auto simp: utf8_lead_def Let_def)

definition number_line :: "string \<Rightarrow> bool" where
  "number_line ds \<longleftrightarrow> list_all (\<lambda>c. decimal_digit c \<or> c = CHR ''-'') ds"

lemma number_line_text: "number_line ds \<Longrightarrow> 10 \<notin> set (as_bytes ds) \<and> utf8_valid (as_bytes ds)"
proof -
  assume n: "number_line ds"
  have "unat (of_nat (of_char c) :: u8) < 128 \<and> unat (of_nat (of_char c) :: u8) \<noteq> 10" if "c \<in> set ds" for c
    using n that by (auto simp: number_line_def list_all_iff decimal_digit_def unat_of_nat Let_def)
  then have *: "unat b < 128 \<and> unat b \<noteq> 10" if "b \<in> set (as_bytes ds)" for b using that by (auto simp: as_bytes_def)
  moreover have "10 \<notin> set (as_bytes ds)" using * [of 10] by auto
  ultimately show ?thesis using ascii_valid [of "as_bytes ds"] by blast
qed

lemma show_nat_line: "number_line (show_nat n)"
  using show_nat_digits [of n] by (auto simp: number_line_def list_all_iff)

lemma show_int_line: "number_line (show_int i)"
  using show_nat_line by (auto simp: show_int_def number_line_def)

lemma read_number_line:
  assumes "number_line ds" "length ds + 2 \<le> max_bytes"
  shows "read_resp_line fin max_bytes (as_bytes ds @ crlf_bytes @ rest) = Inr (ds, rest)"
  using read_crlf_line_append [of "as_bytes ds" max_bytes] number_line_text [OF assms(1)] assms(2)
  by (simp add: read_resp_line_def)

lemma show_int_nat [simp]: "show_int (int n) = show_nat n"
  by (simp add: show_int_def)

lemma read_n_append [simp]: "length xs = n \<Longrightarrow> read_n fin n (xs @ ys) = Inr (xs, ys)"
  by (simp add: read_n_def)

lemma read_n_one [simp]: "read_n fin (Suc 0) (b # ys) = Inr ([b], ys)"
  by (simp add: read_n_def)

lemma small_number: "n < 2 ^ 63 \<Longrightarrow> length (show_nat n) \<le> 19"
  using show_nat_length [of n 19] by simp

lemma expect_crlf_append: "expect_crlf fin (crlf_bytes @ rest) = Inr rest"
  by (simp add: expect_crlf_def io_simps crlf_bytes_def read_n_def)

lemma read_bulk_append:
  assumes "length b < 2 ^ 63" "length b \<le> max_bytes"
  shows "read_bulk fin max_bytes (as_bytes (show_nat (length b)) @ crlf_bytes @ b @ crlf_bytes @ rest) = Inr (RespBulk (Some b), rest)"
proof -
  have "parse_i64 (show_nat (length b)) = Some (int (length b))" using parse_show_int [of "int (length b)"] assms(1) by simp
  then show ?thesis using assms small_number [of "length b"]
    by (simp add: read_bulk_def read_number_line [OF show_nat_line] expect_crlf_append io_simps)
qed

fun resp_fits :: "nat \<Rightarrow> nat \<Rightarrow> resp_value \<Rightarrow> bool" where
  "resp_fits max_bytes depth (RespSimple s) \<longleftrightarrow> depth \<le> 8 \<and> utf8_valid (as_bytes s) \<and> 10 \<notin> set (as_bytes s) \<and> length s + 2 \<le> 4096"
| "resp_fits max_bytes depth (RespError s) \<longleftrightarrow> depth \<le> 8 \<and> utf8_valid (as_bytes s) \<and> 10 \<notin> set (as_bytes s) \<and> length s + 2 \<le> 8192"
| "resp_fits max_bytes depth (RespInteger i) \<longleftrightarrow> depth \<le> 8 \<and> - (2 ^ 63) \<le> i \<and> i < 2 ^ 63"
| "resp_fits max_bytes depth (RespBulk None) \<longleftrightarrow> depth \<le> 8"
| "resp_fits max_bytes depth (RespBulk (Some b)) \<longleftrightarrow> depth \<le> 8 \<and> length b \<le> max_bytes \<and> length b < 2 ^ 63"
| "resp_fits max_bytes depth (RespArray None) \<longleftrightarrow> depth \<le> 8"
| "resp_fits max_bytes depth (RespArray (Some vs)) \<longleftrightarrow> depth \<le> 8 \<and> length vs \<le> 4096 \<and> (\<forall>v \<in> set vs. resp_fits max_bytes (depth + 1) v)"

lemma read_count_append:
  assumes "n \<le> 4096"
  shows "read_count fin (as_bytes (show_nat n) @ crlf_bytes @ rest) = Inr (Some n, rest)"
proof -
  have "parse_i64 (show_nat n) = Some (int n)" using parse_show_int [of "int n"] assms by simp
  moreover have "length (show_nat n) \<le> 19" using small_number [of n] assms by simp
  ultimately show ?thesis using assms by (simp add: read_count_def read_number_line [OF show_nat_line] io_simps)
qed

lemma as_bytes_Cons [simp]: "as_bytes [] = []" "as_bytes (c # cs) = of_nat (of_char c) # as_bytes cs"
  by (simp_all add: as_bytes_def)

lemma read_values_append:
  assumes "\<And>v rest. v \<in> set vs \<Longrightarrow> read_resp fin max_bytes depth (encode_resp v @ rest) = Inr (v, rest)"
  shows "read_values fin max_bytes depth (length vs) (concat (map encode_resp vs) @ rest) = Inr (vs, rest)"
  using assms
proof (induction vs)
  case Nil
  then show ?case by (simp add: read_values.simps)
next
  case (Cons v vs)
  then show ?case by (subst read_values.simps) simp
qed

lemma read_nil_length:
  "read_resp_line fin 64 (as_bytes ''-1'' @ crlf_bytes @ rest) = Inr (''-1'', rest)" "parse_i64 ''-1'' = Some (- 1)"
proof -
  show "read_resp_line fin 64 (as_bytes ''-1'' @ crlf_bytes @ rest) = Inr (''-1'', rest)"
    by (rule read_number_line) (simp_all add: number_line_def decimal_digit_def)
  show "parse_i64 ''-1'' = Some (- 1)" by (simp add: parse_i64_def decimal_digit_def digits_value_def)
qed

lemma read_encoded:
  "resp_fits max_bytes depth v \<Longrightarrow> read_resp fin max_bytes depth (encode_resp v @ rest) = Inr (v, rest)"
proof (induction v arbitrary: depth rest)
  case (RespSimple s)
  then show ?case using read_crlf_line_append [of "as_bytes s" 4096] by (simp add: read_resp.simps io_simps read_resp_line_def)
next
  case (RespError s)
  then show ?case using read_crlf_line_append [of "as_bytes s" 8192] by (simp add: read_resp.simps io_simps read_resp_line_def)
next
  case (RespInteger i)
  have "length (show_int i) \<le> 20"
  proof (cases "i < 0")
    case True
    then have "nat (- i) < 10 ^ 19" using RespInteger by (simp add: nat_less_iff)
    then show ?thesis using show_nat_length [of "nat (- i)" 19] True by (simp add: show_int_def)
  next
    case False
    then have "nat i < 10 ^ 19" using RespInteger by (simp add: nat_less_iff)
    then show ?thesis using show_nat_length [of "nat i" 19] False by (simp add: show_int_def)
  qed
  then show ?case using RespInteger parse_show_int [of i] by (simp add: read_resp.simps io_simps read_number_line [OF show_int_line])
next
  case (RespBulk b)
  show ?case
  proof (cases b)
    case None
    then show ?thesis using RespBulk read_nil_length by (simp add: read_resp.simps read_bulk_def io_simps)
  next
    case (Some bs)
    then show ?thesis using RespBulk read_bulk_append by (simp add: read_resp.simps bulk_bytes_def)
  qed
next
  case (RespArray a)
  show ?case
  proof (cases a)
    case None
    then show ?thesis using RespArray read_nil_length by (simp add: read_resp.simps read_count_def io_simps)
  next
    case (Some vs)
    have "read_values fin max_bytes (depth + 1) (length vs) (concat (map encode_resp vs) @ rest) = Inr (vs, rest)"
      by (rule read_values_append) (use RespArray Some in auto)
    then show ?thesis using RespArray.prems Some by (subst read_resp.simps) (simp add: read_count_append)
  qed
qed

section \<open>Limits\<close>

lemma line_of_cases: "line_of bs = (l, rest) \<Longrightarrow> bs = l @ rest \<and> (l \<noteq> [] \<longrightarrow> last l = 10 \<longrightarrow> 10 \<notin> set (butlast l))"
  by (induction bs arbitrary: l) (auto split: if_splits prod.splits)

lemma read_crlf_line_cases:
  assumes "read_crlf_line bad not_text fin max_bytes bs = Inr (line, rest)"
  shows "bs = as_bytes line @ crlf_bytes @ rest \<and> utf8_valid (as_bytes line) \<and> 10 \<notin> set (as_bytes line) \<and> length line + 2 \<le> max_bytes"
proof -
  obtain l r where l: "line_of bs = (l, r)" by fastforce
  from assms l have e: "l \<noteq> []" "length l \<le> max_bytes" "ends_crlf l" "utf8_valid (take (length l - 2) l)"
    "line = from_bytes (take (length l - 2) l)" "r = rest"
    by (auto simp: read_crlf_line_def Let_def split: if_splits)
  have len: "2 \<le> length l" using e(3) by (simp add: ends_crlf_def)
  have ll: "l = as_bytes line @ crlf_bytes" using e(3) append_take_drop_id [of "length l - 2" l] by (simp add: ends_crlf_def e(5))
  have ll2: "length l = length line + 2" using e(5) len by simp
  have "last l = 10" "butlast l = as_bytes line @ [13]" using ll by (simp_all add: crlf_bytes_def butlast_append)
  then have ten: "10 \<notin> set (as_bytes line)" using line_of_cases [OF l] e(1) by simp
  have "bs = l @ rest" using line_of_cases [OF l] e(6) by simp
  then have "bs = as_bytes line @ crlf_bytes @ rest" by (subst (asm) ll) simp
  moreover have "utf8_valid (as_bytes line)" using e(4,5) by simp
  ultimately show ?thesis using ten e(2) ll2 by simp
qed

lemmas read_resp_line_cases = read_crlf_line_cases [of "''invalid RESP line''" "''RESP line is not UTF-8''", folded read_resp_line_def]

lemma parse_i64_range: "parse_i64 s = Some v \<Longrightarrow> - (2 ^ 63) \<le> v \<and> v < 2 ^ 63"
  by (auto simp: parse_i64_def Let_def split: if_splits prod.splits)

lemma read_bulk_cases:
  assumes "read_bulk fin max_bytes bs = Inr (v, rest)"
  shows "\<exists>b. v = RespBulk b \<and> (\<forall>x. b = Some x \<longrightarrow> length x \<le> max_bytes \<and> length x < 2 ^ 63)"
proof -
  obtain line r where l: "read_resp_line fin 64 bs = Inr (line, r)"
    using assms by (auto simp: read_bulk_def result_bind_def split: sum.splits)
  then obtain n where n: "parse_i64 line = Some n" using assms by (cases "parse_i64 line") (auto simp: read_bulk_def result_bind_def)
  show ?thesis
  proof (cases "n = - 1")
    case True
    then show ?thesis using assms l n by (auto simp: read_bulk_def result_bind_def)
  next
    case False
    then have small: "\<not> n < 0" "n \<le> int max_bytes" using assms l n by (auto simp: read_bulk_def result_bind_def split: if_splits)
    obtain b r1 where b: "read_n fin (nat n) r = Inr (b, r1)"
      using assms l n False small by (auto simp: read_bulk_def result_bind_def split: sum.splits)
    then have "length b = nat n" by (auto simp: read_n_def split: if_splits)
    moreover have "v = RespBulk (Some b)"
      using assms l n False small b by (auto simp: read_bulk_def result_bind_def split: sum.splits)
    ultimately show ?thesis using small parse_i64_range [OF n] by (simp add: nat_le_iff nat_less_iff)
  qed
qed

lemma read_count_cases: "read_count fin bs = Inr (Some n, rest) \<Longrightarrow> n \<le> 4096"
  by (auto simp: read_count_def io_simps split: option.splits if_splits prod.splits)

lemma read_fits:
  "read_resp fin max_bytes depth bs = Inr (v, rest) \<Longrightarrow> resp_fits max_bytes depth v"
  "read_values fin max_bytes depth n bs = Inr (vs, rest) \<Longrightarrow> length vs = n \<and> (\<forall>v \<in> set vs. resp_fits max_bytes depth v)"
proof (induction fin max_bytes depth bs and fin max_bytes depth n bs arbitrary: v rest and vs rest rule: read_resp_read_values.induct)
  case (1 fin max_bytes depth bs)
  show ?case
  proof -
    from 1(2) obtain p r where d: "depth \<le> 8" and p: "read_n fin 1 bs = Inr (p, r)"
      by (subst (asm) read_resp.simps) (auto split: if_splits sum.splits)
    note eq = 1(2) [unfolded read_resp.simps [of fin max_bytes depth bs]]
    consider "hd p = 43" | "hd p = 45" | "hd p = 58" | "hd p = 36" | "hd p = 42"
      using eq d p by (auto split: if_splits)
    then show ?thesis
    proof cases
      case 1
      then show ?thesis using eq d p by (auto simp: io_simps dest!: read_resp_line_cases)
    next
      case 2
      then show ?thesis using eq d p by (auto simp: io_simps dest!: read_resp_line_cases)
    next
      case 3
      obtain line r1 where l: "read_resp_line fin 64 r = Inr (line, r1)"
        using eq d p 3 by (auto simp: result_bind_def split: sum.splits)
      then obtain n where n: "parse_i64 line = Some n" using eq d p 3 by (cases "parse_i64 line") (auto simp: result_bind_def)
      then show ?thesis using eq d p 3 l parse_i64_range [OF n] by (auto simp: result_bind_def)
    next
      case 4
      then have "read_bulk fin max_bytes r = Inr (v, rest)" using eq d p by simp
      from read_bulk_cases [OF this] obtain b where b: "v = RespBulk b" "\<forall>x. b = Some x \<longrightarrow> length x \<le> max_bytes \<and> length x < 2 ^ 63" by blast
      then show ?thesis using d by (cases b) auto
    next
      case 5
      obtain c r1 where c: "read_count fin r = Inr (c, r1)" using eq d p 5 by (auto split: sum.splits)
      show ?thesis
      proof (cases c)
        case None
        then show ?thesis using eq d p 5 c by auto
      next
        case (Some n)
        obtain vs r2 where vs: "read_values fin max_bytes (depth + 1) n r1 = Inr (vs, r2)" "v = RespArray (Some vs)"
          using eq d p 5 c Some by (auto split: sum.splits)
        have "length vs = n \<and> (\<forall>v \<in> set vs. resp_fits max_bytes (depth + 1) v)"
          using "1.IH" [OF _ p refl _ _ _ _ _ c refl Some vs(1)] d 5 by simp
        then show ?thesis using vs(2) d read_count_cases c Some by simp
      qed
    qed
  qed
next
  case (2 fin max_bytes depth n bs)
  show ?case
  proof (cases "n = 0")
    case True
    then show ?thesis using 2(3) by (simp add: read_values.simps)
  next
    case False
    note eq = 2(3) [unfolded read_values.simps [of fin max_bytes depth n bs]]
    obtain v r where v: "read_resp fin max_bytes depth bs = Inr (v, r)" using eq False by (auto split: sum.splits)
    obtain ws r1 where ws: "read_values fin max_bytes depth (n - 1) r = Inr (ws, r1)" "vs = v # ws"
      using eq False v by (auto split: sum.splits)
    show ?thesis using "2.IH"(1) [OF False v] "2.IH"(2) [OF False v refl ws(1)] ws(2) False by simp
  qed
qed

text \<open>What is read does not depend on what follows; so an answer that is cut is never read as a value.\<close>

lemma read_n_more: "read_n fin n bs = Inr (x, rest) \<Longrightarrow> read_n fin' n (bs @ xs) = Inr (x, rest @ xs)"
  by (auto simp: read_n_def split: if_splits)

lemma read_crlf_line_more:
  assumes "read_crlf_line bad not_text fin max_bytes bs = Inr (line, rest)"
  shows "read_crlf_line bad not_text fin' max_bytes (bs @ xs) = Inr (line, rest @ xs)"
proof -
  have "read_crlf_line bad not_text fin' max_bytes (as_bytes line @ crlf_bytes @ rest @ xs) = Inr (from_bytes (as_bytes line), rest @ xs)"
    by (rule read_crlf_line_append) (use read_crlf_line_cases [OF assms] in auto)
  then show ?thesis using read_crlf_line_cases [OF assms] by simp
qed

lemma read_resp_line_more: "read_resp_line fin n bs = Inr (line, rest) \<Longrightarrow> read_resp_line fin' n (bs @ xs) = Inr (line, rest @ xs)"
  unfolding read_resp_line_def by (rule read_crlf_line_more)

lemma expect_crlf_more: "expect_crlf fin bs = Inr rest \<Longrightarrow> expect_crlf fin' (bs @ xs) = Inr (rest @ xs)"
  using read_n_more [of fin 2 bs _ _ fin' xs]
  by (cases "read_n fin 2 bs") (auto simp: expect_crlf_def result_bind_def split: if_splits)

lemma read_bulk_more:
  assumes "read_bulk fin m bs = Inr (v, rest)" "m \<le> m'"
  shows "read_bulk fin' m' (bs @ xs) = Inr (v, rest @ xs)"
proof -
  obtain line r where l: "read_resp_line fin 64 bs = Inr (line, r)"
    using assms(1) by (auto simp: read_bulk_def result_bind_def split: sum.splits)
  then obtain n where n: "parse_i64 line = Some n" using assms by (cases "parse_i64 line") (auto simp: read_bulk_def result_bind_def)
  have l': "read_resp_line fin' 64 (bs @ xs) = Inr (line, r @ xs)" by (rule read_resp_line_more [OF l])
  show ?thesis
  proof (cases "n = - 1")
    case True
    then show ?thesis using assms l l' n by (auto simp: read_bulk_def result_bind_def)
  next
    case False
    then have small: "\<not> n < 0" "n \<le> int m" using assms l n by (auto simp: read_bulk_def result_bind_def split: if_splits)
    obtain b r1 where b: "read_n fin (nat n) r = Inr (b, r1)"
      using assms l n False small by (auto simp: read_bulk_def result_bind_def split: sum.splits)
    obtain r2 where c: "expect_crlf fin r1 = Inr r2"
      using assms l n False small b by (auto simp: read_bulk_def result_bind_def split: sum.splits)
    show ?thesis
      using assms l l' n False small b c read_n_more [OF b, of fin' xs] expect_crlf_more [OF c, of fin' xs]
      by (auto simp: read_bulk_def result_bind_def)
  qed
qed

lemma read_count_more:
  assumes "read_count fin bs = Inr (c, rest)"
  shows "read_count fin' (bs @ xs) = Inr (c, rest @ xs)"
proof -
  obtain line r where l: "read_resp_line fin 64 bs = Inr (line, r)"
    using assms by (auto simp: read_count_def result_bind_def split: sum.splits)
  then show ?thesis using assms read_resp_line_more [OF l, of fin' xs]
    by (auto simp: read_count_def result_bind_def split: option.splits if_splits)
qed

lemma read_more:
  "read_resp fin m depth bs = Inr (v, rest) \<Longrightarrow> m \<le> m' \<Longrightarrow> read_resp fin' m' depth (bs @ xs) = Inr (v, rest @ xs)"
  "read_values fin m depth n bs = Inr (vs, rest) \<Longrightarrow> m \<le> m' \<Longrightarrow> read_values fin' m' depth n (bs @ xs) = Inr (vs, rest @ xs)"
proof (induction fin m depth bs and fin m depth n bs arbitrary: v rest and vs rest rule: read_resp_read_values.induct)
  case (1 fin m depth bs)
  from 1(2) obtain p r where d: "depth \<le> 8" and p: "read_n fin 1 bs = Inr (p, r)"
    by (subst (asm) read_resp.simps) (auto split: if_splits sum.splits)
  note eq = 1(2) [unfolded read_resp.simps [of fin m depth bs]]
  have p': "read_n fin' 1 (bs @ xs) = Inr (p, r @ xs)" by (rule read_n_more [OF p])
  consider "hd p = 43" | "hd p = 45" | "hd p = 58" | "hd p = 36" | "hd p = 42"
    using eq d p by (auto split: if_splits)
  then show ?case
  proof cases
    case 1
    then obtain line where l: "read_resp_line fin 4096 r = Inr (line, rest)" "v = RespSimple line"
      using eq d p by (auto simp: result_bind_def split: sum.splits)
    then show ?thesis using d p' 1 read_resp_line_more [OF l(1), of fin' xs] by (subst read_resp.simps) simp
  next
    case 2
    then obtain line where l: "read_resp_line fin 8192 r = Inr (line, rest)" "v = RespError line"
      using eq d p by (auto simp: result_bind_def split: sum.splits)
    then show ?thesis using d p' 2 read_resp_line_more [OF l(1), of fin' xs] by (subst read_resp.simps) simp
  next
    case 3
    then obtain line r1 where l: "read_resp_line fin 64 r = Inr (line, r1)"
      using eq d p by (auto simp: result_bind_def split: sum.splits)
    then obtain n where n: "parse_i64 line = Some n" using eq d p 3 by (cases "parse_i64 line") (auto simp: result_bind_def)
    then have "v = RespInteger n \<and> rest = r1" using eq d p 3 l by (auto simp: result_bind_def)
    then show ?thesis using d p' 3 n read_resp_line_more [OF l, of fin' xs] by (subst read_resp.simps) simp
  next
    case 4
    then have "read_bulk fin m r = Inr (v, rest)" using eq d p by simp
    then show ?thesis using d p' 4 1(3) read_bulk_more by (subst read_resp.simps) simp
  next
    case 5
    obtain c r1 where c: "read_count fin r = Inr (c, r1)" using eq d p 5 by (auto split: sum.splits)
    note c' = read_count_more [OF c, of fin' xs]
    show ?thesis
    proof (cases c)
      case None
      then show ?thesis using eq d p p' 5 c c' by (subst read_resp.simps) auto
    next
      case (Some n)
      obtain vs r2 where vs: "read_values fin m (depth + 1) n r1 = Inr (vs, r2)" "v = RespArray (Some vs)" "rest = r2"
        using eq d p 5 c Some by (auto split: sum.splits)
      have "read_values fin' m' (depth + 1) n (r1 @ xs) = Inr (vs, r2 @ xs)"
        using "1.IH" [OF _ p refl _ _ _ _ _ c refl Some vs(1)] d 5 1(3) by simp
      then show ?thesis using d p' 5 c' Some vs(2,3) by (subst read_resp.simps) simp
    qed
  qed
next
  case (2 fin m depth n bs)
  show ?case
  proof (cases "n = 0")
    case True
    then show ?thesis using 2(3) by (simp add: read_values.simps)
  next
    case False
    note eq = 2(3) [unfolded read_values.simps [of fin m depth n bs]]
    obtain v r where v: "read_resp fin m depth bs = Inr (v, r)" using eq False by (auto split: sum.splits)
    obtain ws where ws: "read_values fin m depth (n - 1) r = Inr (ws, rest)" "vs = v # ws"
      using eq False v by (auto split: sum.splits)
    show ?thesis using "2.IH"(1) [OF False v 2(4)] "2.IH"(2) [OF False v refl ws(1) 2(4)] ws(2) False by (subst read_values.simps) simp
  qed
qed

lemma cut_answer_unread:
  assumes "resp_fits m' 0 v" "prefix bs (encode_resp v)" "read_resp fin max_bytes 0 bs = Inr (w, rest)" "max_bytes \<le> m'"
  shows "w = v \<and> rest = [] \<and> bs = encode_resp v"
proof -
  obtain xs where xs: "encode_resp v = bs @ xs" using assms(2) by (auto simp: prefix_def)
  have "read_resp fin m' 0 (encode_resp v) = Inr (w, rest @ xs)" using read_more(1) [OF assms(3,4), of fin xs] xs by simp
  moreover have "read_resp fin m' 0 (encode_resp v) = Inr (v, [])" using read_encoded [OF assms(1), of fin "[]"] by simp
  ultimately show ?thesis using xs by auto
qed

text \<open>A server that reads a command within its limits was sent one within its limits.\<close>

lemma number_line_of:
  assumes "read_resp_line fin k (as_bytes ds @ crlf_bytes @ rest) = Inr (line, r)" "number_line ds"
  shows "line = ds \<and> r = rest"
proof -
  have "line_of (as_bytes ds @ crlf_bytes @ rest) = (as_bytes ds @ crlf_bytes, rest)"
    using number_line_text [OF assms(2)] by (intro line_of_append) blast
  then show ?thesis using assms(1)
    by (auto simp: read_resp_line_def read_crlf_line_def Let_def crlf_bytes_def split: if_splits)
qed

lemma parse_show_nat: "parse_i64 (show_nat n) = Some v \<Longrightarrow> v = int n"
proof -
  assume p: "parse_i64 (show_nat n) = Some v"
  obtain c cs where c: "show_nat n = c # cs" "decimal_digit c" using show_nat_digits [of n] by (cases "show_nat n") auto
  then show "v = int n" using p show_nat_digits [of n] digit_not_sign [OF c(2)]
    by (auto simp: parse_i64_def split: if_splits)
qed

lemma read_count_of:
  assumes "read_count fin (as_bytes (show_nat n) @ crlf_bytes @ rest) = Inr (c, r)"
  shows "n \<le> 4096 \<and> c = Some n \<and> r = rest"
proof -
  obtain line r1 where l: "read_resp_line fin 64 (as_bytes (show_nat n) @ crlf_bytes @ rest) = Inr (line, r1)"
    using assms by (auto simp: read_count_def result_bind_def split: sum.splits)
  then obtain v where v: "parse_i64 line = Some v" using assms by (cases "parse_i64 line") (auto simp: read_count_def result_bind_def)
  have "line = show_nat n" "r1 = rest" using number_line_of [OF l show_nat_line] by simp_all
  moreover from this have "v = int n" using parse_show_nat v by simp
  ultimately show ?thesis using assms l v by (auto simp: read_count_def result_bind_def split: if_splits)
qed

lemma read_bulk_of:
  assumes "read_resp fin m d (bulk_bytes b @ rest) = Inr (v, r)"
  shows "length b \<le> m \<and> r = rest"
proof -
  have "d \<le> 8" "read_bulk fin m (as_bytes (show_nat (length b)) @ crlf_bytes @ b @ crlf_bytes @ rest) = Inr (v, r)"
    using assms by (auto simp: read_resp.simps bulk_bytes_def split: if_splits)
  note run = this(2)
  obtain line r1 where l: "read_resp_line fin 64 (as_bytes (show_nat (length b)) @ crlf_bytes @ b @ crlf_bytes @ rest) = Inr (line, r1)"
    using run by (auto simp: read_bulk_def result_bind_def split: sum.splits)
  then obtain n where n: "parse_i64 line = Some n" using run by (cases "parse_i64 line") (auto simp: read_bulk_def result_bind_def)
  have "line = show_nat (length b)" "r1 = b @ crlf_bytes @ rest" using number_line_of [OF l show_nat_line] by simp_all
  moreover from this have "n = int (length b)" using parse_show_nat n by simp
  ultimately show ?thesis using run l n
    by (auto simp: read_bulk_def result_bind_def expect_crlf_append split: if_splits)
qed

lemma read_values_of:
  "read_values fin m d (length arguments) (concat (map bulk_bytes arguments) @ rest) = Inr (vs, r) \<Longrightarrow> \<forall>a \<in> set arguments. length a \<le> m"
proof (induction arguments arbitrary: vs)
  case (Cons a arguments)
  obtain v r1 where v: "read_resp fin m d (bulk_bytes a @ concat (map bulk_bytes arguments) @ rest) = Inr (v, r1)"
    using Cons.prems by (subst (asm) read_values.simps) (auto split: sum.splits)
  note one = read_bulk_of [OF v]
  then obtain ws where "read_values fin m d (length arguments) (concat (map bulk_bytes arguments) @ rest) = Inr (ws, r)"
    using Cons.prems v by (subst (asm) read_values.simps) (auto split: sum.splits)
  from Cons.IH [OF this] one show ?case by simp
qed simp

lemma read_command_limits:
  assumes "read_resp fin m 0 (command_bytes arguments) = Inr (v, rest)"
  shows "length arguments \<le> 4096 \<and> (\<forall>a \<in> set arguments. length a \<le> m)"
proof -
  obtain c r1 where c: "read_count fin (as_bytes (show_nat (length arguments)) @ crlf_bytes @ concat (map bulk_bytes arguments)) = Inr (c, r1)"
    using assms by (auto simp: read_resp.simps command_bytes_def split: sum.splits)
  note n = read_count_of [OF c]
  then obtain vs where "read_values fin m 1 (length arguments) (concat (map bulk_bytes arguments) @ []) = Inr (vs, rest)"
    using assms c by (auto simp: read_resp.simps command_bytes_def split: sum.splits)
  from read_values_of [OF this] n show ?thesis by simp
qed

section \<open>The protocol\<close>

text \<open>C36:
  The reader of Redis replies is exact. Every value within the limits on depth, lines, integers, bulk
  strings and arrays is read back from its encoding, with what follows left unread; whatever bytes
  arrive, a value is only read within those limits; and an answer that was cut is never read as a value.
\<close>

theorem resp_reader_is_exact:
  "(resp_fits max_bytes depth v \<longrightarrow> read_resp fin max_bytes depth (encode_resp v @ rest) = Inr (v, rest)) \<and>
   (read_resp fin max_bytes depth bs = Inr (w, rest) \<longrightarrow> resp_fits max_bytes depth w) \<and>
   (resp_fits max_bytes 0 v \<longrightarrow> prefix part (encode_resp v) \<longrightarrow> part \<noteq> encode_resp v \<longrightarrow> isl (read_resp fin max_bytes 0 part))"
proof (intro conjI impI)
  assume "resp_fits max_bytes 0 v" "prefix part (encode_resp v)" "part \<noteq> encode_resp v"
  then show "isl (read_resp fin max_bytes 0 part)"
    using cut_answer_unread [of max_bytes v part fin] by (cases "read_resp fin max_bytes 0 part") auto
qed (use read_encoded read_fits(1) in blast)+

lemma resp_reader_is_exact_witness:
  "read_resp None 8 0 (encode_resp (RespArray (Some [RespBulk (Some [13, 10]), RespInteger (- 7)])) @ [1]) =
     Inr (RespArray (Some [RespBulk (Some [13, 10]), RespInteger (- 7)]), [1])"
  using resp_reader_is_exact [of 8 0 "RespArray (Some [RespBulk (Some [13, 10]), RespInteger (- 7)])" None "[1]"] by simp

lemma command_encoding: "command_bytes arguments = encode_resp (RespArray (Some (map (\<lambda>a. RespBulk (Some a)) arguments)))"
  by (simp add: command_bytes_def comp_def)

text \<open>No argument can smuggle a command. What the client writes for a list of arguments reads back, on the
  server's side, as exactly those arguments, whatever bytes they hold, line ends included; so
  different argument lists are different on the wire.
\<close>

theorem redis_commands_read_back:
  assumes "length arguments \<le> 4096" "\<forall>a \<in> set arguments. length a \<le> max_bytes \<and> length a < 2 ^ 63"
  shows "read_resp fin max_bytes 0 (command_bytes arguments @ rest) = Inr (RespArray (Some (map (\<lambda>a. RespBulk (Some a)) arguments)), rest)"
  unfolding command_encoding by (rule read_encoded) (use assms in auto)

lemma redis_commands_read_back_witness:
  "read_resp None 16 0 (command_bytes [as_bytes ''GET'', [13, 10, 42, 49]] @ command_bytes [as_bytes ''PING'']) =
     Inr (RespArray (Some [RespBulk (Some (as_bytes ''GET'')), RespBulk (Some [13, 10, 42, 49])]), command_bytes [as_bytes ''PING''])"
  using redis_commands_read_back [of "[as_bytes ''GET'', [13, 10, 42, 49]]" 16 None] by simp

end
