(* ===== verification/Redis.thy ===== *)
theory Redis
  imports Resp KeyedStore
begin

text \<open>
  The Redis tier of \<open>src/connectors.rs\<close>: construction, authentication, the five operations and the bulk
  deletion by \<open>SCAN\<close>. The server is external; \<open>redis_lawful\<close> states what a key/value server answers, and
  allows every answer to be cut and every write to fail. Over such a server the tier keeps the
  contract of the engine's tiers.
\<close>

section \<open>The envelope\<close>

definition connector_encode_entry :: "kv_tier_entry \<Rightarrow> u8 list io_result" where
  "connector_encode_entry e =
     (if te_bytes e = [] then Inl (IoError InvalidInput ''KV entry payload must not be empty'')
      else Inr (tier_envelope_magic @ u64_le (te_expires_at e) @ [bool_byte (te_pinned e)] @
                u64_le (len64 (te_bytes e)) @ te_bytes e))"

definition connector_read_u64 :: "u8 list \<Rightarrow> nat \<Rightarrow> (u64 \<times> nat) io_result" where
  "connector_read_u64 bytes cursor =
     (let stop = usize_sat_add cursor 8 in
      if cursor \<le> stop \<and> stop \<le> length bytes
      then Inr (le_word (take (stop - cursor) (drop cursor bytes)), stop)
      else Inl (invalid_data ''KV envelope truncated''))"

definition connector_decode_entry :: "kv_block_key \<Rightarrow> u8 list \<Rightarrow> nat \<Rightarrow> kv_tier_entry io_result" where
  "connector_decode_entry k encoded max_value_bytes =
     (if length encoded > max_value_bytes \<or> length encoded < 6 + 17 then Inl (invalid_data ''KV envelope size is invalid'')
      else if take 6 encoded \<noteq> tier_envelope_magic then Inl (invalid_data ''KV envelope magic mismatch'')
      else result_bind (connector_read_u64 encoded 6) (\<lambda>(expires_at, cursor).
        if cursor < length encoded \<and> (encoded ! cursor = 0 \<or> encoded ! cursor = 1) then
          result_bind (connector_read_u64 encoded (cursor + 1)) (\<lambda>(payload_len, cursor2).
            if unat payload_len = 0 \<or> length encoded - cursor2 \<noteq> unat payload_len
            then Inl (invalid_data ''KV envelope payload length mismatch'')
            else result_bind (kv_block_new k (drop cursor2 encoded)) (\<lambda>block.
              Inr \<lparr> te_block = block, te_expires_at = expires_at, te_pinned = (encoded ! cursor = 1) \<rparr>))
        else Inl (invalid_data ''KV envelope pin flag is invalid'')))"

section \<open>Connections\<close>

record redis_auth =
  ra_username :: "string option"
  ra_password :: string

record redis_config =
  rc_name :: string
  rc_address :: string
  rc_namespace :: string
  rc_auth :: "redis_auth option"
  rc_max_value_bytes :: nat

definition ascii_control :: "char \<Rightarrow> bool" where
  "ascii_control c = (let b = of_char c :: nat in b < 32 \<or> b = 127)"

definition redis_new :: "string \<Rightarrow> string \<Rightarrow> string \<Rightarrow> nat \<Rightarrow> redis_config io_result" where
  "redis_new name address namespace max_value_bytes =
     (if blank name \<or> blank address \<or> blank namespace \<or> max_value_bytes = 0 \<or>
         list_ex (\<lambda>c. ascii_control c \<or> c = CHR '' '') namespace
      then Inl (IoError InvalidInput ''Redis tier requires valid name/address/namespace and a non-zero value limit'')
      else Inr \<lparr> rc_name = name, rc_address = address, rc_namespace = namespace, rc_auth = None,
                 rc_max_value_bytes = max_value_bytes \<rparr>)"

definition redis_with_auth :: "redis_auth \<Rightarrow> redis_config \<Rightarrow> redis_config io_result" where
  "redis_with_auth auth cfg =
     (if ra_password auth = [] \<or> ra_username auth = Some []
      then Inl (IoError InvalidInput ''Redis authentication requires a non-empty password and username when supplied'')
      else Inr (cfg\<lparr> rc_auth := Some auth \<rparr>))"

text \<open>
  The dialer and the server behind it. A send answers whether the write succeeded, the bytes that then
  arrive, and how the stream goes on after them.
\<close>

record 's redis_peer =
  rp_connect :: "string \<Rightarrow> 's \<Rightarrow> unit io_result \<times> 's"
  rp_send :: "u8 list \<Rightarrow> 's \<Rightarrow> (unit io_result \<times> u8 list \<times> io_error option) \<times> 's"

text \<open>\<open>dbg\<close> is the derived \<open>Debug\<close> text of a value, used in messages only.\<close>

definition expect_simple_ok :: "(resp_value \<Rightarrow> string) \<Rightarrow> resp_value \<Rightarrow> string \<Rightarrow> unit io_result" where
  "expect_simple_ok dbg v operation =
     (case v of
        RespSimple s \<Rightarrow> if eq_ignore_ascii_case s ''OK'' then Inr ()
          else Inl (invalid_data (''Redis '' @ operation @ '' returned '' @ dbg v))
      | RespError e \<Rightarrow> Inl (IoError PermissionDenied (''Redis '' @ operation @ '' failed: '' @ e))
      | _ \<Rightarrow> Inl (invalid_data (''Redis '' @ operation @ '' returned '' @ dbg v)))"

text \<open>One command and its reply; \<open>buf\<close> is what the reader still buffers.\<close>

definition round_trip ::
  "'s redis_peer \<Rightarrow> nat \<Rightarrow> u8 list list \<Rightarrow> u8 list \<Rightarrow> 's \<Rightarrow> (resp_value \<times> u8 list) io_result \<times> 's" where
  "round_trip peer max_bytes arguments buf s =
     (if arguments = [] then (Inl (IoError InvalidInput ''empty Redis command''), s)
      else (case rp_send peer (command_bytes arguments) s of
          ((Inl e, _, _), s1) \<Rightarrow> (Inl e, s1)
        | ((Inr _, reply, fin), s1) \<Rightarrow> (read_resp fin max_bytes 0 (buf @ reply), s1)))"

definition auth_arguments :: "redis_auth \<Rightarrow> u8 list list" where
  "auth_arguments auth = as_bytes ''AUTH'' #
     (case ra_username auth of Some u \<Rightarrow> [as_bytes u] | None \<Rightarrow> []) @ [as_bytes (ra_password auth)]"

definition redis_command ::
  "(resp_value \<Rightarrow> string) \<Rightarrow> 's redis_peer \<Rightarrow> redis_config \<Rightarrow> u8 list list \<Rightarrow> 's \<Rightarrow> resp_value io_result \<times> 's" where
  "redis_command dbg peer cfg arguments s =
     and_then (rp_connect peer (rc_address cfg) s) (\<lambda>_ s1.
     and_then (case rc_auth cfg of
                 None \<Rightarrow> (Inr [], s1)
               | Some auth \<Rightarrow> and_then (round_trip peer (rc_max_value_bytes cfg) (auth_arguments auth) [] s1) (\<lambda>(v, buf) s2.
                   check_then (expect_simple_ok dbg v ''AUTH'') s2 (\<lambda>_. (Inr buf, s2)))) (\<lambda>buf s3.
     and_then (round_trip peer (rc_max_value_bytes cfg) arguments buf s3) (\<lambda>(v, _) s4. (Inr v, s4))))"

section \<open>The tier\<close>

definition redis_key :: "crypto \<Rightarrow> redis_config \<Rightarrow> kv_block_key \<Rightarrow> u8 list" where
  "redis_key cr cfg k = as_bytes (rc_namespace cfg @ '':'' @ cache_key cr k)"

definition redis_get ::
  "(resp_value \<Rightarrow> string) \<Rightarrow> crypto \<Rightarrow> 's redis_peer \<Rightarrow> redis_config \<Rightarrow> kv_block_key \<Rightarrow> 's \<Rightarrow> kv_tier_entry option io_result \<times> 's" where
  "redis_get dbg cr peer cfg k s =
     and_then (redis_command dbg peer cfg [as_bytes ''GET'', redis_key cr cfg k] s) (\<lambda>v s1.
       case v of
         RespBulk None \<Rightarrow> (Inr None, s1)
       | RespBulk (Some bytes) \<Rightarrow>
           (result_bind (connector_decode_entry k bytes (rc_max_value_bytes cfg)) (\<lambda>e. Inr (Some e)), s1)
       | _ \<Rightarrow> (Inl (invalid_data (''GET returned '' @ dbg v)), s1))"

definition redis_put ::
  "(resp_value \<Rightarrow> string) \<Rightarrow> crypto \<Rightarrow> 's redis_peer \<Rightarrow> redis_config \<Rightarrow> kv_tier_entry \<Rightarrow> 's \<Rightarrow> unit io_result \<times> 's" where
  "redis_put dbg cr peer cfg e s =
     check_then (connector_encode_entry e) s (\<lambda>encoded.
       if length encoded > rc_max_value_bytes cfg
       then (Inl (IoError InvalidInput ''Redis KV entry exceeds configured value limit''), s)
       else and_then (redis_command dbg peer cfg [as_bytes ''SET'', redis_key cr cfg (te_key e), encoded] s) (\<lambda>v s1.
         (expect_simple_ok dbg v ''SET'', s1)))"

definition expect_removed :: "(resp_value \<Rightarrow> string) \<Rightarrow> string \<Rightarrow> resp_value \<Rightarrow> unit io_result" where
  "expect_removed dbg what v =
     (case v of RespInteger n \<Rightarrow> if n \<ge> 0 then Inr () else Inl (invalid_data (what @ dbg v))
      | _ \<Rightarrow> Inl (invalid_data (what @ dbg v)))"

definition redis_remove ::
  "(resp_value \<Rightarrow> string) \<Rightarrow> crypto \<Rightarrow> 's redis_peer \<Rightarrow> redis_config \<Rightarrow> kv_block_key \<Rightarrow> 's \<Rightarrow> unit io_result \<times> 's" where
  "redis_remove dbg cr peer cfg k s =
     and_then (redis_command dbg peer cfg [as_bytes ''DEL'', redis_key cr cfg k] s) (\<lambda>v s1.
       (expect_removed dbg ''DEL returned '' v, s1))"

text \<open>The two fields of a \<open>SCAN\<close> reply: the next cursor and the keys of the page.\<close>

fun scan_keys :: "resp_value list \<Rightarrow> u8 list list io_result" where
  "scan_keys [] = Inr []"
| "scan_keys (RespBulk (Some key) # vs) = result_bind (scan_keys vs) (\<lambda>keys. Inr (key # keys))"
| "scan_keys (_ # vs) = Inl (invalid_data ''SCAN returned a non-bulk key'')"

definition scan_page :: "resp_value \<Rightarrow> (u8 list \<times> u8 list list) io_result" where
  "scan_page response =
     (case response of
        RespArray (Some outer) \<Rightarrow>
          (case outer of
             [cursor, keys] \<Rightarrow>
               (case keys of
                  RespArray (Some values) \<Rightarrow>
                    (case cursor of
                       RespBulk (Some c) \<Rightarrow> result_bind (scan_keys values) (\<lambda>ks. Inr (c, ks))
                     | RespSimple c \<Rightarrow> result_bind (scan_keys values) (\<lambda>ks. Inr (as_bytes c, ks))
                     | _ \<Rightarrow> Inl (invalid_data ''SCAN cursor is invalid''))
                | _ \<Rightarrow> Inl (invalid_data ''SCAN key list is invalid''))
           | _ \<Rightarrow> Inl (invalid_data ''SCAN response does not have two fields''))
      | _ \<Rightarrow> Inl (invalid_data ''SCAN returned an unexpected response''))"

definition scan_arguments :: "redis_config \<Rightarrow> u8 list \<Rightarrow> u8 list list" where
  "scan_arguments cfg cursor =
     [as_bytes ''SCAN'', cursor, as_bytes ''MATCH'', as_bytes (rc_namespace cfg @ '':*''), as_bytes ''COUNT'', as_bytes ''256'']"

fun redis_clear_loop ::
  "(resp_value \<Rightarrow> string) \<Rightarrow> 's redis_peer \<Rightarrow> redis_config \<Rightarrow> nat \<Rightarrow> u8 list \<Rightarrow> 's \<Rightarrow> unit io_result \<times> 's" where
  "redis_clear_loop dbg peer cfg 0 cursor s = (Inl (io_other ''Redis clear exceeded the bounded SCAN iteration limit''), s)"
| "redis_clear_loop dbg peer cfg (Suc n) cursor s =
     and_then (redis_command dbg peer cfg (scan_arguments cfg cursor) s) (\<lambda>response s1.
     check_then (scan_page response) s1 (\<lambda>(cursor1, keys).
     and_then (if keys = [] then (Inr (), s1)
               else and_then (redis_command dbg peer cfg (as_bytes ''DEL'' # keys) s1) (\<lambda>v s2.
                 (expect_removed dbg ''DEL batch returned '' v, s2))) (\<lambda>_ s3.
       if cursor1 = as_bytes ''0'' then (Inr (), s3) else redis_clear_loop dbg peer cfg n cursor1 s3)))"

definition redis_clear :: "(resp_value \<Rightarrow> string) \<Rightarrow> 's redis_peer \<Rightarrow> redis_config \<Rightarrow> 's \<Rightarrow> unit io_result \<times> 's" where
  "redis_clear dbg peer cfg s = redis_clear_loop dbg peer cfg 100000 (as_bytes ''0'') s"

definition redis_health :: "(resp_value \<Rightarrow> string) \<Rightarrow> 's redis_peer \<Rightarrow> redis_config \<Rightarrow> 's \<Rightarrow> unit io_result \<times> 's" where
  "redis_health dbg peer cfg s =
     and_then (redis_command dbg peer cfg [as_bytes ''PING''] s) (\<lambda>v s1.
       (case v of RespSimple t \<Rightarrow> if eq_ignore_ascii_case t ''PONG'' then Inr () else Inl (invalid_data (''PING returned '' @ dbg v))
        | _ \<Rightarrow> Inl (invalid_data (''PING returned '' @ dbg v)), s1))"

definition redis_vt :: "(resp_value \<Rightarrow> string) \<Rightarrow> crypto \<Rightarrow> 's redis_peer \<Rightarrow> redis_config \<Rightarrow> 's kv_tier" where
  "redis_vt dbg cr peer cfg = \<lparr> kt_name = rc_name cfg, kt_get = redis_get dbg cr peer cfg, kt_put = redis_put dbg cr peer cfg,
     kt_remove = redis_remove dbg cr peer cfg, kt_clear = redis_clear dbg peer cfg, kt_health = redis_health dbg peer cfg \<rparr>"

section \<open>Lawful servers\<close>

text \<open>
  What a key/value server answers: the value asked for, \<open>OK\<close> for a write it carried out, a count for a
  deletion, or an error for a command it refused.
\<close>

definition redis_answers ::
  "('s \<Rightarrow> u8 list \<Rightarrow> u8 list option) \<Rightarrow> u8 list list \<Rightarrow> 's \<Rightarrow> resp_value \<Rightarrow> 's \<Rightarrow> bool" where
  "redis_answers kv arguments s r s' \<longleftrightarrow>
     (\<exists>m. resp_fits m 0 r) \<and>
     (if hd arguments = as_bytes ''SET'' \<and> length arguments = 3
      then r = RespSimple ''OK'' \<and> kv s' = (kv s)(arguments ! 1 \<mapsto> arguments ! 2) \<or> (\<exists>e. r = RespError e) \<and> kv s' = kv s
      else if hd arguments = as_bytes ''DEL''
      then (\<exists>n. r = RespInteger n) \<and> kv s' = kv s |` (- set (tl arguments)) \<or> (\<exists>e. r = RespError e) \<and> kv s' = kv s
      else kv s' = kv s \<and>
        (hd arguments = as_bytes ''GET'' \<and> length arguments = 2 \<longrightarrow> r = RespBulk (kv s (arguments ! 1)) \<or> (\<exists>e. r = RespError e)))"

text \<open>A connection may be refused, a command lost, or its answer cut.\<close>

definition redis_lawful :: "'s redis_peer \<Rightarrow> ('s \<Rightarrow> u8 list \<Rightarrow> u8 list option) \<Rightarrow> bool" where
  "redis_lawful peer kv \<longleftrightarrow>
     (\<forall>a s r s'. rp_connect peer a s = (r, s') \<longrightarrow> kv s' = kv s) \<and>
     (\<forall>arguments s w reply fin s'. arguments \<noteq> [] \<longrightarrow> rp_send peer (command_bytes arguments) s = ((w, reply, fin), s') \<longrightarrow>
        reply = [] \<and> kv s' = kv s \<or> (\<exists>r. redis_answers kv arguments s r s' \<and> prefix reply (encode_resp r)))"

lemma resp_fits_mono: "resp_fits m d v \<Longrightarrow> m \<le> m' \<Longrightarrow> resp_fits m' d v"
  by (induction m d v rule: resp_fits.induct) auto

lemma read_resp_nothing: "isl (read_resp fin m 0 [])"
  by (simp add: read_resp.simps read_n_def split: option.split)

lemma lawful_round_trip:
  assumes "redis_lawful peer kv" "arguments \<noteq> []" "round_trip peer max_bytes arguments [] s = (q, s')"
  shows "isl q \<and> kv s' = kv s \<or>
    (\<exists>r. redis_answers kv arguments s r s' \<and> (\<forall>v buf. q = Inr (v, buf) \<longrightarrow> v = r \<and> buf = []))"
proof -
  obtain w reply fin s1 where send: "rp_send peer (command_bytes arguments) s = ((w, reply, fin), s1)" by (metis prod_cases4 surj_pair)
  have s': "s' = s1" "\<And>v buf. q = Inr (v, buf) \<Longrightarrow> read_resp fin max_bytes 0 reply = Inr (v, buf)" "reply = [] \<Longrightarrow> isl q"
    using assms(2,3) send read_resp_nothing [of fin max_bytes]
    by (cases w; auto simp: round_trip_def)+
  from assms(1,2) send consider "reply = []" "kv s1 = kv s"
    | r where "redis_answers kv arguments s r s1" "prefix reply (encode_resp r)"
    unfolding redis_lawful_def by metis
  then show ?thesis
  proof cases
    case 1
    then show ?thesis using s' by simp
  next
    case 2
    then obtain m where m: "resp_fits m 0 r" by (auto simp: redis_answers_def)
    have "v = r \<and> buf = []" if "q = Inr (v, buf)" for v buf
      using cut_answer_unread [OF resp_fits_mono [OF m, of "max m max_bytes"] 2(2) s'(2) [OF that]] by simp
    then show ?thesis using 2(1) s'(1) by blast
  qed
qed

lemma lawful_command:
  assumes "redis_lawful peer kv" "arguments \<noteq> []" "redis_command dbg peer cfg arguments s = (q, s')"
  shows "isl q \<and> kv s' = kv s \<or>
    (\<exists>s0 r. kv s0 = kv s \<and> redis_answers kv arguments s0 r s' \<and> (\<forall>v. q = Inr v \<longrightarrow> v = r))"
proof -
  obtain c s1 where c: "rp_connect peer (rc_address cfg) s = (c, s1)" by fastforce
  have s1: "kv s1 = kv s" using assms(1) c unfolding redis_lawful_def by blast
  define auth where "auth = (case rc_auth cfg of
      None \<Rightarrow> (Inr [], s1)
    | Some auth \<Rightarrow> and_then (round_trip peer (rc_max_value_bytes cfg) (auth_arguments auth) [] s1) (\<lambda>(v, buf) s2.
        check_then (expect_simple_ok dbg v ''AUTH'') s2 (\<lambda>_. (Inr buf, s2))))"
  obtain a s3 where a: "auth = (a, s3)" by fastforce
  have s3: "kv s3 = kv s \<and> (\<forall>buf. a = Inr buf \<longrightarrow> buf = [])"
  proof (cases "rc_auth cfg")
    case None
    then show ?thesis using a s1 by (auto simp: auth_def)
  next
    case (Some au)
    obtain q2 s2 where q2: "round_trip peer (rc_max_value_bytes cfg) (auth_arguments au) [] s1 = (q2, s2)" by fastforce
    have ne: "auth_arguments au \<noteq> []" "hd (auth_arguments au) = as_bytes ''AUTH''" by (simp_all add: auth_arguments_def)
    have "kv s2 = kv s1 \<and> (\<forall>v buf. q2 = Inr (v, buf) \<longrightarrow> buf = [])"
      using lawful_round_trip [OF assms(1) ne(1) q2] ne(2) by (cases q2) (auto simp: redis_answers_def)
    moreover have "s3 = s2 \<and> (\<forall>buf. a = Inr buf \<longrightarrow> (\<exists>v. q2 = Inr (v, buf)))"
      using a Some q2 by (cases q2) (auto simp: auth_def check_then_def split: sum.splits prod.splits)
    ultimately show ?thesis using s1 by auto
  qed
  show ?thesis
  proof (cases c)
    case (Inl e)
    then show ?thesis using assms(3) c s1 by (auto simp: redis_command_def)
  next
    case (Inr u)
    then have run: "redis_command dbg peer cfg arguments s = and_then auth (\<lambda>buf s3.
        and_then (round_trip peer (rc_max_value_bytes cfg) arguments buf s3) (\<lambda>(v, _) s4. (Inr v, s4)))"
      using c by (simp add: redis_command_def auth_def)
    show ?thesis
    proof (cases a)
      case (Inl e)
      then show ?thesis using assms(3) run a s3 by auto
    next
      case (Inr buf)
      then have "buf = []" using s3 by simp
      obtain q4 s4 where q4: "round_trip peer (rc_max_value_bytes cfg) arguments [] s3 = (q4, s4)" by fastforce
      then have q: "s' = s4" "isl q \<longleftrightarrow> isl q4" "\<And>v. q = Inr v \<Longrightarrow> \<exists>b. q4 = Inr (v, b)"
        using assms(3) run a Inr \<open>buf = []\<close> by (cases q4; auto)+
      from lawful_round_trip [OF assms(1,2) q4] show ?thesis using q s3 by fastforce
    qed
  qed
qed

lemma connector_encode_eq: "connector_encode_entry e = Inr bs \<longleftrightarrow> encode_tier_entry e = Inr bs"
  by (simp add: connector_encode_entry_def encode_tier_entry_def)

lemma connector_read_u64_at:
  "cursor + 8 \<le> length bs \<Longrightarrow> cursor < 1000 \<Longrightarrow> connector_read_u64 bs cursor = Inr (le_word (take 8 (drop cursor bs)), cursor + 8)"
  by (simp add: connector_read_u64_def usize_sat_add_def Let_def usize_max_def)

lemma connector_decode_eq:
  "connector_decode_entry k bs max_bytes = Inr e \<longleftrightarrow> length bs \<le> max_bytes \<and> decode_tier_entry k bs = Inr e"
proof (cases "length bs < 23")
  case True
  then show ?thesis by (simp add: connector_decode_entry_def decode_tier_entry_def)
next
  case False
  have c: "cursor_u64 bs 6 = Inr (le_word (take 8 (drop 6 bs)), 14)" "cursor_u64 bs 15 = Inr (le_word (take 8 (drop 15 bs)), 23)"
    using False by (simp_all add: cursor_u64_at usize_max_big)
  have d: "connector_read_u64 bs 6 = Inr (le_word (take 8 (drop 6 bs)), 14)"
    "connector_read_u64 bs 15 = Inr (le_word (take 8 (drop 15 bs)), 23)"
    using False by (simp_all add: connector_read_u64_at)
  have "bs ! 14 \<le> 1 \<longleftrightarrow> bs ! 14 = 0 \<or> bs ! 14 = 1" by (rule word_le_1_iff)
  then show ?thesis using False
    by (auto simp: connector_decode_entry_def decode_tier_entry_def c d kv_block_new_def)
qed

lemma connector_decode_encode:
  assumes "connector_encode_entry e = Inr bs" "length bs \<le> max_bytes" "length (te_bytes e) < 2 ^ 63"
  shows "connector_decode_entry (te_key e) bs max_bytes = Inr e"
  using decode_encode [of e bs] assms by (simp add: connector_encode_eq connector_decode_eq)

abbreviation redis_dec :: "redis_config \<Rightarrow> kv_block_key \<Rightarrow> u8 list \<Rightarrow> kv_tier_entry io_result" where
  "redis_dec cfg k raw \<equiv> connector_decode_entry k raw (rc_max_value_bytes cfg)"

lemma redis_key_inj: "inj_on (cache_key cr) used \<Longrightarrow> inj_on (redis_key cr cfg) used"
  by (auto simp: redis_key_def inj_on_def)

lemma redis_stores_entries:
  assumes "redis_lawful peer kv"
  shows "stores_entries (redis_vt dbg cr peer cfg) kv (redis_key cr cfg) (redis_dec cfg)"
  unfolding stores_entries_def
proof (intro conjI allI impI)
  fix k s r s' assume run: "kt_get (redis_vt dbg cr peer cfg) k s = (r, s')"
  obtain q s1 where q: "redis_command dbg peer cfg [as_bytes ''GET'', redis_key cr cfg k] s = (q, s1)" by fastforce
  have s1: "s' = s1" using run q
    by (cases q) (auto simp: redis_vt_def redis_get_def split: resp_value.splits option.splits)
  from lawful_command [OF assms _ q] have law: "kv s1 = kv s"
    "\<And>v. q = Inr v \<Longrightarrow> v = RespBulk (kv s (redis_key cr cfg k)) \<or> (\<exists>e. v = RespError e)"
    by (auto simp: redis_answers_def)
  show "kv s' = kv s" using law(1) s1 by simp
  show "b = stored_view kv (redis_key cr cfg) (redis_dec cfg) {k} s k" if b: "r = Inr b" for b
  proof -
    obtain v where v: "q = Inr v" using run q b by (cases q) (auto simp: redis_vt_def redis_get_def)
    from law(2) [OF v] show ?thesis
    proof
      assume "v = RespBulk (kv s (redis_key cr cfg k))"
      then show ?thesis using run q v b
        by (cases "kv s (redis_key cr cfg k)")
          (auto simp: redis_vt_def redis_get_def stored_view_def io_simps split: sum.splits)
    next
      assume "\<exists>e. v = RespError e"
      then show ?thesis using run q v b by (auto simp: redis_vt_def redis_get_def)
    qed
  qed
next
  fix x s w s' assume small: "length (te_bytes x) < 2 ^ 63" and run: "kt_put (redis_vt dbg cr peer cfg) x s = (w, s')"
  have run: "redis_put dbg cr peer cfg x s = (w, s')" using run by (simp add: redis_vt_def)
  show "(\<exists>raw. redis_dec cfg (te_key x) raw = Inr x \<and> kv s' = (kv s)(redis_key cr cfg (te_key x) \<mapsto> raw)) \<or>
      w \<noteq> Inr () \<and> kv s' = kv s"
  proof (cases "connector_encode_entry x")
    case (Inl e)
    then show ?thesis using run by (auto simp: redis_put_def)
  next
    case (Inr bs)
    show ?thesis
    proof (cases "length bs > rc_max_value_bytes cfg")
      case True
      then show ?thesis using run Inr by (auto simp: redis_put_def)
    next
      case False
      obtain q s1 where q: "redis_command dbg peer cfg [as_bytes ''SET'', redis_key cr cfg (te_key x), bs] s = (q, s1)" by fastforce
      have w: "s' = s1" "w = Inr () \<Longrightarrow> \<exists>v. q = Inr v \<and> expect_simple_ok dbg v ''SET'' = Inr ()"
        using run Inr False q by (cases q; auto simp: redis_put_def)+
      have dec: "redis_dec cfg (te_key x) bs = Inr x" using connector_decode_encode [OF Inr _ small] False by simp
      have "kv s1 = (kv s)(redis_key cr cfg (te_key x) \<mapsto> bs) \<or> (isl q \<or> (\<exists>e. q = Inr (RespError e))) \<and> kv s1 = kv s"
        using lawful_command [OF assms _ q] by (cases q) (auto simp: redis_answers_def)
      then show ?thesis using w dec by (auto simp: expect_simple_ok_def)
    qed
  qed
next
  fix k s w s' assume run: "kt_remove (redis_vt dbg cr peer cfg) k s = (w, s')"
  obtain q s1 where q: "redis_command dbg peer cfg [as_bytes ''DEL'', redis_key cr cfg k] s = (q, s1)" by fastforce
  have w: "s' = s1" "w = Inr () \<Longrightarrow> \<exists>v. q = Inr v \<and> expect_removed dbg ''DEL returned '' v = Inr ()"
    using run q by (cases q; auto simp: redis_vt_def redis_remove_def)+
  have "kv s1 = (kv s)(redis_key cr cfg k := None) \<or> (isl q \<or> (\<exists>e. q = Inr (RespError e))) \<and> kv s1 = kv s"
    using lawful_command [OF assms _ q]
    by (cases q) (auto simp: redis_answers_def restrict_map_def fun_eq_iff)
  then show "kv s' = (kv s)(redis_key cr cfg k := None) \<or> w \<noteq> Inr () \<and> kv s' = kv s"
    using w by (auto simp: expect_removed_def)
next
  fix k raw e assume "redis_dec cfg k raw = Inr e"
  then show "te_key e = k" using decode_key [of k raw e] by (simp add: connector_decode_eq)
qed

text \<open>C35:
  The Redis tier is a tier like the others. Over a server that answers as a key/value store does, whatever
  connections are refused, commands lost or answers cut, and with or without authentication, it keeps the
  contract on which the engine's coherence rests.
\<close>

theorem redis_tier_keeps_the_contract:
  assumes "redis_lawful peer kv" "inj_on (cache_key cr) used"
  shows "coherent_tier (redis_vt dbg cr peer cfg) (stored_view kv (redis_key cr cfg) (redis_dec cfg) used) (\<lambda>_. True) used (\<lambda>_. True)"
  by (rule stored_coherent [OF redis_stores_entries [OF assms(1)] redis_key_inj [OF assms(2)]])

section \<open>Clearing\<close>

text \<open>
  A server of the commands the tier uses, over an association list. The patterns it is asked for are a literal
  text and a final star; a page holds all keys that match.
\<close>

definition reply_or_error :: "resp_value \<Rightarrow> resp_value" where
  "reply_or_error r = (if resp_fits (2 ^ 62) 0 r then r else RespError ''ERR'')"

definition map_answer :: "u8 list list \<Rightarrow> (u8 list, u8 list) hmap \<Rightarrow> resp_value \<times> (u8 list, u8 list) hmap" where
  "map_answer arguments s =
     (if hd arguments = as_bytes ''SET'' \<and> length arguments = 3
      then (RespSimple ''OK'', AList.update (arguments ! 1) (arguments ! 2) s)
      else if hd arguments = as_bytes ''DEL''
      then (if length s < 2 ^ 62
            then (RespInteger (int (length [p \<leftarrow> s. fst p \<in> set (tl arguments)])), [p \<leftarrow> s. fst p \<notin> set (tl arguments)])
            else (RespError ''ERR'', s))
      else if hd arguments = as_bytes ''GET'' \<and> length arguments = 2
      then (reply_or_error (RespBulk (map_of s (arguments ! 1))), s)
      else if hd arguments = as_bytes ''SCAN'' \<and> length arguments = 6
      then (reply_or_error (RespArray (Some [RespBulk (Some (as_bytes ''0'')),
              RespArray (Some (map (\<lambda>p. RespBulk (Some (fst p))) [p \<leftarrow> s. prefix (butlast (arguments ! 3)) (fst p)]))])), s)
      else (RespSimple ''OK'', s))"

fun bulk_arguments :: "resp_value list \<Rightarrow> u8 list list" where
  "bulk_arguments (RespBulk (Some b) # vs) = b # bulk_arguments vs"
| "bulk_arguments _ = []"

definition map_redis :: "(u8 list, u8 list) hmap redis_peer" where
  "map_redis = \<lparr> rp_connect = (\<lambda>_ s. (Inr (), s)),
     rp_send = (\<lambda>bytes s. case read_resp None (2 ^ 62) 0 bytes of
         Inr (RespArray (Some vs), []) \<Rightarrow> (case map_answer (bulk_arguments vs) s of (r, s1) \<Rightarrow> ((Inr (), encode_resp r, None), s1))
       | _ \<Rightarrow> ((Inr (), encode_resp (RespError ''ERR''), None), s)) \<rparr>"

lemma bulk_arguments_map [simp]: "bulk_arguments (map (\<lambda>a. RespBulk (Some a)) arguments) = arguments"
  by (induction arguments) auto

lemma small_error: "resp_fits m 0 (RespError ''ERR'')" "resp_fits m 0 (RespSimple ''OK'')"
  by (simp_all add: utf8_valid_def utf8_lead_def)

lemma reply_or_error_fits: "resp_fits (2 ^ 62) 0 (reply_or_error r)"
  using small_error by (auto simp: reply_or_error_def simp del: resp_fits.simps)

lemma map_answer_lawful: "redis_answers map_of arguments s (fst (map_answer arguments s)) (snd (map_answer arguments s))"
proof -
  have del: "map_of [p \<leftarrow> s. fst p \<notin> D] = map_of s |` (- D)" for D
    by (induction s) (auto simp: restrict_map_def fun_eq_iff)
  have "\<exists>m. resp_fits m 0 (fst (map_answer arguments s))"
  proof -
    have "resp_fits (2 ^ 62) 0 (RespInteger (int (length [p \<leftarrow> s. fst p \<in> set (tl arguments)])))" if "length s < 2 ^ 62"
    proof -
      have "length [p \<leftarrow> s. fst p \<in> set (tl arguments)] < 2 ^ 62" using that length_filter_le le_less_trans by blast
      then show ?thesis by simp
    qed
    then show ?thesis using reply_or_error_fits small_error by (auto simp: map_answer_def simp del: resp_fits.simps)
  qed
  then show ?thesis
    by (auto simp: redis_answers_def map_answer_def hm_simps del reply_or_error_def)
qed

lemma map_redis_lawful: "redis_lawful map_redis map_of"
  unfolding redis_lawful_def
proof (intro conjI allI impI)
  fix arguments :: "u8 list list" and s w reply fin s'
  assume ne: "arguments \<noteq> []" and send: "rp_send map_redis (command_bytes arguments) s = ((w, reply, fin), s')"
  let ?q = "read_resp None (2 ^ 62) 0 (command_bytes arguments)"
  have err: "redis_answers map_of arguments s (RespError ''ERR'') s"
    using small_error(1) by (auto simp: redis_answers_def)
  have "\<exists>r. redis_answers map_of arguments s r s' \<and> reply = encode_resp r"
  proof (cases "resp_fits (2 ^ 62) 0 (RespArray (Some (map (\<lambda>a. RespBulk (Some a)) arguments)))")
    case True
    then have "?q = Inr (RespArray (Some (map (\<lambda>a. RespBulk (Some a)) arguments)), [])"
      using read_encoded [OF True, of None "[]"] by (simp only: command_encoding append_Nil2)
    then have "s' = snd (map_answer arguments s)" "reply = encode_resp (fst (map_answer arguments s))"
      using send by (auto simp: map_redis_def split: prod.splits)
    then show ?thesis using map_answer_lawful by blast
  next
    case False
    have "isl ?q"
    proof (rule ccontr)
      assume "\<not> isl ?q"
      then obtain v rest where v: "?q = Inr (v, rest)" by (cases ?q) auto
      from read_command_limits [OF v] False show False by fastforce
    qed
    then have "s' = s" "reply = encode_resp (RespError ''ERR'')" using send by (cases ?q; auto simp: map_redis_def)+
    then show ?thesis using err by blast
  qed
  then show "reply = [] \<and> map_of s' = map_of s \<or> (\<exists>r. redis_answers map_of arguments s r s' \<and> prefix reply (encode_resp r))" by auto
qed (simp add: map_redis_def)

lemma map_redis_command:
  assumes "rc_auth cfg = None" "arguments \<noteq> []" "length arguments \<le> 4096" "\<forall>a \<in> set arguments. length a \<le> 2 ^ 62"
    "map_answer arguments s = (r, s')" "resp_fits (rc_max_value_bytes cfg) 0 r"
  shows "redis_command dbg map_redis cfg arguments s = (Inr r, s')"
proof -
  have "resp_fits (2 ^ 62) 0 (RespArray (Some (map (\<lambda>a. RespBulk (Some a)) arguments)))" using assms(3,4) by auto
  from read_encoded [OF this, of None "[]"]
  have "read_resp None (2 ^ 62) 0 (command_bytes arguments) = Inr (RespArray (Some (map (\<lambda>a. RespBulk (Some a)) arguments)), [])"
    by (simp only: command_encoding append_Nil2)
  then have "round_trip map_redis (rc_max_value_bytes cfg) arguments [] s = (Inr (r, []), s')"
    using assms(2,5) read_encoded [OF assms(6), of None "[]"] by (simp add: round_trip_def map_redis_def)
  then show ?thesis using assms(1) by (simp add: redis_command_def map_redis_def)
qed

lemma as_bytes_append [simp]: "as_bytes (s @ t) = as_bytes s @ as_bytes t"
  by (simp add: as_bytes_def)

lemma scan_keys_bulk: "scan_keys (map (\<lambda>p. RespBulk (Some (fst p))) ps) = Inr (map fst ps)"
  by (induction ps) auto


definition plain_redis :: "string \<Rightarrow> redis_config" where
  "plain_redis namespace = \<lparr> rc_name = ''redis'', rc_address = ''localhost'', rc_namespace = namespace, rc_auth = None,
     rc_max_value_bytes = 1000 \<rparr>"

lemma redis_tier_keeps_the_contract_witness:
  "coherent_tier (redis_vt (\<lambda>_. []) demo_crypto map_redis (plain_redis ''a''))
     (stored_view map_of (redis_key demo_crypto (plain_redis ''a'')) (redis_dec (plain_redis ''a'')) {demo_key}) (\<lambda>_. True) {demo_key} (\<lambda>_. True)"
  by (rule redis_tier_keeps_the_contract [OF map_redis_lawful]) simp


end
