(* ===== verification/Calendar.thy ===== *)
theory Calendar
  imports Rivet_Prelude "HOL-Library.Signed_Division"
begin

text \<open>
  The dates of request signatures in \<open>src/connectors.rs\<close>: days since 1970 turned into a civil date by
  arithmetic on 400-year eras, and the text of a time stamp. The arithmetic agrees with counting days in the
  Gregorian calendar.
\<close>

section \<open>The code\<close>

text \<open>\<open>sdiv\<close> is Rust's division, which truncates. No \<open>i64\<close> overflows: a \<open>u64\<close> of seconds has fewer than \<open>2 ^ 48\<close> days.\<close>

definition civil_from_days :: "int \<Rightarrow> int \<times> int \<times> int" where
  "civil_from_days days_since_epoch =
     (let z = days_since_epoch + 719468;
          era = (if z \<ge> 0 then z else z - 146096) sdiv 146097;
          doe = z - era * 146097;
          yoe = (doe - doe sdiv 1460 + doe sdiv 36524 - doe sdiv 146096) sdiv 365;
          year = yoe + era * 400;
          doy = doe - (365 * yoe + yoe sdiv 4 - yoe sdiv 100);
          mp = (5 * doy + 2) sdiv 153;
          day = doy - (153 * mp + 2) sdiv 5 + 1;
          month = mp + (if mp < 10 then 3 else - 9) in
      (year + (if month \<le> 2 then 1 else 0), month, day))"

text \<open>\<open>format!\<close> with a width and leading zeros.\<close>

definition pad_zero :: "nat \<Rightarrow> int \<Rightarrow> string" where
  "pad_zero w i = replicate (w - length (show_int i)) CHR ''0'' @ show_int i"

definition aws_timestamp :: "u64 \<Rightarrow> (string \<times> string) io_result" where
  "aws_timestamp seconds =
     (let days = int (unat seconds div 86400); seconds_of_day = int (unat seconds mod 86400) in
      case civil_from_days days of (year, month, day) \<Rightarrow>
        if year < 1970 \<or> year > 9999 then Inl (IoError InvalidData ''S3 timestamp year is out of range'')
        else (let hour = seconds_of_day div 3600; minute = seconds_of_day mod 3600 div 60; second = seconds_of_day mod 60;
                  date = pad_zero 4 year @ pad_zero 2 month @ pad_zero 2 day in
              Inr (date, date @ ''T'' @ pad_zero 2 hour @ pad_zero 2 minute @ pad_zero 2 second @ ''Z'')))"

section \<open>The Gregorian calendar\<close>

definition leap :: "int \<Rightarrow> bool" where
  "leap y \<longleftrightarrow> y mod 4 = 0 \<and> (y mod 100 \<noteq> 0 \<or> y mod 400 = 0)"

definition month_length :: "int \<Rightarrow> int \<Rightarrow> int" where
  "month_length y m = (if m = 2 then (if leap y then 29 else 28) else if m \<in> {4, 6, 9, 11} then 30 else 31)"

fun next_date :: "int \<times> int \<times> int \<Rightarrow> int \<times> int \<times> int" where
  "next_date (y, m, d) =
     (if d < month_length y m then (y, m, d + 1) else if m < 12 then (y, m + 1, 1) else (y + 1, 1, 1))"

section \<open>Eras\<close>

text \<open>Years of an era begin in March; \<open>year_start\<close> is the day of the era on which year \<open>y\<close> begins.\<close>

definition year_start :: "int \<Rightarrow> int" where
  "year_start y = 365 * y + y div 4 - y div 100"

definition year_length :: "int \<Rightarrow> int" where
  "year_length y = (if leap (y + 1) then 366 else 365)"

definition year_of_era :: "int \<Rightarrow> int" where
  "year_of_era doe = (doe - doe div 1460 + doe div 36524 - doe div 146096) div 365"

definition month_day :: "int \<Rightarrow> int \<times> int" where
  "month_day t = (let mp = (5 * t + 2) div 153 in (mp + (if mp < 10 then 3 else - 9), t - (153 * mp + 2) div 5 + 1))"

lemma year_ends:
  "list_all (\<lambda>y. year_of_era (year_start y) = y \<and> year_of_era (year_start y + year_length y - 1) = y \<and>
     year_start y + year_length y = (if y = 399 then 146097 else year_start (y + 1))) [0..399]"
  by code_simp

lemma month_steps:
  "list_all (\<lambda>t. case month_day t of (m, d) \<Rightarrow> (m = 2 \<longrightarrow> t = d + 336) \<and> month_day (t + 1) =
     (if d < (if m = 2 then 29 else if m \<in> {4, 6, 9, 11} then 30 else 31) then (m, d + 1) else if m < 12 then (m + 1, 1) else (1, 1))) [0..364]"
  by code_simp

lemma year_end:
  assumes "0 \<le> y" "y \<le> 399"
  shows "year_of_era (year_start y) = y" "year_of_era (year_start y + year_length y - 1) = y"
    "year_start y + year_length y = (if y = 399 then 146097 else year_start (y + 1))"
proof -
  have "y \<in> set [0..399]" using assms by simp
  from bspec [OF year_ends [unfolded list_all_iff] this]
  show "year_of_era (year_start y) = y" "year_of_era (year_start y + year_length y - 1) = y"
    "year_start y + year_length y = (if y = 399 then 146097 else year_start (y + 1))"
    by blast+
qed

lemma year_of_era_step:
  assumes "0 \<le> d" "d + 1 < 146097"
  shows "year_of_era d \<le> year_of_era (d + 1)"
proof (cases "d + 1 = 146096")
  case True
  then have "d = 146095" by simp
  then show ?thesis by (simp add: year_of_era_def)
next
  case False
  then have "(d + 1) div 146096 = 0" "d div 146096 = 0" using assms by (simp_all add: div_pos_pos_trivial)
  moreover have "(d + 1) div 1460 \<le> (d + 1460) div 1460" by (rule zdiv_mono1) simp_all
  then have "(d + 1) div 1460 \<le> d div 1460 + 1" by simp
  moreover have "d div 36524 \<le> (d + 1) div 36524" by (rule zdiv_mono1) simp_all
  ultimately have "d - d div 1460 + d div 36524 - d div 146096 \<le> d + 1 - (d + 1) div 1460 + (d + 1) div 36524 - (d + 1) div 146096"
    by linarith
  then show ?thesis unfolding year_of_era_def by (rule zdiv_mono1) simp
qed

lemma year_of_era_mono: "0 \<le> a \<Longrightarrow> a \<le> b \<Longrightarrow> b < 146097 \<Longrightarrow> year_of_era a \<le> year_of_era b"
proof (induction "nat (b - a)" arbitrary: b)
  case (Suc n)
  then have "year_of_era a \<le> year_of_era (b - 1)" by (intro Suc.hyps(1)) auto
  also have "\<dots> \<le> year_of_era b" using year_of_era_step [of "b - 1"] Suc by simp
  finally show ?case .
qed simp

lemma era_join:
  assumes "0 \<le> y" "y \<le> 399" "0 \<le> t" "t < year_length y"
  shows "0 \<le> year_start y + t" "year_start y + t < 146097" "year_of_era (year_start y + t) = y"
proof -
  have start: "0 \<le> year_start y" using assms(1) by (simp add: year_start_def)
  have stop: "year_start y + year_length y \<le> 146097"
  proof (cases "y = 399")
    case False
    have "(y + 1) div 4 \<le> 399 div 4" by (rule zdiv_mono1) (use False assms(2) in auto)
    moreover have "0 \<le> (y + 1) div 100" using assms(1) by simp
    ultimately have "year_start (y + 1) \<le> 146097" using False assms(2) unfolding year_start_def by simp
    then show ?thesis using year_end(3) [OF assms(1,2)] False by simp
  qed (use year_end(3) [OF assms(1,2)] in simp)
  show "0 \<le> year_start y + t" "year_start y + t < 146097" using start stop assms by simp_all
  have "y \<le> year_of_era (year_start y + t)" "year_of_era (year_start y + t) \<le> y"
    using year_of_era_mono [of "year_start y" "year_start y + t"]
      year_of_era_mono [of "year_start y + t" "year_start y + year_length y - 1"] year_end(1,2) [OF assms(1,2)] start stop assms
    by simp_all
  then show "year_of_era (year_start y + t) = y" by simp
qed

lemma year_below: "n \<le> 400 \<Longrightarrow> 0 \<le> doe \<Longrightarrow> doe < (if n = 400 then 146097 else year_start (int n)) \<Longrightarrow>
  \<exists>y. 0 \<le> y \<and> y < int n \<and> year_start y \<le> doe \<and> doe < year_start y + year_length y"
proof (induction n)
  case 0
  then show ?case by (simp add: year_start_def)
next
  case (Suc n)
  show ?case
  proof (cases "doe < year_start (int n)")
    case True
    then show ?thesis using Suc by fastforce
  next
    case False
    then show ?thesis using year_end(3) [of "int n"] Suc.prems by (intro exI [of _ "int n"]) (auto simp: add.commute split: if_splits)
  qed
qed

lemma era_split:
  assumes "0 \<le> doe" "doe < 146097"
  obtains y t where "0 \<le> y" "y \<le> 399" "0 \<le> t" "t < year_length y" "doe = year_start y + t"
proof -
  obtain y where "0 \<le> y" "y < 400" "year_start y \<le> doe" "doe < year_start y + year_length y"
    using year_below [of 400 doe] assms by auto
  then show thesis by (intro that [of y "doe - year_start y"]) simp_all
qed

section \<open>Counting days\<close>

lemma sdiv_nonneg: "0 \<le> (k::int) \<Longrightarrow> 0 < l \<Longrightarrow> k sdiv l = k div l"
  by (auto simp: signed_divide_int_def sgn_if)

lemma year_of_era_dividend:
  assumes "0 \<le> (doe::int)"
  shows "0 \<le> doe - doe div 1460 + doe div 36524 - doe div 146096"
proof -
  have "doe div 1460 \<le> doe" using zdiv_mono2 [OF assms, of 1 1460] by simp
  moreover have "doe div 146096 \<le> doe div 36524" using assms by (intro zdiv_mono2) simp_all
  ultimately show ?thesis by simp
qed

definition civil_date :: "int \<Rightarrow> int \<Rightarrow> int \<Rightarrow> int \<times> int \<times> int" where
  "civil_date era y t = (case month_day t of (m, d) \<Rightarrow> (y + era * 400 + (if m \<le> 2 then 1 else 0), m, d))"

lemma civil_from_days_era:
  assumes "0 \<le> era" "0 \<le> y" "y \<le> 399" "0 \<le> t" "t < year_length y" and doe: "doe = year_start y + t"
  shows "civil_from_days (era * 146097 + doe - 719468) = civil_date era y t"
proof -
  note joined = era_join [OF assms(2-5), folded doe]
  have era: "(era * 146097 + doe) sdiv 146097 = era"
    using assms(1) joined by (simp add: sdiv_nonneg div_pos_pos_trivial)
  have yoe: "(doe - doe sdiv 1460 + doe sdiv 36524 - doe sdiv 146096) sdiv 365 = y"
    using year_of_era_dividend [OF joined(1)] joined by (simp add: sdiv_nonneg year_of_era_def)
  have doy: "doe - (365 * y + y sdiv 4 - y sdiv 100) = t"
    using assms(2,6) by (simp add: sdiv_nonneg year_start_def)
  define mp where "mp = (5 * t + 2) div 153"
  have mp: "(5 * t + 2) sdiv 153 = mp" "(153 * mp + 2) sdiv 5 = (153 * mp + 2) div 5"
    using assms(4) by (simp_all add: mp_def sdiv_nonneg)
  have z: "era * 146097 + doe - 719468 + 719468 = era * 146097 + doe" "0 \<le> era * 146097 + doe"
    "era * 146097 + doe - era * 146097 = doe"
    using assms(1) joined by simp_all
  show ?thesis
    by (simp only: civil_from_days_def civil_date_def month_day_def Let_def mp_def [symmetric] z if_True era yoe doy mp prod.case)
qed

lemma months_of_a_year:
  assumes "0 \<le> t" "t < 365" "month_day t = (m, d)"
  shows "m = 2 \<longrightarrow> t = d + 336" "month_day (t + 1) =
    (if d < (if m = 2 then 29 else if m \<in> {4, 6, 9, 11} then 30 else 31) then (m, d + 1) else if m < 12 then (m + 1, 1) else (1, 1))"
proof -
  have "t \<in> set [0..364]" using assms(1,2) by simp
  from bspec [OF month_steps [unfolded list_all_iff] this]
  show "m = 2 \<longrightarrow> t = d + 336" "month_day (t + 1) =
    (if d < (if m = 2 then 29 else if m \<in> {4, 6, 9, 11} then 30 else 31) then (m, d + 1) else if m < 12 then (m + 1, 1) else (1, 1))"
    using assms(3) by simp_all
qed

lemma leap_era: "leap (y + 1 + era * 400) = leap (y + 1)"
proof -
  have "(y + 1 + era * 400) mod 4 = (y + 1 + 4 * (100 * era)) mod 4"
    "(y + 1 + era * 400) mod 100 = (y + 1 + 100 * (4 * era)) mod 100"
    "(y + 1 + era * 400) mod 400 = (y + 1 + 400 * era) mod 400"
    by (simp_all add: algebra_simps)
  then show ?thesis unfolding leap_def by (simp only: mod_mult_self2)
qed

lemma civil_date_within_year:
  assumes "0 \<le> t" "t + 1 < year_length y"
  shows "next_date (civil_date era y t) = civil_date era y (t + 1)"
proof -
  obtain m d where md: "month_day t = (m, d)" by force
  have t: "t < 365" using assms(2) by (simp add: year_length_def split: if_splits)
  note months = months_of_a_year [OF assms(1) t md]
  have len: "month_length (y + era * 400 + (if m \<le> 2 then 1 else 0)) m =
    (if m = 2 then (if leap (y + 1) then 29 else 28) else if m \<in> {4, 6, 9, 11} then 30 else 31)"
    using leap_era [of y era] by (simp add: month_length_def algebra_simps)
  show ?thesis
  proof (cases "m = 2")
    case True
    then have "d < 28 \<or> d = 28 \<and> leap (y + 1)"
      using months(1) assms(2) t by (auto simp: year_length_def split: if_splits)
    then show ?thesis using True months(2) len by (auto simp: civil_date_def md)
  next
    case False
    then show ?thesis using months len by (auto simp: civil_date_def md)
  qed
qed

lemma civil_date_last_day:
  assumes "t + 1 = year_length y"
  shows "next_date (civil_date era y t) = (y + 1 + era * 400, 3, 1)"
  using assms leap_era [of y era]
  by (cases "leap (y + 1)") (simp_all add: civil_date_def month_day_def month_length_def year_length_def algebra_simps)

lemma civil_from_days_next:
  assumes "- 719468 \<le> d"
  shows "civil_from_days (d + 1) = next_date (civil_from_days d)"
proof -
  define era doe where "era = (d + 719468) div 146097" and "doe = (d + 719468) mod 146097"
  have era: "0 \<le> era" and d: "d = era * 146097 + doe - 719468"
    using assms by (simp_all add: era_def doe_def)
  obtain y t where yt: "0 \<le> y" "y \<le> 399" "0 \<le> t" "t < year_length y" and doe: "doe = year_start y + t"
    using era_split [of doe] by (auto simp: doe_def)
  have now: "civil_from_days d = civil_date era y t" unfolding d by (rule civil_from_days_era [OF era yt doe])
  consider "t + 1 < year_length y" | "t + 1 = year_length y" "y < 399" | "t + 1 = year_length y" "y = 399"
    using yt by linarith
  then show ?thesis
  proof cases
    case 1
    have "civil_from_days (era * 146097 + (doe + 1) - 719468) = civil_date era y (t + 1)"
      by (rule civil_from_days_era) (use era yt doe 1 in simp_all)
    then show ?thesis using now civil_date_within_year [OF yt(3) 1] by (simp add: d algebra_simps)
  next
    case 2
    have "civil_from_days (era * 146097 + (doe + 1) - 719468) = civil_date era (y + 1) 0"
      by (rule civil_from_days_era) (use era yt doe 2 year_end(3) [OF yt(1,2)] in \<open>simp_all add: year_length_def\<close>)
    moreover have "civil_date era (y + 1) 0 = (y + 1 + era * 400, 3, 1)" by (simp add: civil_date_def month_day_def)
    ultimately show ?thesis using now civil_date_last_day [OF 2(1)] by (simp add: d algebra_simps)
  next
    case 3
    have "civil_from_days ((era + 1) * 146097 + 0 - 719468) = civil_date (era + 1) 0 0"
      by (rule civil_from_days_era) (use era in \<open>simp_all add: year_start_def year_length_def\<close>)
    moreover have "civil_date (era + 1) 0 0 = (y + 1 + era * 400, 3, 1)"
      using 3(2) by (simp add: civil_date_def month_day_def algebra_simps)
    moreover have "d + 1 = (era + 1) * 146097 + 0 - 719468"
      using year_end(3) [OF yt(1,2)] 3 by (simp add: d doe algebra_simps)
    ultimately show ?thesis by (simp only: now civil_date_last_day [OF 3(1)])
  qed
qed

lemma civil_from_days_zero: "civil_from_days 0 = (1970, 1, 1)"
  by code_simp

lemma civil_from_days_counts: "civil_from_days (int n) = (next_date ^^ n) (1970, 1, 1)"
proof (induction n)
  case 0
  show ?case by (simp add: civil_from_days_zero)
next
  case (Suc n)
  then show ?case using civil_from_days_next [of "int n"] by (simp add: add.commute)
qed

lemma next_date_year: "fst q \<le> fst (next_date q)"
  by (cases q) simp

lemma counted_year: "1970 \<le> fst ((next_date ^^ n) (1970, 1, 1))"
  by (induction n) (auto intro: order_trans [OF _ next_date_year])

text \<open>C40: Turning days into a date by arithmetic on eras gives the date that counting day by day from 1 January 1970
  gives, with the Gregorian leap years; and the time stamp of a request is built from that date and from the hour,
  minute and second, or refused for a year above 9999.\<close>

theorem request_dates_follow_the_calendar:
  "civil_from_days (int n) = (next_date ^^ n) (1970, 1, 1) \<and>
   aws_timestamp s = (case (next_date ^^ (unat s div 86400)) (1970, 1, 1) of (y, m, d) \<Rightarrow>
     if y > 9999 then Inl (IoError InvalidData ''S3 timestamp year is out of range'')
     else Inr (pad_zero 4 y @ pad_zero 2 m @ pad_zero 2 d,
       pad_zero 4 y @ pad_zero 2 m @ pad_zero 2 d @ ''T'' @ pad_zero 2 (int (unat s mod 86400 div 3600)) @
         pad_zero 2 (int (unat s mod 3600 div 60)) @ pad_zero 2 (int (unat s mod 60)) @ ''Z''))"
proof (intro conjI civil_from_days_counts)
  have clock: "int (unat s mod 86400) div 3600 = int (unat s mod 86400 div 3600)"
    "int (unat s mod 86400) mod 3600 div 60 = int (unat s mod 3600 div 60)"
    "int (unat s mod 86400) mod 60 = int (unat s mod 60)"
    using mod_mod_cancel [of 3600 86400 "uint s"] mod_mod_cancel [of 60 86400 "uint s"]
    by (simp_all add: zdiv_int zmod_int flip: of_nat_mod of_nat_div)
  obtain y m d where ymd: "(next_date ^^ (unat s div 86400)) (1970, 1, 1) = (y, m, d)" by (metis prod_cases3)
  have "\<not> y < 1970" using counted_year [of "unat s div 86400"] by (simp add: ymd)
  then show "aws_timestamp s = (case (next_date ^^ (unat s div 86400)) (1970, 1, 1) of (y, m, d) \<Rightarrow>
     if y > 9999 then Inl (IoError InvalidData ''S3 timestamp year is out of range'')
     else Inr (pad_zero 4 y @ pad_zero 2 m @ pad_zero 2 d,
       pad_zero 4 y @ pad_zero 2 m @ pad_zero 2 d @ ''T'' @ pad_zero 2 (int (unat s mod 86400 div 3600)) @
         pad_zero 2 (int (unat s mod 3600 div 60)) @ pad_zero 2 (int (unat s mod 60)) @ ''Z''))"
    by (simp add: aws_timestamp_def civil_from_days_counts ymd clock Let_def)
qed

end
