(* ===== verification/Spec2Isabelle.thy ===== *)
theory Spec2Isabelle
  imports CachePersistence Codec Quality Control Pipeline Remote Memory Device Distributed SdkTier Redis Calendar
begin

text \<open>
  A verification development of RivetCache (\<open>src/src\<close>), a cache for model context and for the key/value
  blocks of transformer inference. Each theory follows one or two source files; its definitions keep
  the names of the functions they translate, in the order of the source, and its lemmas come after them.

  \<^bold>\<open>How the program hangs together.\<close> \<open>ContextCache\<close> (lib.rs) keeps values in memory, under a byte
  budget and an injected eviction policy (policy.rs), and optionally in a persistent store (store.rs). The
  key/value engine (kv.rs) reads and writes blocks over an ordered list of tiers with one interface
  \<open>KvTier\<close>; a context cache, a codec tier (codec.rs), an instrumented tier (observability.rs), a remote
  cache (remote.rs), device memory (device.rs), a native object store (sdk_tier.rs) and a Redis server
  (connectors.rs) are tiers. On top of the engine stand the
  asynchronous pipeline (async_runtime.rs), segment reuse (reuse.rs), quality-aware plans (quality.rs)
  and the controller with its quotas and fleet (control.rs). The router of distributed.rs hands blocks from prefill to
  decode workers over two tiers. memory.rs lends the buffers of transfers,
  events.rs publishes what happens.

  \<^bold>\<open>Common vocabulary\<close> (\<open>Rivet_Prelude\<close>). An \<open>io::Result\<close> is \<open>io_error + 'a\<close>; a panic is the error
  \<open>Panicked\<close>, so that every early return and every panic is a branch. State is passed explicitly:
  an operation maps a state to a result and the next state (\<open>and_then\<close>, \<open>check_then\<close> are the \<open>?\<close>
  operator). \<open>u8\<close>, \<open>u32\<close>, \<open>u64\<close> are words with their wrap-around and saturating operations written out;
  \<open>usize\<close> is a natural number with the bounds of a 64-bit target where the code can reach them. Strings are
  lists of bytes-as-characters. A hash map is an association list with distinct keys
  (\<open>hmap\<close>), and wherever the code iterates over one, the iteration order is a parameter of the
  operation, assumed only to be a permutation (\<open>hash_order_ok\<close>). Trait objects are records of operations.
  Digests and hexadecimal text come from external crates: they are the parameter \<open>crypto\<close>, whose
  documented lengths and alphabet are \<open>crypto_ok\<close>.

  \<^bold>\<open>Theories.\<close>
  \<^item> \<open>Policy\<close>: policy.rs. Key inputs and key validation, the least recently used policy, telemetry
    events. Locale \<open>lawful_eviction\<close> (a chosen victim is a candidate), interpreted by \<open>lru_choose_victim\<close>.
  \<^item> \<open>Store\<close>, \<open>FileStore\<close>: store.rs. Volatile, layered and file stores; the file store works on a directory
    (\<open>fs\<close>) in which a stream decides for every system call whether it fails. Locales \<open>fallible_store\<close> (what a
    failing call may leave), \<open>reliable_store\<close>, \<open>indexed_store\<close>, interpreted by the volatile and the file store.
    Lemmas: parsing and writing of the file format, atomicity of a write, the index, replication and rollback.
  \<^item> \<open>ContextCache\<close>, \<open>CacheProps\<close>, \<open>CachePersistence\<close>: lib.rs. Every operation of the cache and its builder,
    the memory budget, exact accounting, what a read means, pinned entries, and restarts.
  \<^item> \<open>Kv\<close>, \<open>KvEngine\<close>, \<open>KvCoherence\<close>: kv.rs. Block keys and envelope, the tier adapter of a context
    cache, the engine with both write policies, promotion, transfers, prefetch and restore, the
    prefix index. Locale \<open>coherent_tier\<close> (a read answers the view or nothing, a write changes one key, a
    failure never invents bytes), interpreted by the context cache tier, and by the instrumented, remote and
    device tiers in their theories; the engine's lemmas hold over any such tiers.
  \<^item> \<open>Codec\<close>: codec.rs. Identity and run-length codecs (locale \<open>lossless_codec\<close>), frames, codec tier.
  \<^item> \<open>Reuse\<close>, \<open>Quality\<close>: reuse.rs, quality.rs. Longest common runs, segment index, plans, boundaries, restores.
  \<^item> \<open>Quotas\<close>, \<open>Control\<close>: control.rs. Quotas as a step relation over interleaved clients, the fleet, and the
    HTTP handler on the text of a request.
  \<^item> \<open>Observability\<close>, \<open>Events\<close>: observability.rs, events.rs. Metric families, rendering, instrumented tier, event bus.
  \<^item> \<open>Pipeline\<close>: async_runtime.rs. Clients and workers as two step relations whose steps are the atomic actions
    of the code (a lock held, a channel operation, a counter update); reachability invariants, progress, termination.
  \<^item> \<open>Remote\<close>: remote.rs. Client and connection handler over byte streams with cuts and faults on both ends.
  \<^item> \<open>Memory\<close>: memory.rs. Page allocators (locale \<open>lawful_allocator\<close>, interpreted by the heap allocator) and the pool of leases.
  \<^item> \<open>Device\<close>: device.rs. Devices (locale \<open>lawful_device\<close>, interpreted by the host device), foreign callbacks, device tier.
  \<^item> \<open>Distributed\<close>: distributed.rs. Transfer providers behind foreign callbacks, the router with its rollback and reports,
    over any coherent tiers and over the remote protocol.
  \<^item> \<open>KeyedStore\<close>: what a tier over an external key/value store does to it (\<open>stores_entries\<close>), and that such a tier is
    a \<open>coherent_tier\<close>. \<open>SdkTier\<close> (sdk_tier.rs) and \<open>Redis\<close> (connectors.rs) are shown to be such tiers; the stores
    themselves are parameters, of which \<open>sdk_lawful\<close> and \<open>redis_lawful\<close> state the documented answers.
  \<^item> \<open>Resp\<close>: the Redis protocol of connectors.rs, read and written. \<open>Calendar\<close>: its dates.

  This theory adds what spans components: an engine whose tiers are a local and a remote cache.

  \<^bold>\<open>Bounds and assumptions.\<close> Loops are structural recursion or recursion on a measure; the eviction loop
  recurs on the number of entries and the copy loops on the bytes left, so no fuel is used. A
  vector of \<open>2 ^ 63\<close> bytes or more cannot exist in Rust; where an allocation of that size would be requested it is
  the capacity panic. Counters of event sequence numbers, jobs, and device handles are
  assumed not to run through all their values where a theorem needs it, and the theorem says so. The
  clock is a stream of readings.

  \<^bold>\<open>Not modelled.\<close> Mutex poisoning (no modelled section panics while it holds a lock, except as an error
  branch), threads, sockets, listeners and time-outs as such (accepting, shutting down, waiting), the native page
  allocators (\<open>mmap\<close>, \<open>VirtualAlloc\<close>), GPU, NIXL and HIP bindings, the S3 tier and its HTTP client, the dialer of Redis, the
  llama, vLLM and Mooncake services, the multi-process worker and the runtime's tuning, plugins loaded from shared libraries, and the binaries.
\<close>

section \<open>An engine over a remote cache\<close>

lemma local_and_remote_tiers_ok:
  assumes "eng_tiers eng = [(cct_vt cr cfg n1, c1), (tcp_vt client (steady lk) server (cct_vt cr cfg n2), c2)]"
    "cct_inv cr cfg used c1" "cct_inv cr cfg used c2"
    "small_view (cct_view cr used c1)" "small_view (cct_view cr used c2)" "\<And>k. k \<in> used \<Longrightarrow> wire_key k"
  shows "tiers_ok (\<lambda>_. cct_view cr used) (\<lambda>_ s. cct_inv cr cfg used s \<and> small_view (cct_view cr used s)) used
    (\<lambda>_. cct_fits cfg) (eng_tiers eng)"
proof -
  have "{k \<in> used. wire_key k} = used" using assms(6) by blast
  then have "coherent_tier (tcp_vt client (steady lk) server (cct_vt cr cfg n2)) (cct_view cr used)
      (\<lambda>s. cct_inv cr cfg used s \<and> small_view (cct_view cr used s)) used (cct_fits cfg)"
    using remote_cct.coherent_tier_axioms [of client lk server cr cfg n2 used] by simp
  with assms cct.small_coherent show ?thesis by (simp add: tiers_ok_def)
qed


definition far_engine :: "unit cache kv_engine" where
  "far_engine = demo_engine\<lparr> eng_tiers := [(cct_vt demo_crypto demo_tier_config ''cpu'', demo_cache),
     (tcp_vt \<lparr> tk_name = ''far'', tk_endpoint = (), tk_limits = demo_limits \<rparr> (steady (demo_link [] (Some 7)))
        demo_limits (cct_vt demo_crypto demo_tier_config ''cpu''), demo_cache)] \<rparr>"


end
